(* ===== verification/Prelude.thy ===== *)
theory Prelude
  imports Main "HOL-Library.Word"
begin

text \<open>
  Shared vocabulary of the development: machine integers and bytes, the ways in which C++ code can
  go wrong (\<open>fault\<close>), the composition of fallible steps (\<open>rbind\<close>), little-endian layout of 32-bit
  values, and the generic list lemmas that several components use.
\<close>

unbundle bit_operations_syntax

section \<open>Machine types\<close>

type_synonym byte = "8 word"
type_synonym u16 = "16 word"
type_synonym u32 = "32 word"
type_synonym u64 = "64 word"
type_synonym int32 = "32 word"
type_synonym fd = int

named_theorems rd_simps \<open>evaluation rules of the model's operations\<close>
named_theorems rd_inv \<open>preservation rules of the model's invariants\<close>

section \<open>Faults and fallible steps\<close>

text \<open>
  Every way in which an operation of the source has no defined result: reads and writes outside an
  allocated block, use of a null pointer or of an uninitialised variable, division by zero, use of
  a destroyed object, a conversion of a floating-point value that does not fit the target type. A
  loop that never ends is the value \<open>Diverges\<close>.
\<close>

datatype fault =
    Null_deref
  | Out_of_bounds
  | Uninitialised
  | Div_by_zero
  | Use_after_free
  | Bad_conversion
  | Diverges

type_synonym 'a res = "fault + 'a"

fun rbind :: "'a res \<Rightarrow> ('a \<Rightarrow> 'b res) \<Rightarrow> 'b res" where
  "rbind (Inl e) k = Inl e"
| "rbind (Inr x) k = k x"

lemma rbind_Inr_iff [simp]: "rbind m k = Inr y \<longleftrightarrow> (\<exists>x. m = Inr x \<and> k x = Inr y)"
  by (cases m) auto

lemma rbind_Inl_iff [simp]:
  "rbind m k = Inl e \<longleftrightarrow> m = Inl e \<or> (\<exists>x. m = Inr x \<and> k x = Inl e)"
  by (cases m) auto

lemma rbind_assoc: "rbind (rbind m f) g = rbind m (\<lambda>x. rbind (f x) g)"
  by (cases m) auto

definition defined :: "'a res \<Rightarrow> bool" where
  "defined m \<longleftrightarrow> (case m of Inl _ \<Rightarrow> False | Inr _ \<Rightarrow> True)"

lemma defined_simps [simp]: "defined (Inr x)" "\<not> defined (Inl e)"
  by (simp_all add: defined_def)

lemma defined_iff: "defined m \<longleftrightarrow> (\<exists>x. m = Inr x)"
  by (cases m) (auto simp: defined_def)

text \<open>A loop written as a partial function: \<open>None\<close> means that it does not return.\<close>

definition returning :: "'a option \<Rightarrow> 'a res" where
  "returning m = (case m of None \<Rightarrow> Inl Diverges | Some x \<Rightarrow> Inr x)"

lemma returning_simps [simp]: "returning (Some x) = Inr x" "returning None = Inl Diverges"
  by (simp_all add: returning_def)

section \<open>Checked access to arrays\<close>

text \<open>\<open>xs[i]\<close> of a C++ array or vector: undefined outside its bounds.\<close>

definition elem_at :: "'a list \<Rightarrow> nat \<Rightarrow> 'a res" where
  "elem_at xs i = (if i < length xs then Inr (xs ! i) else Inl Out_of_bounds)"

definition put :: "'a list \<Rightarrow> nat \<Rightarrow> 'a \<Rightarrow> 'a list res" where
  "put xs i x = (if i < length xs then Inr (xs[i := x]) else Inl Out_of_bounds)"

lemma elem_at_Inr_iff [simp]: "elem_at xs i = Inr x \<longleftrightarrow> i < length xs \<and> x = xs ! i"
  by (auto simp: elem_at_def)

lemma put_Inr_iff [simp]: "put xs i x = Inr ys \<longleftrightarrow> i < length xs \<and> ys = xs[i := x]"
  by (auto simp: put_def)

text \<open>\<open>memcpy(dst + off, src, length src)\<close> into the block \<open>dst\<close>.\<close>

definition memcpy_at :: "byte list \<Rightarrow> nat \<Rightarrow> byte list \<Rightarrow> byte list res" where
  "memcpy_at dst off src =
     (if off + length src \<le> length dst
      then Inr (take off dst @ src @ drop (off + length src) dst)
      else Inl Out_of_bounds)"

lemma memcpy_at_Inr_iff [simp]:
  "memcpy_at dst off src = Inr d \<longleftrightarrow>
     off + length src \<le> length dst \<and> d = take off dst @ src @ drop (off + length src) dst"
  by (auto simp: memcpy_at_def)

lemma memcpy_at_length: "memcpy_at dst off src = Inr d \<Longrightarrow> length d = length dst"
  by auto

section \<open>Characters and little-endian words\<close>

definition bytes_of :: "string \<Rightarrow> byte list" where
  "bytes_of s = map of_char s"

lemma length_bytes_of [simp]: "length (bytes_of s) = length s"
  by (simp add: bytes_of_def)

primrec le_value :: "byte list \<Rightarrow> nat" where
  "le_value [] = 0"
| "le_value (b # bs) = unat b + 256 * le_value bs"

definition le32 :: "byte list \<Rightarrow> u32" where
  "le32 bs = word_of_nat (le_value (take 4 bs))"

definition le16 :: "byte list \<Rightarrow> u16" where
  "le16 bs = word_of_nat (le_value (take 2 bs))"

primrec le_bytes :: "nat \<Rightarrow> nat \<Rightarrow> byte list" where
  "le_bytes 0 n = []"
| "le_bytes (Suc k) n = word_of_nat (n mod 256) # le_bytes k (n div 256)"

definition to_le32 :: "u32 \<Rightarrow> byte list" where
  "to_le32 w = le_bytes 4 (unat w)"

lemma length_le_bytes [simp]: "length (le_bytes k n) = k"
  by (induction k arbitrary: n) auto

lemma length_to_le32 [simp]: "length (to_le32 w) = 4"
  by (simp add: to_le32_def)

lemma le_value_le_bytes: "le_value (le_bytes k n) = n mod 256 ^ k"
proof (induction k arbitrary: n)
  case 0
  then show ?case by simp
next
  case (Suc k)
  have "unat (word_of_nat (n mod 256) :: byte) = n mod 256"
    by (simp add: unat_of_nat)
  moreover have "n mod 256 + 256 * ((n div 256) mod 256 ^ k) = n mod (256 * 256 ^ k)"
    by (simp add: mod_mult2_eq)
  ultimately show ?case by (simp add: Suc.IH)
qed

lemma le32_to_le32 [simp]: "le32 (to_le32 w @ rest) = w"
proof -
  have "unat w < 2 ^ 32"
    using unsigned_less [of w] by simp
  then have "unat w mod 256 ^ 4 = unat w"
    by simp
  then show ?thesis
    by (simp add: le32_def to_le32_def le_value_le_bytes)
qed

section \<open>Inevitable states\<close>

text \<open>
  \<open>inevitable step Q s\<close>: every run from \<open>s\<close> gets to a state of \<open>Q\<close>; before that it is never stuck,
  whatever steps are chosen.
\<close>

inductive inevitable :: "('s \<Rightarrow> 's \<Rightarrow> bool) \<Rightarrow> ('s \<Rightarrow> bool) \<Rightarrow> 's \<Rightarrow> bool" for step Q where
  reached: "Q s \<Longrightarrow> inevitable step Q s"
| continues: "step s t0 \<Longrightarrow> (\<And>t. step s t \<Longrightarrow> inevitable step Q t) \<Longrightarrow> inevitable step Q s"

lemma inevitable_measure:
  fixes m :: "'s \<Rightarrow> nat"
  assumes "I s"
    and stuck: "\<And>s. I s \<Longrightarrow> \<not> Q s \<Longrightarrow> \<exists>t. step s t"
    and pres: "\<And>s t. I s \<Longrightarrow> step s t \<Longrightarrow> I t"
    and decr: "\<And>s t. I s \<Longrightarrow> step s t \<Longrightarrow> m t < m s"
  shows "inevitable step Q s"
  using assms(1)
proof (induction "m s" arbitrary: s rule: less_induct)
  case less
  show ?case
  proof (cases "Q s")
    case True
    then show ?thesis by (rule reached)
  next
    case False
    with stuck less.prems obtain t0 where "step s t0" by blast
    then show ?thesis
      using less by (blast intro: continues pres decr)
  qed
qed

section \<open>Lists\<close>

lemma take_append_eq: "n = length xs \<Longrightarrow> take n (xs @ ys) = xs"
  by simp

lemma list_update_take_nth_drop:
  "i < length xs \<Longrightarrow> xs[i := x] = take i xs @ x # drop (Suc i) xs"
  by (rule upd_conv_take_nth_drop)

text \<open>A 32-bit value below \<open>2 ^ 31\<close> reads the same as a signed integer.\<close>

lemma sint_small:
  fixes x :: u32
  assumes "unat x < 2 ^ 31"
  shows "sint x = int (unat x)"
proof -
  have "sint x = signed_take_bit 31 (uint x)" using sint_uint [of x] by simp
  moreover have "uint x < 2 ^ 31" using assms unfolding nat_less_numeral_power_cancel_iff [symmetric] by simp
  moreover have "- (2 ^ 31) \<le> uint x" by (rule order_trans [OF _ uint_ge_0]) simp
  ultimately show ?thesis using signed_take_bit_int_eq_self [of 31 "uint x"] by simp
qed

lemma sint_word_of_nat_small:
  "n < 2 ^ 31 \<Longrightarrow> sint (word_of_nat n :: u32) = int n"
  using sint_small [of "word_of_nat n"] by (simp add: unsigned_of_nat take_bit_nat_eq_self)

lemma length_filter_update:
  "i < length xs \<Longrightarrow> length (filter P (xs[i := x])) + of_bool (P (xs ! i)) =
     length (filter P xs) + of_bool (P x)"
proof (induction xs arbitrary: i)
  case Nil
  then show ?case by simp
next
  case (Cons y ys)
  show ?case
  proof (cases i)
    case 0
    then show ?thesis by simp
  next
    case (Suc j)
    with Cons.prems have "j < length ys" by simp
    from Cons.IH [OF this] show ?thesis by (simp add: Suc)
  qed
qed

lemma in_set_update: "x \<in> set (xs[i := y]) \<Longrightarrow> x = y \<or> x \<in> set xs"
  using set_update_subset_insert [of xs i y] by blast

end
