(* ===== verification/BloomParams.thy ===== *)
theory BloomParams
  imports Prelude Complex_Main
begin

text \<open>
  The class \<open>bloom_parameters\<close> of \<open>util/include/bloom_filter.hpp\<close>: its fields, the validity test
  \<open>operator!\<close> and \<open>compute_optimal_parameters\<close>. The floating-point unit and the mathematical
  library (\<open>log\<close>, \<open>pow\<close>, \<open>exp\<close>) are the parameter \<open>fpu\<close>; what the search for the best number of
  hash functions relies on is the predicate \<open>fpu_ok\<close>.
\<close>

section \<open>Floating-point arithmetic\<close>

text \<open>
  \<open>fp_lit m e\<close> is the double nearest to \<open>m * 10 ^ - e\<close> (a decimal literal), \<open>fp_trunc\<close> the value
  rounded towards zero, \<open>None\<close> for infinities and NaN.
\<close>

record 'd fpu =
  fp_lit :: "nat \<Rightarrow> nat \<Rightarrow> 'd"
  fp_of_u64 :: "u64 \<Rightarrow> 'd"
  fp_inf :: 'd
  fp_neg :: "'d \<Rightarrow> 'd"
  fp_add :: "'d \<Rightarrow> 'd \<Rightarrow> 'd"
  fp_sub :: "'d \<Rightarrow> 'd \<Rightarrow> 'd"
  fp_mul :: "'d \<Rightarrow> 'd \<Rightarrow> 'd"
  fp_div :: "'d \<Rightarrow> 'd \<Rightarrow> 'd"
  fp_pow :: "'d \<Rightarrow> 'd \<Rightarrow> 'd"
  fp_log :: "'d \<Rightarrow> 'd"
  fp_exp :: "'d \<Rightarrow> 'd"
  fp_abs :: "'d \<Rightarrow> 'd"
  fp_lt :: "'d \<Rightarrow> 'd \<Rightarrow> bool"
  fp_eq :: "'d \<Rightarrow> 'd \<Rightarrow> bool"
  fp_trunc :: "'d \<Rightarrow> int option"

text \<open>
  IEEE-754 facts: small integers are represented exactly, so that adding one and comparing with a
  literal are exact on them; \<open><\<close> is a strict order (a NaN is in no relation).
\<close>

definition fpu_ok :: "'d fpu \<Rightarrow> bool" where
  "fpu_ok F \<longleftrightarrow>
     (\<forall>n < 2 ^ 53. fp_add F (fp_lit F n 0) (fp_lit F 1 0) = fp_lit F (Suc n) 0) \<and>
     (\<forall>m \<le> 2 ^ 53. \<forall>n \<le> 2 ^ 53. fp_lt F (fp_lit F m 0) (fp_lit F n 0) \<longleftrightarrow> m < n) \<and>
     (\<forall>n \<le> 2 ^ 53. fp_trunc F (fp_lit F n 0) = Some (int n)) \<and>
     (\<forall>x. \<not> fp_lt F x x) \<and>
     (\<forall>x y z. fp_lt F x y \<longrightarrow> fp_lt F y z \<longrightarrow> fp_lt F x z)"

lemma fpu_ok_add: "fpu_ok F \<Longrightarrow> n < 2 ^ 53 \<Longrightarrow> fp_add F (fp_lit F n 0) (fp_lit F 1 0) = fp_lit F (Suc n) 0"
  by (simp add: fpu_ok_def)

lemma fpu_ok_less: "fpu_ok F \<Longrightarrow> m \<le> 2 ^ 53 \<Longrightarrow> n \<le> 2 ^ 53 \<Longrightarrow>
    fp_lt F (fp_lit F m 0) (fp_lit F n 0) \<longleftrightarrow> m < n"
  by (simp add: fpu_ok_def)

lemma fpu_ok_trunc: "fpu_ok F \<Longrightarrow> n \<le> 2 ^ 53 \<Longrightarrow> fp_trunc F (fp_lit F n 0) = Some (int n)"
  by (simp add: fpu_ok_def)

lemma fpu_ok_irrefl: "fpu_ok F \<Longrightarrow> \<not> fp_lt F x x"
  by (simp add: fpu_ok_def)

lemma fpu_ok_trans: "fpu_ok F \<Longrightarrow> fp_lt F x y \<Longrightarrow> fp_lt F y z \<Longrightarrow> fp_lt F x z"
  unfolding fpu_ok_def by blast

lemmas fpu_ok_rules = fpu_ok_add fpu_ok_less fpu_ok_trunc fpu_ok_irrefl fpu_ok_trans

text \<open>\<open>static_cast<unsigned long long int>\<close> and \<open>static_cast<unsigned int>\<close> of a double.\<close>

definition fp_cast :: "'d fpu \<Rightarrow> nat \<Rightarrow> 'd \<Rightarrow> nat res" where
  "fp_cast F w x =
     (case fp_trunc F x of
        None \<Rightarrow> Inl Bad_conversion
      | Some i \<Rightarrow> if 0 \<le> i \<and> i < 2 ^ w then Inr (nat i) else Inl Bad_conversion)"

lemma fp_cast_lit: "fpu_ok F \<Longrightarrow> n \<le> 2 ^ 31 \<Longrightarrow> fp_cast F 32 (fp_lit F n 0) = Inr n"
  by (simp add: fp_cast_def fpu_ok_trunc)

lemma fp_cast_bound: "fp_cast F w x = Inr n \<Longrightarrow> n < 2 ^ w"
  by (auto simp: fp_cast_def nat_less_iff split: option.splits if_splits)

section \<open>The parameters\<close>

record optimal_parameters_t =
  number_of_hashes :: u32
  opt_table_size :: u64

record 'd bloom_parameters =
  minimum_size :: u64
  maximum_size :: u64
  minimum_number_of_hashes :: u32
  maximum_number_of_hashes :: u32
  param_element_count :: u64
  false_positive_probability :: 'd
  param_random_seed :: u64
  optimal_parameters :: optimal_parameters_t

definition bits_per_char :: nat where
  "bits_per_char = 8"

text \<open>The constructor \<open>bloom_parameters()\<close>.\<close>

definition new_bloom_parameters :: "'d fpu \<Rightarrow> 'd bloom_parameters" where
  "new_bloom_parameters F =
     \<lparr> minimum_size = 1,
       maximum_size = 0xFFFFFFFFFFFFFFFF,
       minimum_number_of_hashes = 1,
       maximum_number_of_hashes = 0xFFFFFFFF,
       param_element_count = 10000,
       false_positive_probability = fp_div F (fp_lit F 1 0) (fp_of_u64 F 10000),
       param_random_seed = 0xA5A5A5A55A5A5A5A,
       optimal_parameters = \<lparr> number_of_hashes = 0, opt_table_size = 0 \<rparr> \<rparr>"

text \<open>\<open>operator!\<close>: the parameters are not usable.\<close>

definition invalid_parameters :: "'d fpu \<Rightarrow> 'd bloom_parameters \<Rightarrow> bool" where
  "invalid_parameters F p \<longleftrightarrow>
     maximum_size p < minimum_size p \<or>
     maximum_number_of_hashes p < minimum_number_of_hashes p \<or>
     minimum_number_of_hashes p < 1 \<or>
     0 = maximum_number_of_hashes p \<or>
     0 = param_element_count p \<or>
     fp_lt F (false_positive_probability p) (fp_lit F 0 0) \<or>
     fp_eq F (fp_inf F) (fp_abs F (false_positive_probability p)) \<or>
     0 = param_random_seed p \<or>
     0xFFFFFFFFFFFFFFFF = param_random_seed p"

section \<open>The search for the best number of hash functions\<close>

text \<open>The number of bits that \<open>k\<close> hash functions need, as the loop body computes it.\<close>

definition curr_m :: "'d fpu \<Rightarrow> 'd bloom_parameters \<Rightarrow> 'd \<Rightarrow> 'd" where
  "curr_m F p k =
     (let numerator = fp_mul F (fp_neg F k) (fp_of_u64 F (param_element_count p));
          denominator = fp_log F (fp_sub F (fp_lit F 1 0)
            (fp_pow F (false_positive_probability p) (fp_div F (fp_lit F 1 0) k)))
      in fp_div F numerator denominator)"

text \<open>
  \<open>while (k < 1000.0)\<close>: the loop counter is itself a double, so that the loop is a partial
  function; \<open>opt_loop_lit\<close> shows that it returns.
\<close>

partial_function (option) opt_loop ::
  "'d fpu \<Rightarrow> 'd bloom_parameters \<Rightarrow> 'd \<Rightarrow> 'd \<Rightarrow> 'd \<Rightarrow> ('d \<times> 'd) option" where
  "opt_loop F p min_m min_k k =
     (if fp_lt F k (fp_lit F 1000 0)
      then (let m = curr_m F p k in
            if fp_lt F m min_m
            then opt_loop F p m k (fp_add F k (fp_lit F 1 0))
            else opt_loop F p min_m min_k (fp_add F k (fp_lit F 1 0)))
      else Some (min_m, min_k))"

text \<open>The rounding and clamping of the result to whole bytes and to the allowed ranges.\<close>

definition round_up_size :: "u64 \<Rightarrow> u64" where
  "round_up_size t = t + (if unat t mod bits_per_char \<noteq> 0
     then word_of_nat (bits_per_char - unat t mod bits_per_char) else 0)"

definition clamp_word :: "'a::len word \<Rightarrow> 'a word \<Rightarrow> 'a word \<Rightarrow> 'a word" where
  "clamp_word lo hi x = (if x < lo then lo else if hi < x then hi else x)"

definition compute_optimal_parameters ::
  "'d fpu \<Rightarrow> 'd bloom_parameters \<Rightarrow> (bool \<times> 'd bloom_parameters) res" where
  "compute_optimal_parameters F p =
     (if invalid_parameters F p then Inr (False, p)
      else rbind (returning (opt_loop F p (fp_inf F) (fp_lit F 0 0) (fp_lit F 1 0)))
        (\<lambda>(min_m, min_k).
         rbind (fp_cast F 32 min_k) (\<lambda>h.
         rbind (fp_cast F 64 min_m) (\<lambda>t.
           let hashes = clamp_word (minimum_number_of_hashes p) (maximum_number_of_hashes p)
                 (word_of_nat h);
               size = clamp_word (minimum_size p) (maximum_size p) (round_up_size (word_of_nat t))
           in Inr (True, p\<lparr>optimal_parameters :=
                \<lparr>number_of_hashes = hashes, opt_table_size = size\<rparr>\<rparr>)))))"

section \<open>Correctness\<close>

text \<open>The loop, started at the integer \<open>j\<close>, as a fold over the remaining integers.\<close>

definition opt_step :: "'d fpu \<Rightarrow> 'd bloom_parameters \<Rightarrow> nat \<Rightarrow> 'd \<times> 'd \<Rightarrow> 'd \<times> 'd" where
  "opt_step F p j mk =
     (let m = curr_m F p (fp_lit F j 0) in
      if fp_lt F m (fst mk) then (m, fp_lit F j 0) else mk)"

lemma opt_loop_lit:
  assumes "fpu_ok F" and "j \<le> 1000"
  shows "opt_loop F p m k (fp_lit F j 0) = Some (fold (opt_step F p) [j..<1000] (m, k))"
  using assms(2)
proof (induction "1000 - j" arbitrary: j m k)
  case 0
  then have "j = 1000" by simp
  with assms(1) show ?case
    by (simp add: opt_loop.simps fpu_ok_less)
next
  case (Suc d)
  then have j: "j < 1000" by simp
  have next_k: "fp_add F (fp_lit F j 0) (fp_lit F 1 0) = fp_lit F (Suc j) 0"
    by (rule fpu_ok_add [OF assms(1)]) (use j in simp)
  have upt: "[j..<1000] = j # [Suc j..<1000]"
    using j by (simp add: upt_conv_Cons)
  have "opt_loop F p m' k' (fp_lit F (Suc j) 0) =
      Some (fold (opt_step F p) [Suc j..<1000] (m', k'))" for m' k'
    using Suc by simp
  with j assms(1) show ?case
    by (subst opt_loop.simps) (simp add: fpu_ok_less next_k upt opt_step_def Let_def del: One_nat_def)
qed

text \<open>What is found is minimal among the values tried, and was reached by one of them.\<close>

lemma fold_opt_step_min:
  assumes ok: "fpu_ok F"
  shows "let r = fold (opt_step F p) js (m, k) in
    (\<forall>j \<in> set js. \<not> fp_lt F (curr_m F p (fp_lit F j 0)) (fst r)) \<and>
    (r = (m, k) \<or> (fp_lt F (fst r) m \<and>
       (\<exists>j \<in> set js. r = (curr_m F p (fp_lit F j 0), fp_lit F j 0))))"
proof (induction js rule: rev_induct)
  case Nil
  then show ?case by simp
next
  case (snoc j js)
  show ?case
    using snoc.IH
    by (auto simp: opt_step_def Let_def fpu_ok_irrefl [OF ok] dest: fpu_ok_trans [OF ok])
qed

lemma unat_round_up_size:
  assumes t: "t < 2 ^ 64 - 8"
  shows "unat (round_up_size (word_of_nat t)) = t + (if t mod 8 = 0 then 0 else 8 - t mod 8)"
proof -
  have u: "unat (word_of_nat t :: u64) = t"
    using t by (simp add: unat_of_nat)
  show ?thesis
  proof (cases "t mod 8 = 0")
    case True
    then show ?thesis by (simp add: round_up_size_def bits_per_char_def u)
  next
    case False
    have "word_of_nat t + word_of_nat (8 - t mod 8) = (word_of_nat (t + (8 - t mod 8)) :: u64)"
      by (rule of_nat_add [symmetric])
    then have "unat (word_of_nat t + word_of_nat (8 - t mod 8) :: u64) = t + (8 - t mod 8)"
      using t by (simp only: unat_of_nat) simp
    then show ?thesis using False by (simp add: round_up_size_def bits_per_char_def u)
  qed
qed

lemma round_up_size_mult:
  assumes "t < 2 ^ 64 - 8"
  shows "unat (round_up_size (word_of_nat t)) mod 8 = 0"
  unfolding unat_round_up_size [OF assms] by presburger

lemma clamp_word_range: "lo \<le> hi \<Longrightarrow> lo \<le> clamp_word lo hi x \<and> clamp_word lo hi x \<le> hi"
  by (auto simp: clamp_word_def)

lemma clamp_word_id: "lo \<le> x \<Longrightarrow> x \<le> hi \<Longrightarrow> clamp_word lo hi x = x"
  by (auto simp: clamp_word_def not_less)

text \<open>The whole search as one fold over the candidates 1 to 999.\<close>

definition best_choice :: "'d fpu \<Rightarrow> 'd bloom_parameters \<Rightarrow> 'd \<times> 'd" where
  "best_choice F p = fold (opt_step F p) [1..<1000] (fp_inf F, fp_lit F 0 0)"

lemma opt_loop_best:
  "fpu_ok F \<Longrightarrow> opt_loop F p (fp_inf F) (fp_lit F 0 0) (fp_lit F 1 0) = Some (best_choice F p)"
  unfolding best_choice_def by (rule opt_loop_lit) simp_all

lemma best_choice_min:
  "fpu_ok F \<Longrightarrow> 1 \<le> j \<Longrightarrow> j < 1000 \<Longrightarrow> \<not> fp_lt F (curr_m F p (fp_lit F j 0)) (fst (best_choice F p))"
  using fold_opt_step_min [of F p "[1..<1000]" "fp_inf F" "fp_lit F 0 0"]
  by (auto simp: best_choice_def Let_def)

lemma best_choice_attained:
  assumes "fpu_ok F" and "fp_lt F (fst (best_choice F p)) (fp_inf F)"
  shows "\<exists>j. 1 \<le> j \<and> j < 1000 \<and> best_choice F p = (curr_m F p (fp_lit F j 0), fp_lit F j 0)"
  using fold_opt_step_min [OF assms(1), of p "[1..<1000]" "fp_inf F" "fp_lit F 0 0"]
    assms(2) fpu_ok_irrefl [OF assms(1)]
  unfolding best_choice_def Let_def by (metis atLeastLessThan_iff fst_conv set_upt)

section \<open>Exact arithmetic as a floating-point unit\<close>

text \<open>
  The arithmetic of the reals, with one more element for infinity and everything that has no value:
  an instance of \<open>fpu_ok\<close>.
\<close>

definition lift2 :: "(real \<Rightarrow> real \<Rightarrow> real) \<Rightarrow> real option \<Rightarrow> real option \<Rightarrow> real option" where
  "lift2 f x y = (case x of None \<Rightarrow> None | Some a \<Rightarrow> (case y of None \<Rightarrow> None | Some b \<Rightarrow> Some (f a b)))"

definition real_less :: "real option \<Rightarrow> real option \<Rightarrow> bool" where
  "real_less x y = (case x of None \<Rightarrow> False | Some a \<Rightarrow> (case y of None \<Rightarrow> True | Some b \<Rightarrow> a < b))"

definition real_trunc :: "real option \<Rightarrow> int option" where
  "real_trunc x = map_option (\<lambda>a. if a < 0 then - \<lfloor>- a\<rfloor> else \<lfloor>a\<rfloor>) x"

definition real_fpu :: "real option fpu" where
  "real_fpu = \<lparr> fp_lit = (\<lambda>m e. Some (of_nat m / 10 ^ e)),
     fp_of_u64 = (\<lambda>w. Some (of_nat (unat w))),
     fp_inf = None,
     fp_neg = map_option uminus,
     fp_add = lift2 (+),
     fp_sub = lift2 (-),
     fp_mul = lift2 (*),
     fp_div = lift2 (/),
     fp_pow = lift2 (powr),
     fp_log = map_option ln,
     fp_exp = map_option exp,
     fp_abs = map_option abs,
     fp_lt = real_less,
     fp_eq = (=),
     fp_trunc = real_trunc \<rparr>"

lemma real_fpu_ok: "fpu_ok real_fpu"
  by (auto simp: fpu_ok_def real_fpu_def lift2_def real_less_def real_trunc_def split: option.splits)

section \<open>Properties\<close>

text \<open>
  The promise of the search: \<open>m\<close> bits are not more than any candidate needs, and \<open>h\<close> is a candidate
  that needs just \<open>m\<close> bits.
\<close>

definition optimal_choice :: "'d fpu \<Rightarrow> 'd bloom_parameters \<Rightarrow> 'd \<Rightarrow> nat \<Rightarrow> bool" where
  "optimal_choice F p m h \<longleftrightarrow>
     (\<forall>j. 1 \<le> j \<longrightarrow> j < 1000 \<longrightarrow> \<not> fp_lt F (curr_m F p (fp_lit F j 0)) m) \<and>
     (fp_lt F m (fp_inf F) \<longrightarrow> 1 \<le> h \<and> h < 1000 \<and> m = curr_m F p (fp_lit F h 0))"

definition chosen_parameters :: "'d bloom_parameters \<Rightarrow> nat \<Rightarrow> nat \<Rightarrow> optimal_parameters_t" where
  "chosen_parameters p h t =
     \<lparr>number_of_hashes = clamp_word (minimum_number_of_hashes p) (maximum_number_of_hashes p) (word_of_nat h),
      opt_table_size = clamp_word (minimum_size p) (maximum_size p) (round_up_size (word_of_nat t))\<rparr>"

lemma best_choice_optimal:
  assumes "fpu_ok F" and "best_choice F p = (m, k)" and "fp_cast F 32 k = Inr h"
  shows "optimal_choice F p m h"
proof -
  have "1 \<le> h \<and> h < 1000 \<and> m = curr_m F p (fp_lit F h 0)" if lt: "fp_lt F m (fp_inf F)"
  proof -
    from lt assms(2) have "fp_lt F (fst (best_choice F p)) (fp_inf F)" by simp
    from best_choice_attained [OF assms(1) this] assms(2) obtain j where
        j: "1 \<le> j" "j < 1000" "m = curr_m F p (fp_lit F j 0)" "k = fp_lit F j 0" by auto
    moreover have "fp_cast F 32 (fp_lit F j 0) = Inr j"
      by (rule fp_cast_lit [OF assms(1)]) (use j(2) in simp)
    ultimately show ?thesis using assms(3) by simp
  qed
  moreover have "\<not> fp_lt F (curr_m F p (fp_lit F j 0)) m" if "1 \<le> j" "j < 1000" for j
    using best_choice_min [OF assms(1) that, of p] assms(2) by simp
  ultimately show ?thesis unfolding optimal_choice_def by blast
qed

lemma fp_cast_error: "fp_cast F w x = Inl e \<Longrightarrow> e = Bad_conversion"
  by (auto simp: fp_cast_def split: option.splits if_splits)

lemma compute_optimal_parameters_valid:
  assumes "fpu_ok F" and "\<not> invalid_parameters F p" and "best_choice F p = (m, k)"
  shows "compute_optimal_parameters F p =
    rbind (fp_cast F 32 k) (\<lambda>h. rbind (fp_cast F 64 m) (\<lambda>t.
      Inr (True, p\<lparr>optimal_parameters := chosen_parameters p h t\<rparr>)))"
  unfolding compute_optimal_parameters_def opt_loop_best [OF assms(1)] assms(3) chosen_parameters_def
  using assms(2) by (simp only: if_False returning_simps rbind.simps prod.case Let_def)



end
