(* ===== verification/BloomFilter.thy ===== *)
theory BloomFilter
  imports BloomParams
begin

text \<open>
  The class \<open>bloom_filter\<close> of \<open>util/include/bloom_filter.hpp\<close>: construction (with the generation of
  the salts), hashing, insertion, membership and clearing. \<open>compute_indices\<close> is a virtual
  function of the class, so insertion and membership take it as an argument; the locale
  \<open>bit_indexing\<close> states what a class has to provide for it, and refines the operations to
  operations on sets of bit positions.
\<close>

section \<open>State\<close>

record 'd bloom_filter =
  salts :: "u32 list"
  bit_table :: "byte list"
  salt_count :: u32
  table_size :: u64
  projected_element_count :: u64
  inserted_element_count :: u64
  random_seed :: u64
  desired_false_positive_probability :: 'd

definition bit_mask :: "byte list" where
  "bit_mask = [0x01, 0x02, 0x04, 0x08, 0x10, 0x20, 0x40, 0x80]"

text \<open>The default constructor.\<close>

definition empty_bloom_filter :: "'d fpu \<Rightarrow> 'd bloom_filter" where
  "empty_bloom_filter F =
     \<lparr> salts = [], bit_table = [], salt_count = 0, table_size = 0,
       projected_element_count = 0, inserted_element_count = 0, random_seed = 0,
       desired_false_positive_probability = fp_lit F 0 0 \<rparr>"

section \<open>Salts\<close>

definition predef_salt :: "u32 list" where
  "predef_salt =
    [ 0xAAAAAAAA, 0x55555555, 0x33333333, 0xCCCCCCCC,
      0x66666666, 0x99999999, 0xB5B5B5B5, 0x4B4B4B4B,
      0xAA55AA55, 0x55335533, 0x33CC33CC, 0xCC66CC66,
      0x66996699, 0x99B599B5, 0xB54BB54B, 0x4BAA4BAA,
      0xAA33AA33, 0x55CC55CC, 0x33663366, 0xCC99CC99,
      0x66B566B5, 0x994B994B, 0xB5AAB5AA, 0xAAAAAA33,
      0x555555CC, 0x33333366, 0xCCCCCC99, 0x666666B5,
      0x9999994B, 0xB5B5B5AA, 0xFFFFFFFF, 0xFFFF0000,
      0xB823D5EB, 0xC1191CDF, 0xF623AEB3, 0xDB58499F,
      0xC8D42E70, 0xB173F616, 0xA91A5967, 0xDA427D63,
      0xB1E8A2EA, 0xF6C0D155, 0x4909FEA3, 0xA68CC6A7,
      0xC395E782, 0xA26057EB, 0x0CD5DA28, 0x467C5492,
      0xF15E6982, 0x61C6FAD3, 0x9615E352, 0x6E9E355A,
      0x689B563E, 0x0C9831A8, 0x6753C18B, 0xA622689B,
      0x8CA63C47, 0x42CC2884, 0x8E89919B, 0x6EDBD7D3,
      0x15B6796C, 0x1D6FDFE4, 0x63FF9092, 0xE7401432,
      0xEFFE9412, 0xAEAEDF79, 0x9F245A31, 0x83C136FC,
      0xC3DA4A8C, 0xA5112C8C, 0x5271F491, 0x9A948DAB,
      0xCEE59A8D, 0xB5F525AB, 0x59D13217, 0x24E7C331,
      0x697C2103, 0x84B0A460, 0x86156DA9, 0xAEF2AC68,
      0x23243DA5, 0x3F649643, 0x5FA495A8, 0x67710DF8,
      0x9A6C499E, 0xDCFB0227, 0x46A43433, 0x1832B07A,
      0xC46AFF3C, 0xB9C8FFF0, 0xC9500467, 0x34431BDF,
      0xB652432B, 0xE367F12B, 0x427F4C1B, 0x224C006E,
      0x2E7E5A89, 0x96F99AA5, 0x0BEB452A, 0x2FD87C39,
      0x74B2E1FB, 0x222EFD24, 0xF357F60C, 0x440FCB1E,
      0x8BBE030F, 0x6704DC29, 0x1144D12F, 0x948B1355,
      0x6D8FD7E9, 0x1C11A014, 0xADD1592F, 0xFB3C712E,
      0xFC77642F, 0xF9C4CE8C, 0x31312FB9, 0x08B0DD79,
      0x318FA6E7, 0xC040D23D, 0xC0589AA7, 0x0CA5C075,
      0xF874B172, 0x0CF914D5, 0x784D3280, 0x4E8CFEBC,
      0xC569F575, 0xCDB2A091, 0x2CC016B4, 0x5C5F4421 ]"

text \<open>
  The loop that mixes the random seed into the salts, in place: when \<open>i + 3\<close> wraps around it
  reads salts that are mixed already.
\<close>

fun mix_salts :: "u64 \<Rightarrow> nat list \<Rightarrow> u32 list \<Rightarrow> u32 list" where
  "mix_salts seed [] s = s"
| "mix_salts seed (i # is) s =
     mix_salts seed is (s[i := s ! i * s ! ((i + 3) mod length s) + ucast seed])"

text \<open>
  \<open>while (salt_.size() < salt_count_)\<close>: salts drawn from \<open>rand()\<close>, two calls a time; the function
  \<open>rand\<close> gives the value of the \<open>n\<close>-th call after \<open>srand\<close>.
\<close>

partial_function (option) draw_salts :: "(nat \<Rightarrow> u32) \<Rightarrow> nat \<Rightarrow> nat \<Rightarrow> u32 list \<Rightarrow> u32 list option" where
  "draw_salts rand n i s =
     (if length s < n
      then (let current_salt = rand i * rand (Suc i) in
            if current_salt = 0 then draw_salts rand n (i + 2) s
            else if current_salt \<notin> set s then draw_salts rand n (i + 2) (s @ [current_salt])
            else draw_salts rand n (i + 2) s)
      else Some s)"

definition generate_unique_salt :: "(u32 \<Rightarrow> nat \<Rightarrow> u32) \<Rightarrow> u32 \<Rightarrow> u64 \<Rightarrow> u32 list res" where
  "generate_unique_salt srand n seed =
     (if unat n \<le> length predef_salt
      then (let s = take (unat n) predef_salt in Inr (mix_salts seed [0..<length s] s))
      else returning (draw_salts (srand (ucast seed)) (unat n) 0 predef_salt))"

text \<open>The constructor from parameters; \<open>srand seed\<close> is the sequence that \<open>rand()\<close> then yields.\<close>

definition new_bloom_filter ::
  "(u32 \<Rightarrow> nat \<Rightarrow> u32) \<Rightarrow> 'd bloom_parameters \<Rightarrow> 'd bloom_filter res" where
  "new_bloom_filter srand p =
     (let seed = param_random_seed p * 0xA5A5A5A5 + 1;
          n = number_of_hashes (optimal_parameters p);
          t = opt_table_size (optimal_parameters p)
      in rbind (generate_unique_salt srand n seed) (\<lambda>s.
         Inr \<lparr> salts = s, bit_table = replicate (unat t div bits_per_char) 0,
               salt_count = n, table_size = t,
               projected_element_count = param_element_count p, inserted_element_count = 0,
               random_seed = seed,
               desired_false_positive_probability = false_positive_probability p \<rparr>))"

section \<open>Hashing\<close>

text \<open>
  \<open>hash_ap\<close>: the 8-byte blocks, then the remaining 4, 2 and 1 bytes; \<open>loop\<close> counts the tail
  parts that were taken. Unaligned words are read in little-endian order.
\<close>

definition mix_block :: "u32 \<Rightarrow> u32 \<Rightarrow> u32 \<Rightarrow> u32" where
  "mix_block hash i1 i2 =
     hash XOR (push_bit 7 hash XOR i1 * drop_bit 3 hash XOR
       NOT (push_bit 11 hash + (i2 XOR drop_bit 5 hash)))"

fun hash_blocks :: "byte list \<Rightarrow> u32 \<Rightarrow> byte list \<times> u32" where
  "hash_blocks itr hash =
     (if 8 \<le> length itr
      then hash_blocks (drop 8 itr) (mix_block hash (le32 itr) (le32 (drop 4 itr)))
      else (itr, hash))"

declare hash_blocks.simps [simp del]

definition mix_tail :: "u32 \<Rightarrow> u32 \<Rightarrow> u32 \<Rightarrow> u32" where
  "mix_tail loop hash i =
     (if loop AND 0x01 \<noteq> 0
      then hash XOR (push_bit 7 hash XOR i * drop_bit 3 hash)
      else hash XOR (NOT (push_bit 11 hash + (i XOR drop_bit 5 hash))))"

definition tail4 :: "byte list \<times> u32 \<times> u32 \<Rightarrow> byte list \<times> u32 \<times> u32" where
  "tail4 = (\<lambda>(itr, hash, loop).
     if 4 \<le> length itr then (drop 4 itr, mix_tail loop hash (le32 itr), loop + 1)
     else (itr, hash, loop))"

definition tail2 :: "byte list \<times> u32 \<times> u32 \<Rightarrow> byte list \<times> u32 \<times> u32" where
  "tail2 = (\<lambda>(itr, hash, loop).
     if 2 \<le> length itr then (drop 2 itr, mix_tail loop hash (ucast (le16 itr)), loop + 1)
     else (itr, hash, loop))"

definition tail1 :: "byte list \<times> u32 \<times> u32 \<Rightarrow> u32" where
  "tail1 = (\<lambda>(itr, hash, loop).
     case itr of [] \<Rightarrow> hash
     | b # _ \<Rightarrow> hash + ((ucast b XOR (hash * 0xA5A5A5A5)) + loop))"

definition hash_ap :: "byte list \<Rightarrow> u32 \<Rightarrow> u32" where
  "hash_ap begin hash =
     (let (itr, h) = hash_blocks begin hash in
      if itr = [] then h else tail1 (tail2 (tail4 (itr, h, 0))))"

section \<open>Insertion and membership\<close>

definition compute_indices :: "('d, 'a) bloom_filter_scheme \<Rightarrow> u32 \<Rightarrow> (nat \<times> nat) res" where
  "compute_indices f hash =
     (if table_size f = 0 then Inl Div_by_zero
      else let bit_index = unat hash mod unat (table_size f)
           in Inr (bit_index, bit_index mod bits_per_char))"

fun insert_loop :: "(u32 \<Rightarrow> (nat \<times> nat) res) \<Rightarrow> byte list \<Rightarrow> u32 list \<Rightarrow> byte list \<Rightarrow> byte list res" where
  "insert_loop ci key [] tbl = Inr tbl"
| "insert_loop ci key (s # ss) tbl =
     rbind (ci (hash_ap key s)) (\<lambda>(bit_index, bit).
     rbind (elem_at bit_mask bit) (\<lambda>m.
     rbind (elem_at tbl (bit_index div bits_per_char)) (\<lambda>c.
     rbind (put tbl (bit_index div bits_per_char) (c OR m)) (insert_loop ci key ss))))"

definition bf_insert ::
  "(('d, 'a) bloom_filter_scheme \<Rightarrow> u32 \<Rightarrow> (nat \<times> nat) res) \<Rightarrow>
   ('d, 'a) bloom_filter_scheme \<Rightarrow> byte list \<Rightarrow> ('d, 'a) bloom_filter_scheme res" where
  "bf_insert ci f key =
     rbind (insert_loop (ci f) key (salts f) (bit_table f)) (\<lambda>tbl.
     Inr (f\<lparr>bit_table := tbl, inserted_element_count := inserted_element_count f + 1\<rparr>))"

fun contains_loop :: "(u32 \<Rightarrow> (nat \<times> nat) res) \<Rightarrow> byte list \<Rightarrow> u32 list \<Rightarrow> byte list \<Rightarrow> bool res" where
  "contains_loop ci key [] tbl = Inr True"
| "contains_loop ci key (s # ss) tbl =
     rbind (ci (hash_ap key s)) (\<lambda>(bit_index, bit).
     rbind (elem_at bit_mask bit) (\<lambda>m.
     rbind (elem_at tbl (bit_index div bits_per_char)) (\<lambda>c.
     if c AND m \<noteq> m then Inr False else contains_loop ci key ss tbl)))"

definition bf_contains ::
  "(('d, 'a) bloom_filter_scheme \<Rightarrow> u32 \<Rightarrow> (nat \<times> nat) res) \<Rightarrow>
   ('d, 'a) bloom_filter_scheme \<Rightarrow> byte list \<Rightarrow> bool res" where
  "bf_contains ci f key = contains_loop (ci f) key (salts f) (bit_table f)"

text \<open>The overloads on \<open>std::string\<close>.\<close>

definition insert_string where
  "insert_string ci f key = bf_insert ci f (bytes_of key)"

definition contains_string where
  "contains_string ci f key = bf_contains ci f (bytes_of key)"

text \<open>
  The overloads on a block of memory with a length, and on an object, whose representation in bytes is an
  argument.
\<close>

definition insert_data where
  "insert_data ci f mem n = (if n \<le> length mem then bf_insert ci f (take n mem) else Inl Out_of_bounds)"

definition contains_data where
  "contains_data ci f mem n = (if n \<le> length mem then bf_contains ci f (take n mem) else Inl Out_of_bounds)"

definition insert_object where
  "insert_object rep ci f t = insert_data ci f (rep t) (length (rep t))"

definition contains_object where
  "contains_object rep ci f t = contains_data ci f (rep t) (length (rep t))"

text \<open>The overloads on a range of elements.\<close>

fun insert_range where
  "insert_range ci f [] = Inr f"
| "insert_range ci f (k # ks) = rbind (bf_insert ci f k) (\<lambda>f'. insert_range ci f' ks)"

text \<open>\<open>contains_all\<close> and \<open>contains_none\<close> return the position at which they stop.\<close>

fun contains_all :: "(('d, 'a) bloom_filter_scheme \<Rightarrow> u32 \<Rightarrow> (nat \<times> nat) res) \<Rightarrow>
    ('d, 'a) bloom_filter_scheme \<Rightarrow> byte list list \<Rightarrow> nat res" where
  "contains_all ci f [] = Inr 0"
| "contains_all ci f (k # ks) = rbind (bf_contains ci f k) (\<lambda>b.
     if \<not> b then Inr 0 else rbind (contains_all ci f ks) (\<lambda>n. Inr (Suc n)))"

fun contains_none :: "(('d, 'a) bloom_filter_scheme \<Rightarrow> u32 \<Rightarrow> (nat \<times> nat) res) \<Rightarrow>
    ('d, 'a) bloom_filter_scheme \<Rightarrow> byte list list \<Rightarrow> nat res" where
  "contains_none ci f [] = Inr 0"
| "contains_none ci f (k # ks) = rbind (bf_contains ci f k) (\<lambda>b.
     if b then Inr 0 else rbind (contains_none ci f ks) (\<lambda>n. Inr (Suc n)))"

definition bf_clear :: "('d, 'a) bloom_filter_scheme \<Rightarrow> ('d, 'a) bloom_filter_scheme" where
  "bf_clear f = f\<lparr>bit_table := replicate (length (bit_table f)) 0, inserted_element_count := 0\<rparr>"

section \<open>Size, counters, comparison\<close>

definition bf_size :: "('d, 'a) bloom_filter_scheme \<Rightarrow> u64" where
  "bf_size f = table_size f"

definition bf_is_null :: "('d, 'a) bloom_filter_scheme \<Rightarrow> bool" where
  "bf_is_null f \<longleftrightarrow> 0 = table_size f"

definition element_count :: "('d, 'a) bloom_filter_scheme \<Rightarrow> u64" where
  "element_count f = inserted_element_count f"

definition hash_count :: "('d, 'a) bloom_filter_scheme \<Rightarrow> nat" where
  "hash_count f = length (salts f)"

text \<open>\<open>effective_fpp\<close>; the virtual \<open>size()\<close> is passed in.\<close>

definition effective_fpp :: "'d fpu \<Rightarrow> u64 \<Rightarrow> ('d, 'a) bloom_filter_scheme \<Rightarrow> 'd" where
  "effective_fpp F tsize f =
     (let n = fp_of_u64 F (word_of_nat (length (salts f))) in
      fp_pow F
        (fp_sub F (fp_lit F 1 0)
          (fp_exp F (fp_div F
            (fp_mul F (fp_mul F (fp_neg F (fp_lit F 1 0)) n) (fp_of_u64 F (inserted_element_count f)))
            (fp_of_u64 F tsize))))
        (fp_mul F (fp_lit F 1 0) n))"

text \<open>\<open>operator==\<close> of two different objects.\<close>

definition bf_equal :: "'d fpu \<Rightarrow> 'd bloom_filter \<Rightarrow> 'd bloom_filter \<Rightarrow> bool" where
  "bf_equal F f g \<longleftrightarrow>
     salt_count f = salt_count g \<and>
     table_size f = table_size g \<and>
     length (bit_table f) = length (bit_table g) \<and>
     projected_element_count f = projected_element_count g \<and>
     inserted_element_count f = inserted_element_count g \<and>
     random_seed f = random_seed g \<and>
     fp_eq F (desired_false_positive_probability f) (desired_false_positive_probability g) \<and>
     salts f = salts g \<and>
     bit_table f = bit_table g"

definition bf_not_equal :: "'d fpu \<Rightarrow> 'd bloom_filter \<Rightarrow> 'd bloom_filter \<Rightarrow> bool" where
  "bf_not_equal F f g \<longleftrightarrow> \<not> bf_equal F f g"

text \<open>The bytes behind the pointer that \<open>table\<close> returns.\<close>

definition bf_table :: "'d bloom_filter \<Rightarrow> byte list" where
  "bf_table f = bit_table f"

section \<open>Intersection, union and difference\<close>

text \<open>
  The loops of \<open>operator&=\<close>, \<open>operator|=\<close> and \<open>operator^=\<close> over \<open>bit_table_\<close>; the index runs over
  the bytes of the left filter, so the right one must not be shorter.
\<close>

fun combine_tables :: "(byte \<Rightarrow> byte \<Rightarrow> byte) \<Rightarrow> byte list \<Rightarrow> byte list \<Rightarrow> byte list res" where
  "combine_tables op [] ys = Inr []"
| "combine_tables op (x # xs) [] = Inl Out_of_bounds"
| "combine_tables op (x # xs) (y # ys) =
     rbind (combine_tables op xs ys) (\<lambda>zs. Inr (op x y # zs))"

definition same_shape :: "('d, 'a) bloom_filter_scheme \<Rightarrow> ('d, 'b) bloom_filter_scheme \<Rightarrow> bool" where
  "same_shape f g \<longleftrightarrow>
     salt_count f = salt_count g \<and> table_size f = table_size g \<and> random_seed f = random_seed g"

definition combine_assign ::
  "(byte \<Rightarrow> byte \<Rightarrow> byte) \<Rightarrow> ('d, 'a) bloom_filter_scheme \<Rightarrow> ('d, 'b) bloom_filter_scheme \<Rightarrow>
   ('d, 'a) bloom_filter_scheme res" where
  "combine_assign op f g =
     (if same_shape f g
      then rbind (combine_tables op (bit_table f) (bit_table g)) (\<lambda>t. Inr (f\<lparr>bit_table := t\<rparr>))
      else Inr f)"

definition bf_and_assign where
  "bf_and_assign = combine_assign (\<lambda>x y. x AND y)"

definition bf_or_assign where
  "bf_or_assign = combine_assign (\<lambda>x y. x OR y)"

definition bf_xor_assign where
  "bf_xor_assign = combine_assign (\<lambda>x y. x XOR y)"

text \<open>\<open>operator=\<close> between different objects, and the operators that work on a copy of the left one.\<close>

definition bf_assign :: "'d bloom_filter \<Rightarrow> 'd bloom_filter \<Rightarrow> 'd bloom_filter" where
  "bf_assign self f = self
     \<lparr> salt_count := salt_count f, table_size := table_size f, bit_table := bit_table f, salts := salts f,
       projected_element_count := projected_element_count f,
       inserted_element_count := inserted_element_count f, random_seed := random_seed f,
       desired_false_positive_probability := desired_false_positive_probability f \<rparr>"

definition bf_and :: "'d fpu \<Rightarrow> 'd bloom_filter \<Rightarrow> 'd bloom_filter \<Rightarrow> 'd bloom_filter res" where
  "bf_and F a b = bf_and_assign (bf_assign (empty_bloom_filter F) a) b"

definition bf_or :: "'d fpu \<Rightarrow> 'd bloom_filter \<Rightarrow> 'd bloom_filter \<Rightarrow> 'd bloom_filter res" where
  "bf_or F a b = bf_or_assign (bf_assign (empty_bloom_filter F) a) b"

definition bf_xor :: "'d fpu \<Rightarrow> 'd bloom_filter \<Rightarrow> 'd bloom_filter \<Rightarrow> 'd bloom_filter res" where
  "bf_xor F a b = bf_xor_assign (bf_assign (empty_bloom_filter F) a) b"

lemma bf_assign_copy [simp]: "bf_assign self f = f"
  by (simp add: bf_assign_def)

text \<open>The copy constructor assigns to the members of a new object, whatever they held.\<close>

definition bf_copy :: "'d bloom_filter \<Rightarrow> 'd bloom_filter \<Rightarrow> 'd bloom_filter" where
  "bf_copy raw f = bf_assign raw f"

lemma bf_copy_equal:
  assumes "fp_eq F (desired_false_positive_probability f) (desired_false_positive_probability f)"
  shows "\<not> bf_not_equal F (bf_copy raw f) f" and "bf_table (bf_copy raw f) = bf_table f"
  using assms by (simp_all add: bf_not_equal_def bf_copy_def bf_equal_def)

text \<open>All overloads agree with those on strings.\<close>

lemma overloads_agree:
  "insert_data ci f (bytes_of k @ rest) (length k) = insert_string ci f k"
  "contains_data ci f (bytes_of k @ rest) (length k) = contains_string ci f k"
  "insert_object bytes_of ci f k = insert_string ci f k"
  "contains_object bytes_of ci f k = contains_string ci f k"
  by (simp_all add: insert_data_def contains_data_def insert_string_def contains_string_def insert_object_def
      contains_object_def)

section \<open>Bit positions\<close>

text \<open>The abstraction of a table: the set of the positions of its bits that are set.\<close>

definition bits :: "byte list \<Rightarrow> nat set" where
  "bits tbl = {i. i div 8 < length tbl \<and> bit (tbl ! (i div 8)) (i mod 8)}"

lemma bit_mask_nth: "b < 8 \<Longrightarrow> bit_mask ! b = 2 ^ b"
proof -
  assume "b < 8"
  then have "b \<in> {0, 1, 2, 3, 4, 5, 6, 7}" by auto
  then show ?thesis by (auto simp: bit_mask_def)
qed

lemma length_bit_mask [simp]: "length bit_mask = 8"
  by (simp add: bit_mask_def)

lemma bit_two_power: "b < 8 \<Longrightarrow> bit (2 ^ b :: byte) n \<longleftrightarrow> n = b"
  by (auto simp: bit_exp_iff)

lemma mask_test:
  assumes "b < 8"
  shows "(c :: byte) AND bit_mask ! b = bit_mask ! b \<longleftrightarrow> bit c b"
proof -
  have "c AND 2 ^ b = 2 ^ b \<longleftrightarrow> (\<forall>n. bit (c AND 2 ^ b) n \<longleftrightarrow> bit (2 ^ b :: byte) n)"
    by (auto intro: bit_word_eqI)
  also have "\<dots> \<longleftrightarrow> bit c b"
    by (auto simp: bit_and_iff bit_two_power [OF assms])
  finally show ?thesis
    by (simp add: bit_mask_nth [OF assms])
qed

lemma mask_set: "b < 8 \<Longrightarrow> bit ((c :: byte) OR bit_mask ! b) n \<longleftrightarrow> bit c n \<or> n = b"
  by (auto simp: bit_mask_nth bit_or_iff bit_two_power)

lemma bits_set_bit:
  assumes "i div 8 < length tbl"
  shows "bits (tbl[i div 8 := tbl ! (i div 8) OR bit_mask ! (i mod 8)]) = insert i (bits tbl)"
proof (rule set_eqI)
  fix j
  show "j \<in> bits (tbl[i div 8 := tbl ! (i div 8) OR bit_mask ! (i mod 8)]) \<longleftrightarrow> j \<in> insert i (bits tbl)"
  proof (cases "j div 8 = i div 8")
    case True
    then have "j = i \<longleftrightarrow> j mod 8 = i mod 8"
      by (metis mult_div_mod_eq)
    with assms True show ?thesis
      by (auto simp: bits_def mask_set)
  next
    case False
    then have "j \<noteq> i" by auto
    with False show ?thesis by (auto simp: bits_def)
  qed
qed

lemma bits_zero [simp]: "bits (replicate n 0) = {}"
  by (auto simp: bits_def)

lemma combine_tables_ok:
  "length xs \<le> length ys \<Longrightarrow> combine_tables op xs ys = Inr (map2 op xs ys)"
  by (induction op xs ys rule: combine_tables.induct) auto

lemma combine_tables_short:
  "length ys < length xs \<Longrightarrow> combine_tables op xs ys = Inl Out_of_bounds"
  by (induction op xs ys rule: combine_tables.induct) auto

lemma bits_and: "length xs = length ys \<Longrightarrow> bits (map2 (\<lambda>x y. x AND y) xs ys) = bits xs \<inter> bits ys"
  by (auto simp: bits_def bit_and_iff)

lemma bits_or: "length xs = length ys \<Longrightarrow> bits (map2 (\<lambda>x y. x OR y) xs ys) = bits xs \<union> bits ys"
  by (auto simp: bits_def bit_or_iff)

lemma bits_xor: "length xs = length ys \<Longrightarrow>
    bits (map2 (\<lambda>x y. x XOR y) xs ys) = (bits xs - bits ys) \<union> (bits ys - bits xs)"
  by (auto simp: bits_def bit_xor_iff)

section \<open>The interface of a bloom filter class\<close>

text \<open>
  What a class must promise of its \<open>compute_indices\<close> on its well-formed objects: every hash is
  mapped to a position inside the bit table (with the bit number of that position), and the
  position does not depend on the contents of the table.
\<close>

locale bit_indexing =
  fixes ci :: "('d, 'a) bloom_filter_scheme \<Rightarrow> u32 \<Rightarrow> (nat \<times> nat) res"
    and wf :: "('d, 'a) bloom_filter_scheme \<Rightarrow> bool"
  assumes ci_in_range:
    "wf f \<Longrightarrow> \<exists>i. ci f h = Inr (i, i mod bits_per_char) \<and> i div bits_per_char < length (bit_table f)"
    and ci_frame: "ci (f\<lparr>bit_table := t, inserted_element_count := n\<rparr>) = ci f"
    and wf_frame: "wf f \<Longrightarrow> length t = length (bit_table f) \<Longrightarrow>
      wf (f\<lparr>bit_table := t, inserted_element_count := n\<rparr>)"
begin

definition pos :: "('d, 'a) bloom_filter_scheme \<Rightarrow> u32 \<Rightarrow> nat" where
  "pos f h = (case ci f h of Inr (i, _) \<Rightarrow> i | Inl _ \<Rightarrow> 0)"

definition positions :: "('d, 'a) bloom_filter_scheme \<Rightarrow> byte list \<Rightarrow> nat set" where
  "positions f key = (\<lambda>s. pos f (hash_ap key s)) ` set (salts f)"

lemma ci_pos: "wf f \<Longrightarrow> ci f h = Inr (pos f h, pos f h mod 8)"
  using ci_in_range [of f h] by (auto simp: pos_def bits_per_char_def)

lemma pos_bound: "wf f \<Longrightarrow> pos f h div 8 < length (bit_table f)"
  using ci_in_range [of f h] by (auto simp: pos_def bits_per_char_def)

lemma positions_frame [simp]:
  "positions (f\<lparr>bit_table := t, inserted_element_count := n\<rparr>) key = positions f key"
  by (simp add: positions_def pos_def ci_frame)

lemma insert_loop_bits:
  assumes "wf f" and "length tbl = length (bit_table f)"
  shows "\<exists>tbl'. insert_loop (ci f) key ss tbl = Inr tbl' \<and> length tbl' = length tbl \<and>
    bits tbl' = bits tbl \<union> (\<lambda>s. pos f (hash_ap key s)) ` set ss"
  using assms(2)
proof (induction ss arbitrary: tbl)
  case Nil
  then show ?case by simp
next
  case (Cons s ss)
  let ?i = "pos f (hash_ap key s)"
  let ?t = "tbl[?i div 8 := tbl ! (?i div 8) OR bit_mask ! (?i mod 8)]"
  have i: "?i div 8 < length tbl"
    using pos_bound [OF assms(1)] Cons.prems by simp
  obtain tbl' where "insert_loop (ci f) key ss ?t = Inr tbl'" "length tbl' = length tbl"
      "bits tbl' = bits ?t \<union> (\<lambda>s. pos f (hash_ap key s)) ` set ss"
    using Cons.IH [of ?t] Cons.prems by auto
  then show ?case
    using i by (simp add: ci_pos [OF assms(1), of "hash_ap key s"] elem_at_def put_def bits_per_char_def bits_set_bit)
qed

lemma contains_loop_bits:
  assumes "wf f"
  shows "contains_loop (ci f) key ss (bit_table f) =
    Inr ((\<lambda>s. pos f (hash_ap key s)) ` set ss \<subseteq> bits (bit_table f))"
proof (induction ss)
  case Nil
  then show ?case by simp
next
  case (Cons s ss)
  have "pos f (hash_ap key s) div 8 < length (bit_table f)"
    by (rule pos_bound [OF assms])
  then show ?case
    using Cons.IH
    by (simp add: ci_pos [OF assms, of "hash_ap key s"] elem_at_def bits_per_char_def mask_test) (simp add: bits_def)
qed

text \<open>Insertion adds the positions of the key; membership asks whether all of them are set.\<close>

lemma insert_refines:
  assumes "wf f"
  shows "\<exists>f'. bf_insert ci f key = Inr f' \<and> wf f' \<and> salts f' = salts f \<and>
    positions f' = positions f \<and> bits (bit_table f') = bits (bit_table f) \<union> positions f key"
proof -
  obtain t where t: "insert_loop (ci f) key (salts f) (bit_table f) = Inr t"
      "length t = length (bit_table f)" "bits t = bits (bit_table f) \<union> positions f key"
    using insert_loop_bits [OF assms refl] unfolding positions_def by blast
  then show ?thesis
    by (auto simp: bf_insert_def fun_eq_iff intro: wf_frame [OF assms])
qed

lemma contains_refines: "wf f \<Longrightarrow> bf_contains ci f key = Inr (positions f key \<subseteq> bits (bit_table f))"
  by (simp add: bf_contains_def contains_loop_bits positions_def)

lemma clear_refines:
  "wf f \<Longrightarrow> wf (bf_clear f) \<and> positions (bf_clear f) = positions f \<and> bits (bit_table (bf_clear f)) = {}"
  by (auto simp: bf_clear_def fun_eq_iff intro: wf_frame)

lemma insert_range_refines:
  assumes "wf f"
  shows "\<exists>f'. insert_range ci f ks = Inr f' \<and> wf f' \<and> positions f' = positions f \<and>
    bits (bit_table f') = bits (bit_table f) \<union> (\<Union>k \<in> set ks. positions f k)"
  using assms
proof (induction ks arbitrary: f)
  case Nil
  then show ?case by simp
next
  case (Cons k ks)
  obtain f1 where f1: "bf_insert ci f k = Inr f1" "wf f1" "positions f1 = positions f"
      "bits (bit_table f1) = bits (bit_table f) \<union> positions f k"
    using insert_refines [OF Cons.prems] by blast
  from Cons.IH [OF f1(2)] show ?case
    by (simp add: f1 Un_assoc)
qed

end

section \<open>The interface of a membership filter\<close>

text \<open>
  What a client such as the dictionary relies on: insertion and membership never fail on a
  well-formed filter, an inserted key is a member, and members stay members.
\<close>

locale membership_filter =
  fixes wf :: "'f \<Rightarrow> bool"
    and ins :: "'f \<Rightarrow> 'k \<Rightarrow> 'f res"
    and mem :: "'f \<Rightarrow> 'k \<Rightarrow> bool res"
  assumes ins_ok: "wf f \<Longrightarrow> \<exists>f'. ins f k = Inr f' \<and> wf f'"
    and mem_ok: "wf f \<Longrightarrow> \<exists>b. mem f k = Inr b"
    and mem_ins: "wf f \<Longrightarrow> ins f k = Inr f' \<Longrightarrow> mem f' k = Inr True"
    and mem_mono: "wf f \<Longrightarrow> ins f k = Inr f' \<Longrightarrow> mem f k' = Inr True \<Longrightarrow> mem f' k' = Inr True"
begin

definition covers :: "'f \<Rightarrow> 'k set \<Rightarrow> bool" where
  "covers f K \<longleftrightarrow> wf f \<and> (\<forall>k \<in> K. mem f k = Inr True)"

lemma covers_empty: "wf f \<Longrightarrow> covers f {}"
  by (simp add: covers_def)

lemma covers_ins:
  assumes "covers f K"
  shows "\<exists>f'. ins f k = Inr f' \<and> covers f' (insert k K)"
proof -
  from assms have "wf f" by (simp add: covers_def)
  then obtain f' where f': "ins f k = Inr f'" "wf f'"
    using ins_ok by blast
  with assms \<open>wf f\<close> have "covers f' (insert k K)"
    by (auto simp: covers_def intro: mem_ins mem_mono)
  with f' show ?thesis by blast
qed

lemma covers_not_mem: "covers f K \<Longrightarrow> mem f k = Inr False \<Longrightarrow> k \<notin> K"
  by (auto simp: covers_def)

end

text \<open>Every class that indexes its bits within the table is a membership filter.\<close>

sublocale bit_indexing \<subseteq> membership_filter wf "bf_insert ci" "bf_contains ci"
proof unfold_locales
  fix f k
  assume "wf f"
  then show "\<exists>f'. bf_insert ci f k = Inr f' \<and> wf f'"
    using insert_refines by blast
next
  fix f k
  assume "wf f"
  then show "\<exists>b. bf_contains ci f k = Inr b"
    using contains_refines by blast
next
  fix f f' k
  assume "wf f" and "bf_insert ci f k = Inr f'"
  then show "bf_contains ci f' k = Inr True"
    using insert_refines [of f k] by (auto simp: contains_refines)
next
  fix f f' k k'
  assume "wf f" and "bf_insert ci f k = Inr f'" and "bf_contains ci f k' = Inr True"
  then show "bf_contains ci f' k' = Inr True"
    using insert_refines [of f k] by (auto simp: contains_refines)
qed

section \<open>The base class\<close>

definition bf_wf :: "'d bloom_filter \<Rightarrow> bool" where
  "bf_wf f \<longleftrightarrow> table_size f \<noteq> 0 \<and> unat (table_size f) mod 8 = 0 \<and>
     length (bit_table f) = unat (table_size f) div 8"

interpretation bf: bit_indexing "compute_indices :: 'd bloom_filter \<Rightarrow> _" bf_wf
proof unfold_locales
  fix f :: "'d bloom_filter" and h :: u32
  assume wf: "bf_wf f"
  let ?t = "unat (table_size f)"
  have "?t \<noteq> 0"
    using wf by (simp add: bf_wf_def unat_eq_0)
  then have "unat h mod ?t < ?t" by simp
  moreover have "?t = 8 * length (bit_table f)"
    using wf mult_div_mod_eq [of 8 ?t] by (simp add: bf_wf_def)
  ultimately have "(unat h mod ?t) div 8 < length (bit_table f)"
    by (metis less_mult_imp_div_less mult.commute)
  with wf show "\<exists>i. compute_indices f h = Inr (i, i mod bits_per_char) \<and>
      i div bits_per_char < length (bit_table f)"
    by (auto simp: compute_indices_def bf_wf_def bits_per_char_def Let_def)
qed (auto simp: compute_indices_def bf_wf_def fun_eq_iff)

lemma bf_positions:
  assumes "bf_wf f"
  shows "bf.positions f key = (\<lambda>s. unat (hash_ap key s) mod unat (table_size f)) ` set (salts f)"
proof -
  have "bf.pos f h = unat h mod unat (table_size f)" for h
    using assms by (simp add: bf.pos_def compute_indices_def bf_wf_def Let_def)
  then show ?thesis by (simp add: bf.positions_def)
qed

section \<open>Salts and construction\<close>

lemma length_mix_salts [simp]: "length (mix_salts seed is s) = length s"
  by (induction seed "is" s rule: mix_salts.induct) simp_all

lemma length_predef_salt [simp]: "length predef_salt = 128"
  by (simp add: predef_salt_def)

lemma predef_salt_uint: "distinct (map uint predef_salt)" "0 \<notin> set (map uint predef_salt)"
  by (simp_all add: predef_salt_def)

lemma distinct_predef_salt: "distinct predef_salt" "0 \<notin> set predef_salt"
proof -
  show "distinct predef_salt" using predef_salt_uint(1) by (simp add: distinct_map)
  show "0 \<notin> set predef_salt" using predef_salt_uint(2) by (force simp: image_iff)
qed

definition drawn_ok :: "nat \<Rightarrow> u32 list \<Rightarrow> u32 list \<Rightarrow> bool" where
  "drawn_ok n s r \<longleftrightarrow> length r = max n (length s) \<and> take (length s) r = s \<and>
     (distinct s \<longrightarrow> 0 \<notin> set s \<longrightarrow> distinct r \<and> 0 \<notin> set r)"

lemma drawn_ok_snoc:
  assumes "drawn_ok n (s @ [x]) r" and "length s < n" and "x \<noteq> 0" and "x \<notin> set s"
  shows "drawn_ok n s r"
proof -
  have "take (length s) (take (length (s @ [x])) r) = s"
    using assms(1) by (simp only: drawn_ok_def) simp
  then have "take (length s) r = s" by (simp add: min_def)
  with assms show ?thesis by (auto simp: drawn_ok_def)
qed

lemma draw_salts_ok:
  assumes ret: "draw_salts rand n i s = Some r"
  shows "drawn_ok n s r"
proof (rule draw_salts.raw_induct [where P = "\<lambda>rand n i s r. drawn_ok n s r", OF _ ret])
  fix f :: "(nat \<Rightarrow> u32) \<Rightarrow> nat \<Rightarrow> nat \<Rightarrow> u32 list \<Rightarrow> u32 list option" and rand n i s r
  assume IH: "\<And>rand n i s r. f rand n i s = Some r \<Longrightarrow> drawn_ok n s r"
    and eq: "(if length s < n
       then (let current_salt = rand i * rand (Suc i) in
             if current_salt = 0 then f rand n (i + 2) s
             else if current_salt \<notin> set s then f rand n (i + 2) (s @ [current_salt])
             else f rand n (i + 2) s)
       else Some s) = Some r"
  show "drawn_ok n s r"
  proof (cases "length s < n")
    case False
    with eq show ?thesis by (auto simp: drawn_ok_def)
  next
    case True
    let ?x = "rand i * rand (Suc i)"
    show ?thesis
    proof (cases "?x = 0 \<or> ?x \<in> set s")
      case True
      with \<open>length s < n\<close> eq have "f rand n (i + 2) s = Some r"
        by (simp add: Let_def split: if_splits)
      then show ?thesis by (rule IH)
    next
      case False
      with \<open>length s < n\<close> eq have "f rand n (i + 2) (s @ [?x]) = Some r" by (simp add: Let_def)
      from drawn_ok_snoc [OF IH [OF this] \<open>length s < n\<close>] False show ?thesis by simp
    qed
  qed
qed

lemma generate_unique_salt_ok:
  assumes "generate_unique_salt srand n seed = Inr s"
  shows "length s = unat n \<and> (128 < unat n \<longrightarrow> distinct s \<and> 0 \<notin> set s \<and> take 128 s = predef_salt)"
proof (cases "unat n \<le> 128")
  case True
  with assms show ?thesis by (auto simp: generate_unique_salt_def Let_def)
next
  case False
  with assms have "draw_salts (srand (ucast seed)) (unat n) 0 predef_salt = Some s"
    by (auto simp: generate_unique_salt_def returning_def split: option.splits)
  from draw_salts_ok [OF this] False show ?thesis
    by (auto simp: drawn_ok_def distinct_predef_salt)
qed

lemma generate_unique_salt_small:
  "unat n \<le> 128 \<Longrightarrow> \<exists>s. generate_unique_salt srand n seed = Inr s"
  by (simp add: generate_unique_salt_def Let_def)

text \<open>
  The loop ends when the generator keeps yielding values that are new: \<open>varied\<close> asks for a pair of calls
  whose product is not zero and not among fewer than \<open>n\<close> given values, from any call on.
\<close>

definition varied :: "(nat \<Rightarrow> u32) \<Rightarrow> nat \<Rightarrow> bool" where
  "varied rand n \<longleftrightarrow> (\<forall>m S. finite S \<longrightarrow> card S < n \<longrightarrow>
     (\<exists>j \<ge> m. rand (2 * j) * rand (Suc (2 * j)) \<notin> insert 0 S))"

lemma draw_salts_skip:
  assumes "length s < n" and "\<And>k. m \<le> k \<Longrightarrow> k < j \<Longrightarrow> rand (2 * k) * rand (Suc (2 * k)) \<in> insert 0 (set s)"
    and "m \<le> j"
  shows "draw_salts rand n (2 * m) s = draw_salts rand n (2 * j) s"
  using assms(3,2)
proof (induction rule: dec_induct)
  case base
  show ?case by simp
next
  case (step k)
  have "draw_salts rand n (2 * k) s = draw_salts rand n (2 * Suc k) s"
    using step.prems [of k] step.hyps assms(1) by (subst draw_salts.simps) (auto simp: Let_def)
  with step.IH step.prems show ?case by simp
qed

lemma draw_salts_returns:
  assumes "varied rand n"
  shows "\<exists>r. draw_salts rand n (2 * m) s = Some r"
proof (induction "n - length s" arbitrary: m s)
  case 0
  then show ?case by (subst draw_salts.simps) simp
next
  case (Suc d)
  then have len: "length s < n" by simp
  let ?new = "\<lambda>j. m \<le> j \<and> rand (2 * j) * rand (Suc (2 * j)) \<notin> insert 0 (set s)"
  have "card (set s) < n" using card_length [of s] len by simp
  with assms have "\<exists>j. ?new j" by (simp add: varied_def)
  then obtain j where j: "?new j" "\<And>k. k < j \<Longrightarrow> \<not> ?new k"
    using LeastI_ex [of ?new] not_less_Least [of _ ?new] by blast
  let ?x = "rand (2 * j) * rand (Suc (2 * j))"
  have "draw_salts rand n (2 * m) s = draw_salts rand n (2 * j) s"
    using j by (intro draw_salts_skip [OF len]) auto
  also have "\<dots> = draw_salts rand n (2 * Suc j) (s @ [?x])"
    using j(1) len by (subst draw_salts.simps) (simp add: Let_def)
  finally show ?case using Suc.hyps(1) [of "s @ [?x]" "Suc j"] Suc.hyps(2) by simp
qed

lemma generate_unique_salt_varied:
  assumes "varied (srand (ucast seed)) (unat n)"
  shows "\<exists>s. generate_unique_salt srand n seed = Inr s"
  using draw_salts_returns [OF assms, of 0 predef_salt]
  by (auto simp: generate_unique_salt_def Let_def)

lemma constructed_filter_exists:
  assumes "unat (number_of_hashes (optimal_parameters p)) \<le> 128"
  shows "\<exists>f. new_bloom_filter srand p = Inr f"
proof -
  obtain s where "generate_unique_salt srand (number_of_hashes (optimal_parameters p))
      (param_random_seed p * 0xA5A5A5A5 + 1) = Inr s"
    using generate_unique_salt_small [OF assms] by blast
  then show ?thesis
    unfolding new_bloom_filter_def Let_def by (simp del: rbind_Inr_iff)
qed

text \<open>Sizes that \<open>compute_optimal_parameters\<close> chooses: not zero, and whole bytes.\<close>

definition byte_sized :: "u64 \<Rightarrow> bool" where
  "byte_sized t \<longleftrightarrow> t \<noteq> 0 \<and> unat t mod 8 = 0"

lemma new_bloom_filter_wf:
  assumes "byte_sized (opt_table_size (optimal_parameters p))" and "new_bloom_filter srand p = Inr f"
  shows "bf_wf f \<and> bits (bit_table f) = {} \<and> inserted_element_count f = 0 \<and>
    length (salts f) = unat (number_of_hashes (optimal_parameters p))"
  using assms
  by (auto simp: new_bloom_filter_def Let_def byte_sized_def bf_wf_def bits_per_char_def
      dest: generate_unique_salt_ok)

text \<open>The searched size is of this kind when it fits and is not clamped away.\<close>

lemma chosen_byte_sized:
  assumes "0 < t" and "t < 2 ^ 64 - 8"
    and "minimum_size p \<le> round_up_size (word_of_nat t)" and "round_up_size (word_of_nat t) \<le> maximum_size p"
  shows "byte_sized (opt_table_size (chosen_parameters p h t))"
proof -
  have "unat (round_up_size (word_of_nat t)) \<noteq> 0"
    unfolding unat_round_up_size [OF assms(2)] using assms(1) by simp
  then have "round_up_size (word_of_nat t) \<noteq> 0" by auto
  then show ?thesis
    using round_up_size_mult [OF assms(2)] clamp_word_id [OF assms(3,4)]
    by (simp add: byte_sized_def chosen_parameters_def)
qed

section \<open>Properties\<close>


text \<open>A filter constructed for a whole number of bytes indexes only bits of its table, contains
  nothing that needs a bit, and has the asked number of hash functions; with at most 128 of them the
  construction always succeeds.\<close>

theorem constructed_filter_empty:
  assumes "byte_sized (opt_table_size (optimal_parameters p))"
    and "unat (number_of_hashes (optimal_parameters p)) \<le> 128"
  shows "\<exists>f. new_bloom_filter srand p = Inr f \<and> bf_wf f \<and>
    hash_count f = unat (number_of_hashes (optimal_parameters p)) \<and>
    (\<forall>key. bf_contains compute_indices f key = Inr (number_of_hashes (optimal_parameters p) = 0))"
proof -
  obtain f where f: "new_bloom_filter srand p = Inr f"
    using constructed_filter_exists [OF assms(2)] by blast
  note wf = new_bloom_filter_wf [OF assms(1) f]
  then have "bf_contains compute_indices f key = Inr (salts f = [])" for key
    by (simp add: bf.contains_refines bf.positions_def)
  with f wf show ?thesis by (simp add: hash_count_def unat_eq_0 flip: length_0_conv)
qed

definition sample_parameters :: "real option bloom_parameters" where
  "sample_parameters = (new_bloom_parameters real_fpu)
     \<lparr>optimal_parameters := \<lparr>number_of_hashes = 3, opt_table_size = 64\<rparr>\<rparr>"

theorem constructed_filter_empty_witness:
  "\<exists>f. new_bloom_filter (\<lambda>_ _. 7) sample_parameters = Inr f \<and> bf_wf f \<and> hash_count f = 3 \<and>
    (\<forall>key. bf_contains compute_indices f key = Inr False)"
  using constructed_filter_empty [of sample_parameters "\<lambda>_ _. 7"]
  by (simp add: sample_parameters_def byte_sized_def)

text \<open>C18: insertion on a well-formed filter never fails and sets exactly the bits that the salts give
  the key; membership says whether all of them are set, and counts of insertions go up by one.\<close>

theorem insert_contains_refine:
  assumes "bf_wf f"
  shows "\<exists>f'. bf_insert compute_indices f key = Inr f' \<and> bf_wf f' \<and>
    bits (bit_table f') = bits (bit_table f) \<union>
      (\<lambda>s. unat (hash_ap key s) mod unat (table_size f)) ` set (salts f) \<and>
    element_count f' = element_count f + 1 \<and>
    (\<forall>q. bf_contains compute_indices f' q =
      Inr ((\<lambda>s. unat (hash_ap q s) mod unat (table_size f)) ` set (salts f) \<subseteq> bits (bit_table f')))"
proof -
  obtain f' where f': "bf_insert compute_indices f key = Inr f'" "bf_wf f'" "bf.positions f' = bf.positions f"
      "bits (bit_table f') = bits (bit_table f) \<union> bf.positions f key"
    using bf.insert_refines [OF assms] by blast
  have "bf.positions f q = (\<lambda>s. unat (hash_ap q s) mod unat (table_size f)) ` set (salts f)" for q
    by (rule bf_positions [OF assms])
  moreover have "element_count f' = element_count f + 1"
    using f'(1) by (auto simp: bf_insert_def element_count_def)
  ultimately show ?thesis
    using f' bf.contains_refines [OF f'(2)] by (intro exI [of _ f']) simp
qed

text \<open>C17: there are no false negatives: after any insertions the inserted keys and all earlier
  members are members, and clearing the filter forgets everything that needs a bit.\<close>

theorem no_false_negatives:
  assumes "bf_wf f" and "k \<in> set ks \<or> bf_contains compute_indices f k = Inr True"
  shows "\<exists>f'. insert_range compute_indices f ks = Inr f' \<and> bf_wf f' \<and>
    bf_contains compute_indices f' k = Inr True \<and>
    bf_contains compute_indices (bf_clear f') k = Inr (salts f' = [])"
proof -
  obtain f' where f': "insert_range compute_indices f ks = Inr f'" "bf_wf f'"
      "bf.positions f' = bf.positions f"
      "bits (bit_table f') = bits (bit_table f) \<union> (\<Union>k \<in> set ks. bf.positions f k)"
    using bf.insert_range_refines [OF assms(1)] by blast
  have "bf.positions f' k \<subseteq> bits (bit_table f')"
    using assms(2) f'(3,4) bf.contains_refines [OF assms(1), of k] by auto
  moreover have "bf_contains compute_indices (bf_clear f') k = Inr (salts f' = [])"
    using bf.clear_refines [OF f'(2)] bf.contains_refines [of "bf_clear f'" k]
    by (simp add: bf.positions_def)
  moreover have "bf_contains compute_indices f' k = Inr (bf.positions f' k \<subseteq> bits (bit_table f'))"
    by (rule bf.contains_refines [OF f'(2)])
  ultimately show ?thesis
    using f'(1,2) by auto
qed

text \<open>\<open>contains_all\<close> stops at the first key that is not a member, \<open>contains_none\<close> at the first
  that is; both go to the end of the range when there is none.\<close>

theorem contains_scan:
  assumes "bf_wf f"
  shows "contains_all compute_indices f ks =
      Inr (length (takeWhile (\<lambda>k. bf_contains compute_indices f k = Inr True) ks)) \<and>
    contains_none compute_indices f ks =
      Inr (length (takeWhile (\<lambda>k. bf_contains compute_indices f k = Inr False) ks))"
  by (induction ks) (simp_all add: bf.contains_refines [OF assms])

text \<open>C21: on filters of the same shape \<open>&\<close>, \<open>|\<close> and \<open>^\<close> (and the assignments they use) are the intersection, the union and the
  symmetric difference of the sets of bits, and the union has the members of both filters.\<close>

theorem combined_filters:
  assumes "bf_wf f" and "bf_wf g" and "same_shape f g" and "salts f = salts g"
  shows "\<exists>a o' x. bf_and F f g = Inr a \<and> bf_or F f g = Inr o' \<and> bf_xor F f g = Inr x \<and>
    bf_wf a \<and> bf_wf o' \<and> bf_wf x \<and>
    bits (bit_table a) = bits (bit_table f) \<inter> bits (bit_table g) \<and>
    bits (bit_table o') = bits (bit_table f) \<union> bits (bit_table g) \<and>
    bits (bit_table x) = (bits (bit_table f) - bits (bit_table g)) \<union> (bits (bit_table g) - bits (bit_table f)) \<and>
    (\<forall>k. bf_contains compute_indices f k = Inr True \<or> bf_contains compute_indices g k = Inr True \<longrightarrow>
      bf_contains compute_indices o' k = Inr True)"
proof -
  have len: "length (bit_table f) = length (bit_table g)"
    using assms by (simp add: bf_wf_def same_shape_def)
  define mk where "mk op = f\<lparr>bit_table := map2 op (bit_table f) (bit_table g)\<rparr>" for op
  have c: "combine_assign op f g = Inr (mk op)" for op
    using len assms(3) by (simp add: combine_assign_def combine_tables_ok mk_def)
  have wf: "bf_wf (mk op)" for op
    using assms(1) len by (simp add: bf_wf_def mk_def)
  have "salts (mk op) = salts f" "table_size (mk op) = table_size f" "table_size g = table_size f" for op
    using assms(3) by (simp_all add: mk_def same_shape_def)
  then have pos: "bf.positions (mk op) = bf.positions f" "bf.positions g = bf.positions f" for op
    using assms(4) by (simp_all add: fun_eq_iff bf_positions assms(1,2) wf)
  have b: "bit_table (mk op) = map2 op (bit_table f) (bit_table g)" for op
    by (simp add: mk_def)
  have u: "bf_contains compute_indices (mk (\<lambda>x y. x OR y)) k = Inr True"
    if "bf_contains compute_indices f k = Inr True \<or> bf_contains compute_indices g k = Inr True" for k
    using that by (auto simp: bf.contains_refines assms(1,2) wf pos b bits_or [OF len])
  show ?thesis
    using wf u
    by (simp add: bf_and_def bf_or_def bf_xor_def bf_and_assign_def bf_or_assign_def bf_xor_assign_def c b bits_and [OF len] bits_or [OF len]
        bits_xor [OF len])
qed

definition sample_filter :: "real option bloom_filter" where
  "sample_filter =
     \<lparr> salts = [0xAAAAAAAA, 0x55555555], bit_table = [0, 0, 0, 0], salt_count = 2, table_size = 32,
       projected_element_count = 10, inserted_element_count = 0, random_seed = 1,
       desired_false_positive_probability = Some 0 \<rparr>"

lemma sample_filter_wf: "bf_wf sample_filter"
  by (simp add: sample_filter_def bf_wf_def)

theorem insert_contains_refine_witness:
  "bf_wf sample_filter \<and>
   (\<exists>f'. bf_insert compute_indices sample_filter (bytes_of ''key'') = Inr f' \<and> element_count f' = 1)"
  using insert_contains_refine [OF sample_filter_wf, of "bytes_of ''key''"] sample_filter_wf
  by (auto simp: sample_filter_def element_count_def)

theorem no_false_negatives_witness:
  "\<exists>f'. insert_range compute_indices sample_filter [bytes_of ''a'', bytes_of ''key''] = Inr f' \<and>
    bf_contains compute_indices f' (bytes_of ''key'') = Inr True"
  using no_false_negatives [OF sample_filter_wf, of "bytes_of ''key''" "[bytes_of ''a'', bytes_of ''key'']"]
  by auto

theorem contains_scan_witness:
  "contains_all compute_indices sample_filter [bytes_of ''a''] = Inr 0"
  using contains_scan [OF sample_filter_wf, of "[bytes_of ''a'']"] bf.contains_refines [OF sample_filter_wf]
  by (simp add: bf.positions_def sample_filter_def bits_def nth_Cons')

theorem combined_filters_witness:
  "\<exists>a. bf_or real_fpu sample_filter sample_filter = Inr a \<and> bits (bit_table a) = bits (bit_table sample_filter)"
proof -
  have "same_shape sample_filter sample_filter" by (simp add: same_shape_def)
  from combined_filters [OF sample_filter_wf sample_filter_wf this refl, of real_fpu]
  show ?thesis by auto
qed

text \<open>A generator whose products count up.\<close>

definition counting_rand :: "nat \<Rightarrow> u32" where
  "counting_rand i = (if even i then of_nat (i div 2) else 1)"

lemma counting_rand_varied:
  assumes "n < 2 ^ 31"
  shows "varied counting_rand n"
  unfolding varied_def
proof (intro allI impI)
  fix m :: nat and S :: "u32 set"
  assume S: "finite S" "card S < n"
  let ?w = "of_nat :: nat \<Rightarrow> u32"
  have "inj_on ?w {m..<m + n + 1}"
  proof (rule linorder_inj_onI')
    fix i j
    assume "i \<in> {m..<m + n + 1}" "j \<in> {m..<m + n + 1}" "i < j"
    then have "0 < j - i" "j - i < 2 ^ 32" using assms by auto
    then have "\<not> 2 ^ 32 dvd j - i" by (intro nat_dvd_not_less)
    then have "?w (j - i) \<noteq> 0" unfolding word_of_nat_eq_0_iff by simp
    moreover have "?w (j - i) = ?w j - ?w i" by (rule of_nat_diff) (use \<open>i < j\<close> in simp)
    ultimately show "?w i \<noteq> ?w j" by auto
  qed
  then have "card (?w ` {m..<m + n + 1}) = n + 1" by (simp add: card_image)
  moreover have "card (insert 0 S) < n + 1" using S by (simp add: card_insert_if)
  ultimately have "\<not> ?w ` {m..<m + n + 1} \<subseteq> insert 0 S"
    using card_mono [of "insert 0 S" "?w ` {m..<m + n + 1}"] S(1) by auto
  then obtain j where "j \<in> {m..<m + n + 1}" "?w j \<notin> insert 0 S" by blast
  then show "\<exists>j \<ge> m. counting_rand (2 * j) * counting_rand (Suc (2 * j)) \<notin> insert 0 S"
    by (intro exI [of _ j]) (simp_all add: counting_rand_def)
qed


end
