(* ===== verification/CompressibleBloom.thy ===== *)
theory CompressibleBloom
  imports BloomFilter
begin

text \<open>
  The class \<open>compressible_bloom_filter\<close> of \<open>util/include/bloom_filter.hpp\<close>: a bloom filter whose
  table can be folded onto a shorter one. It overrides \<open>size\<close> and \<open>compute_indices\<close>, provides the
  interface \<open>bit_indexing\<close> again, and \<open>compress\<close> keeps the members.
\<close>

section \<open>State and operations\<close>

record 'd compressible_bloom_filter = "'d bloom_filter" +
  size_list :: "u64 list"

definition new_compressible_bloom_filter ::
  "(u32 \<Rightarrow> nat \<Rightarrow> u32) \<Rightarrow> 'd bloom_parameters \<Rightarrow> 'd compressible_bloom_filter res" where
  "new_compressible_bloom_filter srand p =
     rbind (new_bloom_filter srand p) (\<lambda>f.
     Inr (bloom_filter.extend f \<lparr> size_list = [table_size f] \<rparr>))"

definition cbf_size :: "('d, 'a) compressible_bloom_filter_scheme \<Rightarrow> u64 res" where
  "cbf_size f = (if size_list f = [] then Inl Out_of_bounds else Inr (last (size_list f)))"

text \<open>The hash is reduced by every size the table has had, in turn.\<close>

fun reduce_index :: "u64 list \<Rightarrow> nat \<Rightarrow> nat res" where
  "reduce_index [] i = Inr i"
| "reduce_index (s # ss) i = (if s = 0 then Inl Div_by_zero else reduce_index ss (i mod unat s))"

definition cbf_compute_indices :: "('d, 'a) compressible_bloom_filter_scheme \<Rightarrow> u32 \<Rightarrow> (nat \<times> nat) res" where
  "cbf_compute_indices f hash =
     rbind (reduce_index (size_list f) (unat hash)) (\<lambda>i. Inr (i, i mod bits_per_char))"

text \<open>The loop of \<open>compress\<close> that ors the end of the table into the copy of its beginning.\<close>

fun fold_loop :: "byte list \<Rightarrow> nat \<Rightarrow> byte list \<Rightarrow> byte list res" where
  "fold_loop tmp j [] = Inr tmp"
| "fold_loop tmp j (c # cs) =
     rbind (elem_at tmp j) (\<lambda>x. rbind (put tmp j (x OR c)) (\<lambda>t. fold_loop t (Suc j) cs))"

definition new_table_size :: "'d fpu \<Rightarrow> 'd \<Rightarrow> u64 \<Rightarrow> nat res" where
  "new_table_size F percentage original =
     rbind (fp_cast F 64 (fp_mul F (fp_of_u64 F original)
       (fp_sub F (fp_lit F 1 0) (fp_div F percentage (fp_lit F 100 0))))) (\<lambda>n.
     Inr (n - n mod bits_per_char))"

definition compress ::
  "'d fpu \<Rightarrow> 'd \<Rightarrow> ('d, 'a) compressible_bloom_filter_scheme \<Rightarrow>
   (bool \<times> ('d, 'a) compressible_bloom_filter_scheme) res" where
  "compress F percentage f =
     (if fp_lt F percentage (fp_lit F 0 0) \<or>
         (fp_lt F (fp_lit F 100 0) percentage \<or> fp_eq F percentage (fp_lit F 100 0))
      then Inr (False, f)
      else rbind (cbf_size f) (\<lambda>original.
        rbind (new_table_size F percentage original) (\<lambda>n.
          if n < bits_per_char \<or> unat original \<le> n then Inr (False, f)
          else
            (let raw = n div bits_per_char; old = unat original div bits_per_char in
             if length (bit_table f) < old then Inl Out_of_bounds
             else rbind (fold_loop (take raw (bit_table f)) 0 (drop raw (take old (bit_table f)))) (\<lambda>tmp.
               Inr (True, f\<lparr>desired_false_positive_probability := effective_fpp F original f,
                 bit_table := tmp, size_list := size_list f @ [word_of_nat n]\<rparr>))))))"

section \<open>The interface\<close>

text \<open>Sizes are whole bytes, and the last one is that of the table.\<close>

definition cbf_wf :: "('d, 'a) compressible_bloom_filter_scheme \<Rightarrow> bool" where
  "cbf_wf f \<longleftrightarrow> size_list f \<noteq> [] \<and> (\<forall>s \<in> set (size_list f). byte_sized s) \<and>
     unat (last (size_list f)) = 8 * length (bit_table f)"

definition reduced :: "u64 list \<Rightarrow> nat \<Rightarrow> nat" where
  "reduced ss i = foldl (\<lambda>i s. i mod unat s) i ss"

lemma reduce_index_ok:
  "\<forall>s \<in> set ss. byte_sized s \<Longrightarrow> reduce_index ss i = Inr (reduced ss i)"
  by (induction ss arbitrary: i) (auto simp: reduced_def byte_sized_def)

lemma reduced_snoc: "reduced (ss @ [s]) i = reduced ss i mod unat s"
  by (simp add: reduced_def)

lemma reduced_bound:
  assumes "ss \<noteq> []" and "\<forall>s \<in> set ss. byte_sized s"
  shows "reduced ss i < unat (last ss)"
proof -
  obtain ys y where ss: "ss = ys @ [y]" using assms(1) by (cases ss rule: rev_cases) auto
  with assms(2) have "unat y \<noteq> 0" by (auto simp: byte_sized_def unat_eq_0)
  then show ?thesis by (simp add: ss reduced_snoc)
qed

interpretation cbf: bit_indexing "cbf_compute_indices :: ('d, 'a) compressible_bloom_filter_scheme \<Rightarrow> _" cbf_wf
proof unfold_locales
  fix f :: "('d, 'a) compressible_bloom_filter_scheme" and h :: u32
  assume wf: "cbf_wf f"
  then have "reduced (size_list f) (unat h) < 8 * length (bit_table f)"
    using reduced_bound [of "size_list f" "unat h"] by (simp add: cbf_wf_def)
  then have "reduced (size_list f) (unat h) div 8 < length (bit_table f)" by simp
  with wf show "\<exists>i. cbf_compute_indices f h = Inr (i, i mod bits_per_char) \<and>
      i div bits_per_char < length (bit_table f)"
    by (simp add: cbf_compute_indices_def cbf_wf_def reduce_index_ok bits_per_char_def)
qed (auto simp: cbf_compute_indices_def cbf_wf_def fun_eq_iff)

lemma cbf_positions:
  assumes "cbf_wf f"
  shows "cbf.positions f key = (\<lambda>s. reduced (size_list f) (unat (hash_ap key s))) ` set (salts f)"
  using assms by (simp add: cbf.positions_def cbf.pos_def cbf_compute_indices_def cbf_wf_def reduce_index_ok)

section \<open>Compression\<close>

text \<open>What the folding loop computes, and when it runs over the end of the shorter table.\<close>

lemma fold_loop_ok:
  "j + length cs \<le> length tmp \<Longrightarrow> \<exists>t. fold_loop tmp j cs = Inr t \<and> length t = length tmp \<and>
    (\<forall>i < length tmp. t ! i = (if j \<le> i \<and> i < j + length cs then tmp ! i OR cs ! (i - j) else tmp ! i))"
proof (induction tmp j cs rule: fold_loop.induct)
  case (1 tmp j)
  then show ?case by auto
next
  case (2 tmp j c cs)
  have j: "j < length tmp" using "2.prems" by simp
  have "\<exists>t. fold_loop (tmp[j := tmp ! j OR c]) (Suc j) cs = Inr t \<and> length t = length tmp \<and>
    (\<forall>i < length tmp. t ! i = (if Suc j \<le> i \<and> i < Suc j + length cs
      then tmp[j := tmp ! j OR c] ! i OR cs ! (i - Suc j) else tmp[j := tmp ! j OR c] ! i))"
    using "2.IH" [of "tmp[j := tmp ! j OR c]"] "2.prems" j by simp
  then obtain t where t: "fold_loop (tmp[j := tmp ! j OR c]) (Suc j) cs = Inr t" "length t = length tmp"
      "\<forall>i < length tmp. t ! i = (if Suc j \<le> i \<and> i < Suc j + length cs
      then tmp[j := tmp ! j OR c] ! i OR cs ! (i - Suc j) else tmp[j := tmp ! j OR c] ! i)"
    by blast
  have "t ! i = (if j \<le> i \<and> i < j + length (c # cs) then tmp ! i OR (c # cs) ! (i - j) else tmp ! i)"
    if "i < length tmp" for i
  proof (cases "i = j")
    case True
    then show ?thesis using t(3) j by simp
  next
    case False
    then show ?thesis using t(3) that by (auto simp: nth_Cons' Suc_diff_Suc)
  qed
  with t(1,2) j show ?case by simp
qed

lemma fold_loop_overflow:
  "j \<le> length tmp \<Longrightarrow> length tmp < j + length cs \<Longrightarrow> fold_loop tmp j cs = Inl Out_of_bounds"
proof (induction tmp j cs rule: fold_loop.induct)
  case (1 tmp j)
  then show ?case by simp
next
  case (2 tmp j c cs)
  show ?case
  proof (cases "j < length tmp")
    case True
    then show ?thesis
      using "2.IH" [of "tmp[j := tmp ! j OR c]"] "2.prems" by simp
  next
    case False
    then show ?thesis by (simp add: elem_at_def)
  qed
qed

text \<open>Folding a table of \<open>m\<close> bytes to \<open>n\<close> bytes maps bit \<open>i\<close> to bit \<open>i mod 8 n\<close>.\<close>

lemma folded_bits:
  assumes "0 < n" and "n \<le> length bt" and "length bt \<le> 2 * n"
  shows "\<exists>t. fold_loop (take n bt) 0 (drop n bt) = Inr t \<and> length t = n \<and>
    bits t = (\<lambda>i. i mod (8 * n)) ` bits bt"
proof -
  have "0 + length (drop n bt) \<le> length (take n bt)" using assms by simp
  from fold_loop_ok [OF this] assms obtain t where t: "fold_loop (take n bt) 0 (drop n bt) = Inr t" "length t = n"
      "\<forall>i < n. t ! i = (if i < length bt - n then bt ! i OR bt ! (n + i) else bt ! i)"
    by auto
  have "bits t = (\<lambda>i. i mod (8 * n)) ` bits bt"
  proof (rule set_eqI)
    fix i
    have mod_id: "x mod (8 * n) = x" if "x div 8 < n" for x
      using that by simp
    have bk: "(x + 8 * n) div 8 = x div 8 + n" "(x + 8 * n) mod 8 = x mod 8"
      "(x + 8 * n) mod (8 * n) = x mod (8 * n)" for x
      by simp_all
    show "i \<in> bits t \<longleftrightarrow> i \<in> (\<lambda>i. i mod (8 * n)) ` bits bt"
    proof
      assume "i \<in> bits t"
      then have i: "i div 8 < n" "bit (t ! (i div 8)) (i mod 8)" by (simp_all add: bits_def t(2))
      with t(3) have "bit (bt ! (i div 8)) (i mod 8) \<or>
          (i div 8 < length bt - n \<and> bit (bt ! (n + i div 8)) (i mod 8))"
        by (auto simp: bit_or_iff split: if_splits)
      then have "i \<in> bits bt \<or> i + 8 * n \<in> bits bt"
        using i(1) assms(2) by (auto simp: bits_def bk add.commute)
      then show "i \<in> (\<lambda>i. i mod (8 * n)) ` bits bt"
        using mod_id [OF i(1)] bk(3) [of i] by (metis image_eqI)
    next
      assume "i \<in> (\<lambda>i. i mod (8 * n)) ` bits bt"
      then obtain k where k: "i = k mod (8 * n)" "k div 8 < length bt" "bit (bt ! (k div 8)) (k mod 8)"
        by (auto simp: bits_def)
      show "i \<in> bits t"
      proof (cases "k div 8 < n")
        case True
        with k t(3) show ?thesis by (simp add: mod_id bits_def t(2) bit_or_iff)
      next
        case False
        define x where "x = k - 8 * n"
        from False have kx: "k = x + 8 * n" by (simp add: x_def)
        have "x div 8 < length bt - n" "x div 8 < n" using k(2) assms by (simp_all add: kx)
        with k t(3) show ?thesis
          by (simp add: kx bk mod_id bits_def t(2) bit_or_iff add.commute)
      qed
    qed
  qed
  with t(1,2) show ?thesis by blast
qed

text \<open>The percentages that \<open>compress\<close> does not refuse at once.\<close>

definition valid_percentage :: "'d fpu \<Rightarrow> 'd \<Rightarrow> bool" where
  "valid_percentage F percentage \<longleftrightarrow> \<not> (fp_lt F percentage (fp_lit F 0 0) \<or>
     (fp_lt F (fp_lit F 100 0) percentage \<or> fp_eq F percentage (fp_lit F 100 0)))"

lemma cbf_size_ok: "cbf_wf f \<Longrightarrow> cbf_size f = Inr (last (size_list f)) \<and> unat (last (size_list f)) = 8 * length (bit_table f)"
  by (simp add: cbf_size_def cbf_wf_def)

lemma new_table_size_bytes: "new_table_size F p s = Inr n \<Longrightarrow> n mod 8 = 0 \<and> n < 2 ^ 64"
proof -
  assume "new_table_size F p s = Inr n"
  then obtain m where "fp_cast F 64 (fp_mul F (fp_of_u64 F s)
      (fp_sub F (fp_lit F 1 0) (fp_div F p (fp_lit F 100 0)))) = Inr m" "n = m - m mod 8"
    by (auto simp: new_table_size_def bits_per_char_def)
  with fp_cast_bound [OF this(1)] show ?thesis
    by (simp add: minus_mod_eq_mult_div le_less_trans [OF diff_le_self])
qed

lemma compress_steps:
  assumes "cbf_wf f" and "valid_percentage F pc" and "new_table_size F pc (last (size_list f)) = Inr n"
    and "8 \<le> n" and "n < 8 * length (bit_table f)"
  shows "compress F pc f =
    rbind (fold_loop (take (n div 8) (bit_table f)) 0 (drop (n div 8) (bit_table f))) (\<lambda>tmp.
      Inr (True, f\<lparr>desired_false_positive_probability := effective_fpp F (last (size_list f)) f,
        bit_table := tmp, size_list := size_list f @ [word_of_nat n]\<rparr>))"
proof -
  note sz = cbf_size_ok [OF assms(1)]
  have lt8: "(n < 8) = False" using assms(4) by simp
  have "\<not> unat (last (size_list f)) \<le> n" using assms(5) sz by simp
  moreover have "unat (last (size_list f)) div 8 = length (bit_table f)" using sz by simp
  ultimately show ?thesis
    using assms(2) unfolding compress_def valid_percentage_def
    by (simp only: lt8 sz assms(3) rbind.simps Let_def bits_per_char_def if_False simp_thms not_less
        take_all [OF order_refl] less_irrefl)
qed

lemma folded_wf:
  assumes wf: "cbf_wf f" and n: "n mod 8 = 0" "n < 2 ^ 64" "8 \<le> n" and t: "length t = n div 8"
    and f': "f' = f\<lparr>desired_false_positive_probability := d, bit_table := t, size_list := size_list f @ [word_of_nat n]\<rparr>"
  shows "cbf_wf f'" and "cbf.positions f' key = (\<lambda>i. i mod n) ` cbf.positions f key"
proof -
  have u: "unat (word_of_nat n :: u64) = n" using n(2) by (simp add: unat_of_nat)
  then have "byte_sized (word_of_nat n)" using n by (auto simp: byte_sized_def)
  moreover have "8 * (n div 8) = n" using n(1) by auto
  ultimately show wf': "cbf_wf f'"
    using wf t by (simp add: cbf_wf_def f' u)
  show "cbf.positions f' key = (\<lambda>i. i mod n) ` cbf.positions f key"
    unfolding cbf_positions [OF wf'] cbf_positions [OF wf]
    by (simp add: f' reduced_snoc u image_image)
qed

lemma compress_ok:
  assumes "cbf_wf f" and "valid_percentage F pc" and "new_table_size F pc (last (size_list f)) = Inr n"
    and "8 \<le> n" and "n < 8 * length (bit_table f)" and "8 * length (bit_table f) \<le> 2 * n"
  shows "\<exists>f'. compress F pc f = Inr (True, f') \<and> cbf_wf f' \<and> length (bit_table f') = n div 8 \<and>
    (\<forall>k. cbf.positions f' k = (\<lambda>i. i mod n) ` cbf.positions f k) \<and>
    bits (bit_table f') = (\<lambda>i. i mod n) ` bits (bit_table f)"
proof -
  note n = new_table_size_bytes [OF assms(3)]
  have n8: "8 * (n div 8) = n" using n by auto
  have "0 < n div 8" "n div 8 \<le> length (bit_table f)" "length (bit_table f) \<le> 2 * (n div 8)"
    using assms(4-6) n8 by linarith+
  from folded_bits [OF this] obtain t where t: "fold_loop (take (n div 8) (bit_table f)) 0 (drop (n div 8) (bit_table f)) = Inr t"
      "length t = n div 8" "bits t = (\<lambda>i. i mod n) ` bits (bit_table f)"
    using n8 by auto
  define f' where "f' = f\<lparr>desired_false_positive_probability := effective_fpp F (last (size_list f)) f,
        bit_table := t, size_list := size_list f @ [word_of_nat n]\<rparr>"
  have "compress F pc f = Inr (True, f')"
    unfolding compress_steps [OF assms(1-5)] t(1) f'_def by simp
  moreover have "cbf_wf f'" "cbf.positions f' k = (\<lambda>i. i mod n) ` cbf.positions f k" for k
    using folded_wf [OF assms(1) n [THEN conjunct1] n [THEN conjunct2] assms(4) t(2) f'_def] by simp_all
  moreover have "bit_table f' = t" by (simp add: f'_def)
  ultimately show ?thesis using t(2,3) by blast
qed

lemma compress_overflow:
  assumes "cbf_wf f" and "valid_percentage F pc" and "new_table_size F pc (last (size_list f)) = Inr n"
    and "8 \<le> n" and "2 * n < 8 * length (bit_table f)"
  shows "compress F pc f = Inl Out_of_bounds"
proof -
  have n8: "8 * (n div 8) = n" using new_table_size_bytes [OF assms(3)] by auto
  have lt: "n < 8 * length (bit_table f)" using assms(5) by linarith
  have "n div 8 \<le> length (bit_table f)" "length (bit_table f) - n div 8 > n div 8"
    using assms(5) n8 by linarith+
  then have "fold_loop (take (n div 8) (bit_table f)) 0 (drop (n div 8) (bit_table f)) = Inl Out_of_bounds"
    by (intro fold_loop_overflow) (simp_all add: min_def)
  then show ?thesis unfolding compress_steps [OF assms(1-4) lt] by simp
qed

lemma compress_refused:
  assumes "cbf_wf f" and "\<not> valid_percentage F pc \<or>
    (\<exists>n. new_table_size F pc (last (size_list f)) = Inr n \<and> (n < 8 \<or> 8 * length (bit_table f) \<le> n))"
  shows "compress F pc f = Inr (False, f)"
proof (cases "valid_percentage F pc")
  case False
  then show ?thesis by (simp add: compress_def valid_percentage_def)
next
  case True
  with assms(2) obtain n where "new_table_size F pc (last (size_list f)) = Inr n"
      "n < 8 \<or> 8 * length (bit_table f) \<le> n" by blast
  with True cbf_size_ok [OF assms(1)] show ?thesis
    by (auto simp: compress_def valid_percentage_def bits_per_char_def)
qed

section \<open>Properties\<close>

text \<open>C19: whatever \<open>compress\<close> does without a fault, the filter stays well-formed and every member
  stays a member; when it succeeds the table is shorter, but not less than half as long.\<close>

theorem compress_keeps_members:
  assumes "cbf_wf f" and "compress F pc f = Inr (b, f')"
  shows "cbf_wf f' \<and>
    (\<forall>k. bf_contains cbf_compute_indices f k = Inr True \<longrightarrow> bf_contains cbf_compute_indices f' k = Inr True) \<and>
    (if b then length (bit_table f') < length (bit_table f) \<and> length (bit_table f) \<le> 2 * length (bit_table f')
     else f' = f)"
proof (cases "valid_percentage F pc")
  case False
  then show ?thesis using compress_refused [OF assms(1)] assms by auto
next
  case True
  have "defined (new_table_size F pc (last (size_list f)))"
    using assms(2) True cbf_size_ok [OF assms(1)] by (auto simp: compress_def valid_percentage_def)
  then obtain n where n: "new_table_size F pc (last (size_list f)) = Inr n" by (auto simp: defined_iff)
  show ?thesis
  proof (cases "n < 8 \<or> 8 * length (bit_table f) \<le> n")
    case True
    then show ?thesis using compress_refused [OF assms(1)] n assms by auto
  next
    case False
    then have lt: "8 \<le> n" "n < 8 * length (bit_table f)" by auto
    have half: "8 * length (bit_table f) \<le> 2 * n"
      using compress_overflow [OF assms(1) True n lt(1)] assms(2) by force
    obtain f2 where f2: "compress F pc f = Inr (True, f2)" "cbf_wf f2" "length (bit_table f2) = n div 8"
        "\<forall>k. cbf.positions f2 k = (\<lambda>i. i mod n) ` cbf.positions f k"
        "bits (bit_table f2) = (\<lambda>i. i mod n) ` bits (bit_table f)"
      using compress_ok [OF assms(1) True n lt half] by blast
    then have eq: "b = True" "f' = f2" using assms(2) by simp_all
    have "bf_contains cbf_compute_indices f2 k = Inr True" if "bf_contains cbf_compute_indices f k = Inr True" for k
    proof -
      have "cbf.positions f k \<subseteq> bits (bit_table f)"
        using that by (simp add: cbf.contains_refines [OF assms(1)])
      then have "cbf.positions f2 k \<subseteq> bits (bit_table f2)"
        using f2(4,5) by auto
      then show ?thesis by (simp add: cbf.contains_refines [OF f2(2)])
    qed
    moreover have "8 * (n div 8) = n" using new_table_size_bytes [OF n] by auto
    ultimately show ?thesis using f2(2,3) lt half by (simp add: eq)
  qed
qed

text \<open>C20: \<open>compress\<close> writes behind the end of its temporary table whenever the new table is less
  than half as long as the old one.\<close>

theorem compress_below_half_overflows:
  assumes "cbf_wf f" and "valid_percentage F pc" and "new_table_size F pc (last (size_list f)) = Inr n"
    and "8 \<le> n" and "2 * n < 8 * length (bit_table f)"
  shows "compress F pc f = Inl Out_of_bounds"
  using assms by (rule compress_overflow)

definition sample_compressible :: "real option compressible_bloom_filter" where
  "sample_compressible = bloom_filter.extend sample_filter \<lparr>size_list = [32]\<rparr>"

lemma sample_compressible_wf: "cbf_wf sample_compressible"
  by (simp add: sample_compressible_def sample_filter_def cbf_wf_def bloom_filter.defs byte_sized_def)

lemma sample_new_size:
  "new_table_size real_fpu (Some (of_nat m)) 32 =
    rbind (fp_cast real_fpu 64 (Some (32 * (1 - of_nat m / 100)))) (\<lambda>n. Inr (n - n mod 8))"
  by (simp add: new_table_size_def real_fpu_def lift2_def bits_per_char_def)

theorem compress_keeps_members_witness:
  "\<exists>f'. compress real_fpu (Some 25) sample_compressible = Inr (True, f') \<and> cbf_wf f'"
proof -
  have "fp_cast real_fpu 64 (Some 24) = Inr 24"
    by (simp add: fp_cast_def real_fpu_def real_trunc_def)
  then have n: "new_table_size real_fpu (Some 25) (last (size_list sample_compressible)) = Inr 24"
    using sample_new_size [of 25] by (simp add: sample_compressible_def bloom_filter.defs)
  have v: "valid_percentage real_fpu (Some 25)"
    by (simp add: valid_percentage_def real_fpu_def real_less_def)
  have l: "length (bit_table sample_compressible) = 4"
    by (simp add: sample_compressible_def sample_filter_def bloom_filter.defs)
  from compress_ok [OF sample_compressible_wf v n] l
  obtain f' where "compress real_fpu (Some 25) sample_compressible = Inr (True, f')" by auto
  with compress_keeps_members [OF sample_compressible_wf this] show ?thesis by blast
qed

theorem compress_below_half_overflows_witness:
  "compress real_fpu (Some 75) sample_compressible = Inl Out_of_bounds"
proof (rule compress_below_half_overflows [OF sample_compressible_wf])
  have "fp_cast real_fpu 64 (Some 8) = Inr 8"
    by (simp add: fp_cast_def real_fpu_def real_trunc_def)
  then show "new_table_size real_fpu (Some 75) (last (size_list sample_compressible)) = Inr 8"
    using sample_new_size [of 75] by (simp add: sample_compressible_def bloom_filter.defs)
  show "valid_percentage real_fpu (Some 75)"
    by (simp add: valid_percentage_def real_fpu_def real_less_def)
qed (simp_all add: sample_compressible_def sample_filter_def bloom_filter.defs)

end
