(* ===== verification/Dictionary.thy ===== *)
theory Dictionary
  imports BloomFilter "HOL-Library.Finite_Map"
begin

text \<open>
  The singleton \<open>Dictionary\<close> (\<open>server/src/Dictionary.cpp\<close>): the key-value store behind the GET and
  SET requests, with its optional bloom filter. The store is specified by a partial map; the lemmas
  say how every operation acts on that map, with the filter switched off and on, and how many
  entries concurrent SETs can create.
\<close>

section \<open>State and operations\<close>

record 'd dictionary =
  bloom_enabled :: bool
  entries :: "(string, string) fmap"
  bloom :: "'d bloom_filter option"

definition max_dict_size :: nat where
  "max_dict_size = 1000000"

definition new_dictionary :: "'d dictionary" where
  "new_dictionary = \<lparr> bloom_enabled = False, entries = fmempty, bloom = None \<rparr>"

text \<open>\<open>getInstance\<close>: the instance is created by the first call only.\<close>

definition dict_getInstance :: "'d dictionary option \<Rightarrow> 'd dictionary" where
  "dict_getInstance inst = (case inst of None \<Rightarrow> new_dictionary | Some d \<Rightarrow> d)"

definition dict_size :: "'d dictionary \<Rightarrow> nat" where
  "dict_size d = fcard (fmdom (entries d))"

definition dict_bloom_parameters :: "'d fpu \<Rightarrow> 'd bloom_parameters" where
  "dict_bloom_parameters F = (new_bloom_parameters F)
     \<lparr> param_element_count := word_of_nat max_dict_size, false_positive_probability := fp_lit F 1 4 \<rparr>"

definition initBloomFilters ::
  "'d fpu \<Rightarrow> (u32 \<Rightarrow> nat \<Rightarrow> u32) \<Rightarrow> 'd dictionary \<Rightarrow> 'd dictionary res" where
  "initBloomFilters F srand d =
     rbind (compute_optimal_parameters F (dict_bloom_parameters F)) (\<lambda>(_, p).
     rbind (new_bloom_filter srand p) (\<lambda>f. Inr (d\<lparr>bloom := Some f\<rparr>)))"

definition enableBloomFilter ::
  "'d fpu \<Rightarrow> (u32 \<Rightarrow> nat \<Rightarrow> u32) \<Rightarrow> 'd dictionary \<Rightarrow> bool \<Rightarrow> 'd dictionary res" where
  "enableBloomFilter F srand d enable =
     (let d' = d\<lparr>bloom_enabled := enable\<rparr> in
      if enable then initBloomFilters F srand d' else Inr d')"

text \<open>
  \<open>set\<close> in its two parts: the size test before the lock is taken, and what is done under the lock.
\<close>

definition set_is_full :: "'d dictionary \<Rightarrow> bool" where
  "set_is_full d \<longleftrightarrow> max_dict_size \<le> dict_size d"

definition set_locked :: "'d dictionary \<Rightarrow> string \<Rightarrow> string \<Rightarrow> 'd dictionary res" where
  "set_locked d key val =
     rbind (if bloom_enabled d
            then (case bloom d of
                    None \<Rightarrow> Inl Null_deref
                  | Some f \<Rightarrow> rbind (insert_string compute_indices f key) (\<lambda>f'. Inr (d\<lparr>bloom := Some f'\<rparr>)))
            else Inr d)
       (\<lambda>d'. Inr (d'\<lparr>entries := fmupd key val (entries d')\<rparr>))"

definition dict_set :: "'d dictionary \<Rightarrow> string \<Rightarrow> string \<Rightarrow> (bool \<times> 'd dictionary) res" where
  "dict_set d key val =
     (if set_is_full d then Inr (False, d)
      else rbind (set_locked d key val) (\<lambda>d'. Inr (True, d')))"

text \<open>\<open>get\<close>: the returned flag and the out parameter, whose value on entry is \<open>val\<close>.\<close>

definition dict_get :: "'d dictionary \<Rightarrow> string \<Rightarrow> string \<Rightarrow> (bool \<times> string) res" where
  "dict_get d key val =
     (if bloom_enabled d then
        (case bloom d of
           None \<Rightarrow> Inl Null_deref
         | Some f \<Rightarrow> rbind (contains_string compute_indices f key) (\<lambda>c.
             if c then
               (let val' = (case fmlookup (entries d) key of Some v \<Rightarrow> v | None \<Rightarrow> val)
                in Inr (False, val'))
             else Inr (False, ''NOT_FOUND'')))
      else
        (case fmlookup (entries d) key of
           Some v \<Rightarrow> Inr (True, v)
         | None \<Rightarrow> Inr (False, ''NOT_FOUND'')))"

section \<open>Specification\<close>

text \<open>What the store promises: a partial map that never has more than a million keys.\<close>

type_synonym store = "string \<rightharpoonup> string"

definition spec_set :: "store \<Rightarrow> string \<Rightarrow> string \<Rightarrow> bool \<times> store" where
  "spec_set m key val =
     (if max_dict_size \<le> card (dom m) then (False, m) else (True, m(key \<mapsto> val)))"

definition spec_get :: "store \<Rightarrow> string \<Rightarrow> bool \<times> string" where
  "spec_get m key = (case m key of Some v \<Rightarrow> (True, v) | None \<Rightarrow> (False, ''NOT_FOUND''))"

definition dict_abs :: "'d dictionary \<Rightarrow> store" where
  "dict_abs d = fmlookup (entries d)"

text \<open>The invariant: bounded, and every stored key is a member of an enabled filter.\<close>

definition filter_covers :: "'d dictionary \<Rightarrow> bool" where
  "filter_covers d \<longleftrightarrow>
     (bloom_enabled d \<longrightarrow> (\<exists>f. bloom d = Some f \<and> bf.covers f (bytes_of ` dom (dict_abs d))))"

definition dict_ok :: "'d dictionary \<Rightarrow> bool" where
  "dict_ok d \<longleftrightarrow> dict_size d \<le> max_dict_size \<and> filter_covers d"

lemma dict_size_abs: "dict_size d = card (dom (dict_abs d))"
  by (simp add: dict_size_def dict_abs_def fcard.rep_eq fmdom.rep_eq)

lemma finite_dom_dict_abs [simp]: "finite (dom (dict_abs d))"
  by (simp add: dict_abs_def)

lemma fmlookup_fmupd_map: "fmlookup (fmupd k v m) = (fmlookup m)(k \<mapsto> v)"
  by (simp add: fun_eq_iff)

lemma dict_abs_fmupd [simp]: "dict_abs (d\<lparr>entries := fmupd k v (entries d)\<rparr>) = (dict_abs d)(k \<mapsto> v)"
  by (simp add: dict_abs_def fun_eq_iff)

lemma dict_abs_bloom [simp]: "dict_abs (d\<lparr>bloom := b\<rparr>) = dict_abs d"
  by (simp add: dict_abs_def)

lemma dict_size_fmupd:
  "dict_size (d\<lparr>entries := fmupd k v (entries d)\<rparr>) \<le> Suc (dict_size d)"
  by (simp add: dict_size_abs card_insert_if)

lemma new_dictionary_ok: "dict_ok new_dictionary"
  by (simp add: dict_ok_def new_dictionary_def dict_size_abs dict_abs_def filter_covers_def)

section \<open>Refinement\<close>

text \<open>What happens under the lock: the map is updated, and an enabled filter keeps covering it.\<close>

lemma set_locked_refines:
  assumes "filter_covers d"
  shows "\<exists>d'. set_locked d k v = Inr d' \<and> filter_covers d' \<and> bloom_enabled d' = bloom_enabled d \<and>
    dict_abs d' = (dict_abs d)(k \<mapsto> v)"
proof (cases "bloom_enabled d")
  case False
  then show ?thesis by (simp add: set_locked_def filter_covers_def)
next
  case True
  with assms obtain f where f: "bloom d = Some f" "bf.covers f (bytes_of ` dom (dict_abs d))"
    by (auto simp: filter_covers_def)
  from bf.covers_ins [OF f(2), of "bytes_of k"] obtain f' where f':
      "bf_insert compute_indices f (bytes_of k) = Inr f'"
      "bf.covers f' (insert (bytes_of k) (bytes_of ` dom (dict_abs d)))"
    by blast
  then show ?thesis
    using True f by (simp add: set_locked_def insert_string_def filter_covers_def dict_abs_def fmlookup_fmupd_map)
qed

lemma dict_set_refines:
  assumes "dict_ok d"
  shows "\<exists>b d'. dict_set d k v = Inr (b, d') \<and> dict_ok d' \<and> bloom_enabled d' = bloom_enabled d \<and>
    (b, dict_abs d') = spec_set (dict_abs d) k v"
proof (cases "set_is_full d")
  case True
  with assms show ?thesis
    by (auto simp: dict_set_def spec_set_def set_is_full_def dict_size_abs)
next
  case False
  from assms have "filter_covers d" by (simp add: dict_ok_def)
  from set_locked_refines [OF this] obtain d' where d': "set_locked d k v = Inr d'"
      "filter_covers d'" "bloom_enabled d' = bloom_enabled d" "dict_abs d' = (dict_abs d)(k \<mapsto> v)"
    by blast
  from False have lt: "card (dom (dict_abs d)) < max_dict_size"
    by (simp add: set_is_full_def dict_size_abs)
  then have "dict_size d' \<le> max_dict_size"
    by (simp add: dict_size_abs d'(4) card_insert_if)
  with False d' lt show ?thesis
    by (auto simp: dict_set_def dict_ok_def spec_set_def)
qed

lemma dict_get_plain: "\<not> bloom_enabled d \<Longrightarrow> dict_get d k v0 = Inr (spec_get (dict_abs d) k)"
  by (simp add: dict_get_def spec_get_def dict_abs_def split: option.splits)

text \<open>
  With the filter on: the value of a stored key is found, but the flag is always \<open>false\<close>; a key
  that is not stored gives either \<open>NOT_FOUND\<close> or, on a false positive, leaves the out parameter.
\<close>

lemma dict_get_filtered:
  assumes "filter_covers d" and "bloom_enabled d"
  shows "\<exists>b. dict_get d k v0 = Inr (False,
    case dict_abs d k of Some v \<Rightarrow> v | None \<Rightarrow> if b then v0 else ''NOT_FOUND'')"
proof -
  from assms obtain f where f: "bloom d = Some f" "bf.covers f (bytes_of ` dom (dict_abs d))"
    by (auto simp: filter_covers_def)
  then have "bf_wf f" by (simp add: bf.covers_def)
  then obtain b where b: "bf_contains compute_indices f (bytes_of k) = Inr b"
    using bf.mem_ok by blast
  have "b" if "dict_abs d k = Some v" for v
    using bf.covers_not_mem [OF f(2), of "bytes_of k"] that b by (cases b) (auto simp: domI)
  then show ?thesis
    using assms(2) f(1) b
    by (cases b) (auto simp: dict_get_def contains_string_def dict_abs_def Let_def split: option.splits)
qed

section \<open>Concurrent SETs\<close>

text \<open>
  The size is tested before the lock is taken. A system of \<open>n\<close> worker threads that call \<open>set\<close>:
  \<open>Checked k v\<close> is a thread that has passed the test and not yet taken the lock.
\<close>

datatype set_pc = Set_idle | Checked string string

record 'd set_sys =
  shared_dict :: "'d dictionary"
  set_pcs :: "set_pc list"

inductive set_step :: "'d set_sys \<Rightarrow> 'd set_sys \<Rightarrow> bool" where
  check: "i < length (set_pcs s) \<Longrightarrow> set_pcs s ! i = Set_idle \<Longrightarrow> \<not> set_is_full (shared_dict s) \<Longrightarrow>
    set_step s (s\<lparr>set_pcs := (set_pcs s)[i := Checked k v]\<rparr>)"
| refuse: "i < length (set_pcs s) \<Longrightarrow> set_pcs s ! i = Set_idle \<Longrightarrow> set_is_full (shared_dict s) \<Longrightarrow>
    set_step s s"
| commit: "i < length (set_pcs s) \<Longrightarrow> set_pcs s ! i = Checked k v \<Longrightarrow>
    set_locked (shared_dict s) k v = Inr d' \<Longrightarrow>
    set_step s (s\<lparr>shared_dict := d', set_pcs := (set_pcs s)[i := Set_idle]\<rparr>)"

inductive_cases set_stepE: "set_step s t"

definition set_start :: "'d dictionary \<Rightarrow> nat \<Rightarrow> 'd set_sys" where
  "set_start d n = \<lparr> shared_dict = d, set_pcs = replicate n Set_idle \<rparr>"

inductive set_reachable :: "'d set_sys \<Rightarrow> 'd set_sys \<Rightarrow> bool" for s0 where
  set_refl: "set_reachable s0 s0"
| set_next: "set_reachable s0 s \<Longrightarrow> set_step s t \<Longrightarrow> set_reachable s0 t"

definition in_flight :: "set_pc list \<Rightarrow> nat" where
  "in_flight ps = sum_list (map (\<lambda>p. case p of Set_idle \<Rightarrow> 0 | Checked _ _ \<Rightarrow> 1) ps)"

lemma in_flight_update:
  "i < length ps \<Longrightarrow> in_flight (ps[i := p]) + (case ps ! i of Set_idle \<Rightarrow> 0 | Checked _ _ \<Rightarrow> 1) =
     in_flight ps + (case p of Set_idle \<Rightarrow> 0 | Checked _ _ \<Rightarrow> 1)"
  unfolding in_flight_def
  by (induction ps arbitrary: i) (auto split: nat.splits set_pc.splits simp: nth_Cons)

lemma in_flight_le: "in_flight ps \<le> length ps"
  unfolding in_flight_def by (induction ps) (auto split: set_pc.splits)

lemma in_flight_idle [simp]: "in_flight (replicate n Set_idle) = 0"
  by (simp add: in_flight_def)

definition set_bound :: "nat \<Rightarrow> 'd set_sys \<Rightarrow> bool" where
  "set_bound n s \<longleftrightarrow> length (set_pcs s) = n \<and> filter_covers (shared_dict s) \<and>
     dict_size (shared_dict s) + in_flight (set_pcs s) \<le> max_dict_size - 1 + n"

lemma set_step_bound:
  assumes "set_step s t" and "set_bound n s"
  shows "set_bound n t"
  using assms(1)
proof (cases rule: set_step.cases)
  case (check i k v)
  then have "dict_size (shared_dict s) \<le> max_dict_size - 1"
    by (simp add: set_is_full_def)
  moreover have "in_flight (set_pcs t) \<le> n"
    using in_flight_le [of "set_pcs t"] check assms(2) by (simp add: set_bound_def)
  ultimately show ?thesis
    using check assms(2) by (simp add: set_bound_def)
next
  case refuse
  then show ?thesis using assms(2) by simp
next
  case (commit i k v d')
  from assms(2) have "filter_covers (shared_dict s)" by (simp add: set_bound_def)
  from set_locked_refines [OF this, of k v] commit(4) have d': "filter_covers d'"
      "dict_abs d' = (dict_abs (shared_dict s))(k \<mapsto> v)"
    by auto
  then have "dict_size d' \<le> Suc (dict_size (shared_dict s))"
    by (simp add: dict_size_abs card_insert_if)
  moreover have "Suc (in_flight (set_pcs t)) = in_flight (set_pcs s)"
    using in_flight_update [of i "set_pcs s" Set_idle] commit by simp
  ultimately show ?thesis
    using commit assms(2) d' by (simp add: set_bound_def)
qed

lemma set_reachable_bound:
  assumes "set_reachable s0 s" and "set_bound n s0"
  shows "set_bound n s"
  using assms by (induction rule: set_reachable.induct) (auto intro: set_step_bound)

section \<open>Histories\<close>

text \<open>A sequence of calls with their results, on the dictionary and on the map it stands for.\<close>

datatype dict_op = Op_set string string | Op_get string

fun dict_exec :: "dict_op \<Rightarrow> 'd dictionary \<Rightarrow> ((bool \<times> string) \<times> 'd dictionary) res" where
  "dict_exec (Op_set k v) d = rbind (dict_set d k v) (\<lambda>(b, d'). Inr ((b, []), d'))"
| "dict_exec (Op_get k) d = rbind (dict_get d k []) (\<lambda>r. Inr (r, d))"

fun dict_run :: "dict_op list \<Rightarrow> 'd dictionary \<Rightarrow> ((bool \<times> string) list \<times> 'd dictionary) res" where
  "dict_run [] d = Inr ([], d)"
| "dict_run (x # xs) d = rbind (dict_exec x d) (\<lambda>(r, d1).
     rbind (dict_run xs d1) (\<lambda>(rs, d2). Inr (r # rs, d2)))"

fun spec_exec :: "dict_op \<Rightarrow> store \<Rightarrow> (bool \<times> string) \<times> store" where
  "spec_exec (Op_set k v) m = (let (b, m') = spec_set m k v in ((b, []), m'))"
| "spec_exec (Op_get k) m = (spec_get m k, m)"

fun spec_run :: "dict_op list \<Rightarrow> store \<Rightarrow> (bool \<times> string) list \<times> store" where
  "spec_run [] m = ([], m)"
| "spec_run (x # xs) m =
     (let (r, m1) = spec_exec x m; (rs, m2) = spec_run xs m1 in (r # rs, m2))"

lemma dict_exec_refines:
  assumes "dict_ok d" and "\<not> bloom_enabled d"
  shows "\<exists>r d'. dict_exec x d = Inr (r, d') \<and> dict_ok d' \<and> \<not> bloom_enabled d' \<and>
    spec_exec x (dict_abs d) = (r, dict_abs d')"
proof (cases x)
  case (Op_set k v)
  obtain b d' where d': "dict_set d k v = Inr (b, d')" "dict_ok d'" "bloom_enabled d' = bloom_enabled d"
      "(b, dict_abs d') = spec_set (dict_abs d) k v"
    using dict_set_refines [OF assms(1), of k v] by blast
  from d'(4) [symmetric] d'(1-3) assms(2) show ?thesis by (simp add: Op_set)
next
  case (Op_get k)
  then show ?thesis using assms by (simp add: dict_get_plain)
qed

lemma dict_run_refines:
  "dict_ok d \<Longrightarrow> \<not> bloom_enabled d \<Longrightarrow> \<exists>rs d'. dict_run xs d = Inr (rs, d') \<and> dict_ok d' \<and>
    \<not> bloom_enabled d' \<and> spec_run xs (dict_abs d) = (rs, dict_abs d')"
proof (induction xs arbitrary: d)
  case Nil
  then show ?case by simp
next
  case (Cons x xs)
  obtain r d1 where 1: "dict_exec x d = Inr (r, d1)" "dict_ok d1" "\<not> bloom_enabled d1"
      "spec_exec x (dict_abs d) = (r, dict_abs d1)"
    using dict_exec_refines [OF Cons.prems] by blast
  obtain rs d2 where 2: "dict_run xs d1 = Inr (rs, d2)" "dict_ok d2" "\<not> bloom_enabled d2"
      "spec_run xs (dict_abs d1) = (rs, dict_abs d2)"
    using Cons.IH [OF 1(2,3)] by blast
  from 1 2 show ?case by simp
qed

section \<open>Switching the filter on\<close>

lemma enable_replaces_filter:
  assumes "enableBloomFilter F srand d True = Inr d'"
  shows "bloom_enabled d' \<and> entries d' = entries d \<and>
    (\<exists>b p f. compute_optimal_parameters F (dict_bloom_parameters F) = Inr (b, p) \<and>
      new_bloom_filter srand p = Inr f \<and> bloom d' = Some f)"
  using assms by (auto simp: enableBloomFilter_def initBloomFilters_def)

lemma fresh_filter_misses:
  assumes "byte_sized (opt_table_size (optimal_parameters p))" and "new_bloom_filter srand p = Inr f"
    and "number_of_hashes (optimal_parameters p) \<noteq> 0"
  shows "bf_contains compute_indices f key = Inr False"
proof -
  note wf = new_bloom_filter_wf [OF assms(1,2)]
  then have "salts f \<noteq> []" using assms(3) by (auto simp: unat_eq_0)
  with wf show ?thesis by (simp add: bf.contains_refines bf.positions_def)
qed

section \<open>A dictionary of any size\<close>

definition filled :: "nat \<Rightarrow> 'd dictionary" where
  "filled n = \<lparr> bloom_enabled = False,
     entries = fmap_of_list (map (\<lambda>i. (replicate i CHR ''k'', [])) [0..<n]), bloom = None \<rparr>"

lemma dom_filled: "dom (dict_abs (filled n)) = (\<lambda>i. replicate i CHR ''k'') ` {0..<n}"
  by (simp add: dict_abs_def filled_def fmlookup_of_list dom_map_of_conv_image_fst image_image)

lemma dict_size_filled: "dict_size (filled n) = n"
proof -
  have "inj_on (\<lambda>i. replicate i CHR ''k'') {0..<n}"
    by (rule inj_onI) (metis length_replicate)
  then show ?thesis by (simp add: dict_size_abs dom_filled card_image)
qed

lemma filled_ok: "n \<le> max_dict_size \<Longrightarrow> dict_ok (filled n)"
  by (simp add: dict_ok_def dict_size_filled) (simp add: filter_covers_def filled_def)

section \<open>Properties\<close>

text \<open>C10: with the filter off, every sequence of \<open>set\<close> and \<open>get\<close> calls on a dictionary gives the
  results that the partial map bounded by a million keys gives, none of them fails in an undefined
  way, and the bound holds all the time.\<close>

theorem dictionary_is_bounded_map:
  assumes "dict_ok d" and "\<not> bloom_enabled d"
  shows "\<exists>rs d'. dict_run xs d = Inr (rs, d') \<and> dict_size d' \<le> max_dict_size \<and>
    spec_run xs (dict_abs d) = (rs, dict_abs d')"
  using dict_run_refines [OF assms, of xs] by (auto simp: dict_ok_def)

theorem dictionary_is_bounded_map_witness:
  "\<exists>d'. dict_run [Op_set ''k'' ''v'', Op_get ''k'', Op_get ''x''] (new_dictionary :: unit dictionary) =
    Inr ([(True, []), (True, ''v''), (False, ''NOT_FOUND'')], d')"
proof -
  have abs: "dict_abs (new_dictionary :: unit dictionary) = Map.empty" and "\<not> bloom_enabled (new_dictionary :: unit dictionary)"
    by (simp_all add: dict_abs_def new_dictionary_def fun_eq_iff)
  from dictionary_is_bounded_map [OF new_dictionary_ok this(2), of "[Op_set ''k'' ''v'', Op_get ''k'', Op_get ''x'']"]
  obtain rs d' where r: "dict_run [Op_set ''k'' ''v'', Op_get ''k'', Op_get ''x''] (new_dictionary :: unit dictionary) = Inr (rs, d')"
      "spec_run [Op_set ''k'' ''v'', Op_get ''k'', Op_get ''x''] Map.empty = (rs, dict_abs d')"
    unfolding abs by blast
  from r(2) have "rs = [(True, []), (True, ''v''), (False, ''NOT_FOUND'')]"
    by (simp add: spec_set_def spec_get_def max_dict_size_def Let_def)
  with r(1) show ?thesis by blast
qed

text \<open>With the filter on, \<open>set\<close> still acts as on the map and keeps the filter covering the keys,
  but no \<open>get\<close> ever reports success: the value of a stored key comes with the flag \<open>false\<close>, and for a
  key that is not stored the out parameter is either \<open>NOT_FOUND\<close> or left as it was.\<close>

theorem filtered_dictionary:
  assumes "dict_ok d" and "bloom_enabled d"
  shows "(\<exists>r. dict_get d k v0 = Inr (False, r) \<and>
      (case dict_abs d k of Some v \<Rightarrow> r = v | None \<Rightarrow> r = v0 \<or> r = ''NOT_FOUND'')) \<and>
    (\<exists>b d'. dict_set d k v = Inr (b, d') \<and> dict_ok d' \<and> bloom_enabled d' \<and>
      (b, dict_abs d') = spec_set (dict_abs d) k v)"
proof -
  from assms(1) have "filter_covers d" by (simp add: dict_ok_def)
  from dict_get_filtered [OF this assms(2), of k v0] dict_set_refines [OF assms(1), of k v] assms(2)
  show ?thesis by (auto split: option.splits if_splits)
qed

definition filtered_sample :: "real option dictionary" where
  "filtered_sample = \<lparr> bloom_enabled = True, entries = fmempty, bloom = Some sample_filter \<rparr>"

theorem filtered_dictionary_witness:
  "\<exists>r b d'. dict_get filtered_sample ''k'' [] = Inr (False, r) \<and>
    dict_set filtered_sample ''k'' ''v'' = Inr (b, d') \<and> dict_abs d' ''k'' = Some ''v''"
proof -
  have "dict_abs filtered_sample = Map.empty"
    by (simp add: dict_abs_def filtered_sample_def fun_eq_iff)
  moreover from this have "dict_ok filtered_sample"
    using sample_filter_wf
    using \<open>dict_abs filtered_sample = Map.empty\<close> unfolding dict_ok_def dict_size_abs filter_covers_def
    by (simp add: bf.covers_def) (simp add: filtered_sample_def)
  ultimately show ?thesis
    using filtered_dictionary [of filtered_sample "''k''" "[]" "''v''"]
    by (auto simp: filtered_sample_def spec_set_def max_dict_size_def)
qed

text \<open>Switching the filter on replaces it by an empty one: every key stored before is then
  reported as \<open>NOT_FOUND\<close>, although it is still stored.\<close>

theorem enabling_hides_stored_keys:
  assumes "enableBloomFilter F srand d True = Inr d'"
    and "compute_optimal_parameters F (dict_bloom_parameters F) = Inr (b, p)"
    and "byte_sized (opt_table_size (optimal_parameters p))"
    and "number_of_hashes (optimal_parameters p) \<noteq> 0"
    and "dict_abs d k = Some v"
  shows "dict_abs d' k = Some v \<and> dict_get d' k v0 = Inr (False, ''NOT_FOUND'')"
proof -
  from enable_replaces_filter [OF assms(1)] assms(2) obtain f where
      f: "bloom_enabled d'" "entries d' = entries d" "new_bloom_filter srand p = Inr f" "bloom d' = Some f"
    by auto
  from fresh_filter_misses [OF assms(3) f(3) assms(4)] f assms(5) show ?thesis
    by (simp add: dict_get_def contains_string_def dict_abs_def)
qed

text \<open>A unit whose divisions all give 800: one hash function and 800 bits are found.\<close>

definition const_fpu :: "real option fpu" where
  "const_fpu = real_fpu\<lparr>fp_div := \<lambda>_ _. Some 800\<rparr>"

lemma const_fpu_ok: "fpu_ok const_fpu"
  using real_fpu_ok by (simp add: fpu_ok_def const_fpu_def)

lemma const_fpu_fold:
  "fold (opt_step const_fpu p) js (Some 800, k) = (Some 800, k)"
  by (induction js) (simp_all add: opt_step_def curr_m_def const_fpu_def real_fpu_def real_less_def Let_def)

lemma const_fpu_best: "best_choice const_fpu p = (Some 800, Some 1)"
proof -
  have "[1..<1000] = 1 # [Suc 1..<1000]" by (rule upt_conv_Cons) simp
  moreover have "opt_step const_fpu p 1 (fp_inf const_fpu, x) = (Some 800, Some 1)" for x
    by (simp add: opt_step_def curr_m_def const_fpu_def real_fpu_def real_less_def Let_def)
  ultimately show ?thesis
    unfolding best_choice_def by (simp only: fold_simps(2) const_fpu_fold)
qed

lemma const_fpu_parameters:
  "\<exists>p. compute_optimal_parameters const_fpu (dict_bloom_parameters const_fpu) = Inr (True, p) \<and>
    optimal_parameters p = \<lparr>number_of_hashes = 1, opt_table_size = 800\<rparr>"
proof -
  have "\<not> invalid_parameters const_fpu (dict_bloom_parameters const_fpu)"
    by (simp add: invalid_parameters_def dict_bloom_parameters_def new_bloom_parameters_def max_dict_size_def
        const_fpu_def real_fpu_def real_less_def)
  moreover have "fp_cast const_fpu 32 (Some 1) = Inr 1" "fp_cast const_fpu 64 (Some 800) = Inr 800"
    by (simp_all add: fp_cast_def const_fpu_def real_fpu_def real_trunc_def)
  moreover have "chosen_parameters (dict_bloom_parameters const_fpu) 1 800 =
      \<lparr>number_of_hashes = 1, opt_table_size = 800\<rparr>"
    by (simp add: chosen_parameters_def dict_bloom_parameters_def new_bloom_parameters_def clamp_word_def
        round_up_size_def bits_per_char_def)
  ultimately show ?thesis
    using compute_optimal_parameters_valid [OF const_fpu_ok _ const_fpu_best]
    by simp
qed

theorem enabling_hides_stored_keys_witness:
  "\<exists>d'. enableBloomFilter const_fpu (\<lambda>_ _. 7) (filled 1) True = Inr d' \<and>
    dict_abs d' [] = Some [] \<and> dict_get d' [] [] = Inr (False, ''NOT_FOUND'')"
proof -
  obtain p where p: "compute_optimal_parameters const_fpu (dict_bloom_parameters const_fpu) = Inr (True, p)"
      "optimal_parameters p = \<lparr>number_of_hashes = 1, opt_table_size = 800\<rparr>"
    using const_fpu_parameters by blast
  obtain f where f: "new_bloom_filter (\<lambda>_ _. 7) p = Inr f"
    using constructed_filter_exists [of p "\<lambda>_ _. 7"] p(2) by auto
  have "enableBloomFilter const_fpu (\<lambda>_ _. 7) (filled 1) True =
      Inr ((filled 1)\<lparr>bloom_enabled := True, bloom := Some f\<rparr>)"
    by (simp add: enableBloomFilter_def initBloomFilters_def p(1) f del: rbind_Inr_iff)
  moreover have "dict_abs (filled 1) [] = Some []"
    by (simp add: dict_abs_def filled_def fmlookup_of_list)
  ultimately show ?thesis
    using enabling_hides_stored_keys [OF _ p(1), of "\<lambda>_ _. 7" "filled 1" _ "[]" "[]" "[]"] p(2)
    by (simp add: byte_sized_def)
qed

text \<open>C24: in every interleaving of \<open>n\<close> threads that call \<open>set\<close> the filter keeps covering the stored
  keys, and there are never more than \<open>max_dict_size + n - 1\<close> entries.\<close>

theorem concurrent_sets_bound:
  assumes "dict_ok d" and "dict_size d < max_dict_size" and "set_reachable (set_start d n) s"
  shows "filter_covers (shared_dict s) \<and> dict_size (shared_dict s) \<le> max_dict_size + n - 1"
proof -
  have "set_bound n (set_start d n)"
    using assms(1,2) by (simp add: set_bound_def set_start_def dict_ok_def)
  from set_reachable_bound [OF assms(3) this] show ?thesis
    by (auto simp: set_bound_def max_dict_size_def)
qed

theorem concurrent_sets_bound_witness:
  "dict_size (filled 5 :: unit dictionary) = 5 \<and>
   dict_size (shared_dict (set_start (filled 5 :: unit dictionary) 4)) \<le> max_dict_size + 4 - 1"
proof -
  have "dict_ok (filled 5 :: unit dictionary)" "dict_size (filled 5 :: unit dictionary) < max_dict_size"
    by (simp_all add: filled_ok dict_size_filled max_dict_size_def)
  from concurrent_sets_bound [OF this set_refl, of 4] show ?thesis by (simp add: dict_size_filled)
qed

text \<open>The limit of \<open>MAX_DICT_SIZE\<close> entries can be exceeded: with one place left, two threads that
  store different new keys can both pass the size test before either of them stores.\<close>

theorem size_limit_can_be_exceeded:
  assumes "dict_ok d" and "dict_size d = max_dict_size - 1"
    and "k1 \<notin> dom (dict_abs d)" and "k2 \<notin> dom (dict_abs d)" and "k1 \<noteq> k2"
  shows "\<exists>s. set_reachable (set_start d 2) s \<and> dict_size (shared_dict s) = max_dict_size + 1"
proof -
  have room: "\<not> set_is_full d" using assms(2) by (simp add: set_is_full_def max_dict_size_def)
  have cov: "filter_covers d" using assms(1) by (simp add: dict_ok_def)
  obtain d1 where d1: "set_locked d k1 v1 = Inr d1" "filter_covers d1" "dict_abs d1 = (dict_abs d)(k1 \<mapsto> v1)"
    using set_locked_refines [OF cov] by blast
  obtain d2 where d2: "set_locked d1 k2 v2 = Inr d2" "dict_abs d2 = (dict_abs d1)(k2 \<mapsto> v2)"
    using set_locked_refines [OF d1(2)] by blast
  let ?s0 = "set_start d 2"
  let ?s1 = "?s0\<lparr>set_pcs := [Checked k1 v1, Set_idle]\<rparr>"
  let ?s2 = "?s1\<lparr>set_pcs := [Checked k1 v1, Checked k2 v2]\<rparr>"
  let ?s3 = "?s2\<lparr>shared_dict := d1, set_pcs := [Set_idle, Checked k2 v2]\<rparr>"
  let ?s4 = "?s3\<lparr>shared_dict := d2, set_pcs := [Set_idle, Set_idle]\<rparr>"
  have pcs: "set_pcs ?s0 = [Set_idle, Set_idle]" "shared_dict ?s0 = d"
    by (simp_all add: set_start_def numeral_2_eq_2)
  have s1: "set_step ?s0 ?s1" using set_step.check [of 0 ?s0 k1 v1] room pcs by simp
  have s2: "set_step ?s1 ?s2" using set_step.check [of 1 ?s1 k2 v2] room pcs by simp
  have s3: "set_step ?s2 ?s3" using set_step.commit [of 0 ?s2 k1 v1 d1] d1(1) pcs by simp
  have s4: "set_step ?s3 ?s4" using set_step.commit [of 1 ?s3 k2 v2 d2] d2(1) by simp
  have "set_reachable ?s0 ?s4"
    by (rule set_next [OF set_next [OF set_next [OF set_next [OF set_refl s1] s2] s3] s4])
  moreover have "dict_size d2 = max_dict_size + 1"
    using assms(2-5) by (simp add: dict_size_abs d2(2) d1(3) max_dict_size_def)
  ultimately show ?thesis by (intro exI [of _ ?s4]) simp
qed

theorem size_limit_can_be_exceeded_witness:
  "\<exists>s. set_reachable (set_start (filled (max_dict_size - 1) :: unit dictionary) 2) s \<and>
    dict_size (shared_dict s) = max_dict_size + 1"
proof -
  have "''a'' \<noteq> replicate i CHR ''k''" "''b'' \<noteq> replicate i CHR ''k''" for i
    by (cases i; simp)+
  then have "''a'' \<notin> dom (dict_abs (filled n :: unit dictionary))" "''b'' \<notin> dom (dict_abs (filled n :: unit dictionary))" for n
    by (auto simp: dom_filled)
  then show ?thesis
    by (intro size_limit_can_be_exceeded [of _ "''a''" "''b''"]) (simp_all add: filled_ok dict_size_filled)
qed

end
