(* ===== verification/Stats.thy ===== *)
theory Stats
  imports Prelude
begin

text \<open>
  The singleton \<open>Stats\<close> (\<open>server/src/Stats.cpp\<close>): three 64-bit counters of GET requests.
\<close>

record stats =
  num_get_req :: u64
  num_get_req_succ :: u64
  num_get_req_fail :: u64

definition new_stats :: stats where
  "new_stats = \<lparr> num_get_req = 0, num_get_req_succ = 0, num_get_req_fail = 0 \<rparr>"

definition stats_getInstance :: "stats option \<Rightarrow> stats" where
  "stats_getInstance inst = (case inst of None \<Rightarrow> new_stats | Some s \<Rightarrow> s)"

definition incrGetReq :: "stats \<Rightarrow> stats" where
  "incrGetReq s = s\<lparr>num_get_req := num_get_req s + 1\<rparr>"

definition incrGetReqSucc :: "stats \<Rightarrow> stats" where
  "incrGetReqSucc s = s\<lparr>num_get_req_succ := num_get_req_succ s + 1\<rparr>"

definition incrGetReqFail :: "stats \<Rightarrow> stats" where
  "incrGetReqFail s = s\<lparr>num_get_req_fail := num_get_req_fail s + 1\<rparr>"

definition getNumGetReq :: "stats \<Rightarrow> u64" where
  "getNumGetReq s = num_get_req s"

definition getNumGetReqSucc :: "stats \<Rightarrow> u64" where
  "getNumGetReqSucc s = num_get_req_succ s"

definition getNumGetReqFail :: "stats \<Rightarrow> u64" where
  "getNumGetReqFail s = num_get_req_fail s"

lemmas stats_defs = new_stats_def incrGetReq_def incrGetReqSucc_def incrGetReqFail_def
  getNumGetReq_def getNumGetReqSucc_def getNumGetReqFail_def

text \<open>Between requests every GET has been counted as a success or as a failure.\<close>

definition stats_balanced :: "stats \<Rightarrow> bool" where
  "stats_balanced s \<longleftrightarrow> num_get_req s = num_get_req_succ s + num_get_req_fail s"

lemma stats_balanced_new: "stats_balanced new_stats"
  by (simp add: stats_balanced_def stats_defs)

lemma stats_balanced_succ: "stats_balanced s \<Longrightarrow> stats_balanced (incrGetReqSucc (incrGetReq s))"
  by (simp add: stats_balanced_def stats_defs)

lemma stats_balanced_fail: "stats_balanced s \<Longrightarrow> stats_balanced (incrGetReqFail (incrGetReq s))"
  by (simp add: stats_balanced_def stats_defs)

lemmas stats_inv [rd_inv] = stats_balanced_new stats_balanced_succ stats_balanced_fail

end
