(* ===== verification/Payload.thy ===== *)
theory Payload
  imports Prelude
begin

text \<open>
  The messages of \<open>protobuf/src/messagebody.proto\<close> (proto2: every field records whether it is
  set) and the interface of the serialisation that \<open>protoc\<close> generates from it, as the locale
  \<open>message_codec\<close>.
\<close>

section \<open>Messages\<close>

datatype request_type = GET | SET | STAT

text \<open>The enumeration is ordered by its numbers.\<close>

fun request_number :: "request_type \<Rightarrow> nat" where
  "request_number GET = 1"
| "request_number SET = 2"
| "request_number STAT = 3"

instantiation request_type :: linorder
begin

definition less_eq_request_type :: "request_type \<Rightarrow> request_type \<Rightarrow> bool" where
  "less_eq_request_type a b \<longleftrightarrow> request_number a \<le> request_number b"

definition less_request_type :: "request_type \<Rightarrow> request_type \<Rightarrow> bool" where
  "less_request_type a b \<longleftrightarrow> request_number a < request_number b"

instance
proof
  fix x y z :: request_type
  show "x < y \<longleftrightarrow> x \<le> y \<and> \<not> y \<le> x"
    by (auto simp: less_eq_request_type_def less_request_type_def)
  show "x \<le> x"
    by (simp add: less_eq_request_type_def)
  show "x \<le> y \<Longrightarrow> y \<le> z \<Longrightarrow> x \<le> z"
    by (simp add: less_eq_request_type_def)
  show "x \<le> y \<Longrightarrow> y \<le> x \<Longrightarrow> x = y"
    by (cases x; cases y) (simp_all add: less_eq_request_type_def)
  show "x \<le> y \<or> y \<le> x"
    by (auto simp: less_eq_request_type_def)
qed

end

record stat_msg =
  numgetreq :: "int32 option"
  numsuccgetreq :: "int32 option"
  numfailgetreq :: "int32 option"

record payload =
  pb_requesttype :: "request_type option"
  pb_key :: "string option"
  pb_value :: "string option"
  pb_stats :: "stat_msg option"
  pb_reason :: "string option"

definition empty_stat :: stat_msg where
  "empty_stat = \<lparr> numgetreq = None, numsuccgetreq = None, numfailgetreq = None \<rparr>"

definition empty_payload :: payload where
  "empty_payload = \<lparr> pb_requesttype = None, pb_key = None, pb_value = None,
     pb_stats = None, pb_reason = None \<rparr>"

text \<open>\<open>key()\<close> and the other getters give the default of an unset field.\<close>

definition get_str :: "string option \<Rightarrow> string" where
  "get_str x = (case x of None \<Rightarrow> [] | Some s \<Rightarrow> s)"

definition initialized :: "payload \<Rightarrow> bool" where
  "initialized p \<longleftrightarrow> pb_requesttype p \<noteq> None"

section \<open>The interface of the generated serialisation\<close>

text \<open>
  \<open>ser\<close> is \<open>SerializeToArray\<close>, whose length is \<open>ByteSizeLong\<close>; \<open>par\<close> is \<open>ParseFromArray\<close>, with the
  returned flag and the message as it is left. Parsing inverts serialising; no bytes give an empty
  message; a zero byte ends the message (there is no field number 0), and the fields before it have
  been read.
\<close>

locale message_codec =
  fixes ser :: "payload \<Rightarrow> byte list"
    and par :: "byte list \<Rightarrow> bool \<times> payload"
  assumes par_ser: "initialized p \<Longrightarrow> par (ser p) = (True, p)"
    and par_nil: "par [] = (False, empty_payload)"
    and par_ser_zero: "initialized p \<Longrightarrow> snd (par (ser p @ [0])) = p"
begin

lemma ser_inj: "initialized p \<Longrightarrow> initialized q \<Longrightarrow> ser p = ser q \<Longrightarrow> p = q"
  by (metis par_ser prod.inject)

lemma ser_nonempty: "initialized p \<Longrightarrow> ser p \<noteq> []"
  by (metis par_nil par_ser prod.inject)

end

end
