(* ===== verification/Wire.thy ===== *)
theory Wire
  imports Payload
begin

text \<open>
  The wire format of the message type of \<open>protobuf/src/messagebody.proto\<close>: tags made of the field
  numbers of that file, base-128 varints, length-delimited strings and the nested message. It is
  the instance of the interface \<open>message_codec\<close> that the closed examples run on.
\<close>

section \<open>Encoding\<close>

fun varint :: "nat \<Rightarrow> byte list" where
  "varint n = (if n < 128 then [word_of_nat n] else word_of_nat (n mod 128 + 128) # varint (n div 128))"

declare varint.simps [simp del]

definition wire_int32 :: "byte \<Rightarrow> int32 option \<Rightarrow> byte list" where
  "wire_int32 tag x = (case x of None \<Rightarrow> [] | Some v \<Rightarrow> tag # varint (unat (scast v :: u64)))"

definition wire_delimited :: "byte \<Rightarrow> byte list \<Rightarrow> byte list" where
  "wire_delimited tag bs = tag # varint (length bs) @ bs"

definition wire_string :: "byte \<Rightarrow> string option \<Rightarrow> byte list" where
  "wire_string tag x = (case x of None \<Rightarrow> [] | Some s \<Rightarrow> wire_delimited tag (bytes_of s))"

definition wire_stat :: "stat_msg \<Rightarrow> byte list" where
  "wire_stat s = wire_int32 0x08 (numgetreq s) @ wire_int32 0x10 (numsuccgetreq s) @
     wire_int32 0x18 (numfailgetreq s)"

definition wire_ser :: "payload \<Rightarrow> byte list" where
  "wire_ser p =
     (case pb_requesttype p of None \<Rightarrow> [] | Some t \<Rightarrow> 0x08 # varint (request_number t)) @
     wire_string 0x12 (pb_key p) @
     wire_string 0x1A (pb_value p) @
     (case pb_stats p of None \<Rightarrow> [] | Some s \<Rightarrow> wire_delimited 0x22 (wire_stat s)) @
     wire_string 0x2A (pb_reason p)"

section \<open>Decoding\<close>

fun get_varint :: "byte list \<Rightarrow> (nat \<times> byte list) option" where
  "get_varint [] = None"
| "get_varint (b # bs) =
     (if unat b < 128 then Some (unat b, bs)
      else case get_varint bs of None \<Rightarrow> None | Some (n, r) \<Rightarrow> Some (unat b - 128 + 128 * n, r))"

definition get_delimited :: "byte list \<Rightarrow> (byte list \<times> byte list) option" where
  "get_delimited bs =
     (case get_varint bs of None \<Rightarrow> None
      | Some (n, r) \<Rightarrow> if n \<le> length r then Some (take n r, drop n r) else None)"

definition string_of :: "byte list \<Rightarrow> string" where
  "string_of bs = map (\<lambda>b. char_of (unat b)) bs"

definition request_of_number :: "nat \<Rightarrow> request_type option" where
  "request_of_number n = (if n = 1 then Some GET else if n = 2 then Some SET
     else if n = 3 then Some STAT else None)"

text \<open>
  The loop over the fields of a message, given how one field is read; it ends at the end of the
  bytes, at a zero tag, or at a field that cannot be read.
\<close>

fun field_loop :: "(byte \<Rightarrow> byte list \<Rightarrow> 'm \<Rightarrow> ('m \<times> byte list) option) \<Rightarrow> byte list \<Rightarrow> 'm \<Rightarrow> bool \<times> 'm" where
  "field_loop rd [] m = (True, m)"
| "field_loop rd (tag # bs) m =
     (if tag = 0 then (False, m)
      else case rd tag bs m of
             None \<Rightarrow> (False, m)
           | Some (m', r) \<Rightarrow> if length r \<le> length bs then field_loop rd r m' else (False, m'))"

definition read_stat_field :: "byte \<Rightarrow> byte list \<Rightarrow> stat_msg \<Rightarrow> (stat_msg \<times> byte list) option" where
  "read_stat_field tag bs s =
     (case get_varint bs of None \<Rightarrow> None
      | Some (n, r) \<Rightarrow>
          if tag = 0x08 then Some (s\<lparr>numgetreq := Some (word_of_nat n)\<rparr>, r)
          else if tag = 0x10 then Some (s\<lparr>numsuccgetreq := Some (word_of_nat n)\<rparr>, r)
          else if tag = 0x18 then Some (s\<lparr>numfailgetreq := Some (word_of_nat n)\<rparr>, r)
          else None)"

definition read_field :: "byte \<Rightarrow> byte list \<Rightarrow> payload \<Rightarrow> (payload \<times> byte list) option" where
  "read_field tag bs p =
     (if tag = 0x08 then
        (case get_varint bs of None \<Rightarrow> None
         | Some (n, r) \<Rightarrow> Some (case request_of_number n of None \<Rightarrow> p
             | Some t \<Rightarrow> p\<lparr>pb_requesttype := Some t\<rparr>, r))
      else
        (case get_delimited bs of None \<Rightarrow> None
         | Some (x, r) \<Rightarrow>
             if tag = 0x12 then Some (p\<lparr>pb_key := Some (string_of x)\<rparr>, r)
             else if tag = 0x1A then Some (p\<lparr>pb_value := Some (string_of x)\<rparr>, r)
             else if tag = 0x22 then
               (let (ok, s) = field_loop read_stat_field x
                      (case pb_stats p of None \<Rightarrow> empty_stat | Some s \<Rightarrow> s)
                in if ok then Some (p\<lparr>pb_stats := Some s\<rparr>, r) else None)
             else if tag = 0x2A then Some (p\<lparr>pb_reason := Some (string_of x)\<rparr>, r)
             else None))"

definition wire_par :: "byte list \<Rightarrow> bool \<times> payload" where
  "wire_par bs = (let (ok, p) = field_loop read_field bs empty_payload in (ok \<and> initialized p, p))"

section \<open>Round trip\<close>

lemma get_varint_varint [simp]: "get_varint (varint n @ r) = Some (n, r)"
proof (induction n rule: varint.induct)
  case (1 n)
  show ?case
  proof (cases "n < 128")
    case True
    then have "unat (word_of_nat n :: byte) = n" by (simp add: unat_of_nat)
    with True show ?thesis by (subst varint.simps) simp
  next
    case False
    have "n mod 128 + 128 < 256" by simp
    then have "unat (word_of_nat (n mod 128 + 128) :: byte) = n mod 128 + 128"
      by (simp only: unat_of_nat) simp
    with False "1.IH" show ?thesis by (subst varint.simps) simp
  qed
qed

lemma unat_of_char [simp]: "unat (of_char c :: byte) = of_char c"
proof -
  have "(of_char c :: byte) = word_of_nat (of_char c)"
    by (simp only: of_nat_of_char)
  moreover have "(of_char c :: nat) < 256"
    by simp
  ultimately show ?thesis
    by (simp only: unat_of_nat) simp
qed

lemma string_of_bytes_of [simp]: "string_of (bytes_of s) = s"
  by (induction s) (simp_all add: string_of_def bytes_of_def)

lemma get_delimited_append [simp]: "get_delimited (varint (length x) @ x @ r) = Some (x, r)"
  by (simp add: get_delimited_def)

lemma int32_ucast_scast [simp]: "(ucast (scast (v :: int32) :: u64) :: int32) = v"
  by (rule bit_word_eqI) (simp add: bit_simps)

lemma int32_round [simp]: "(word_of_nat (unat (scast (v :: int32) :: u64)) :: int32) = v"
  by simp

lemma request_of_request_number [simp]: "request_of_number (request_number t) = Some t"
  by (cases t) (simp_all add: request_of_number_def)

lemma field_loop_string:
  assumes "tag \<noteq> 0" and "\<And>x r m. s = Some x \<Longrightarrow>
      rd tag (varint (length x) @ bytes_of x @ r) m = Some (upd x m, r)"
  shows "field_loop rd (wire_string tag s @ r) m = field_loop rd r (case s of None \<Rightarrow> m | Some x \<Rightarrow> upd x m)"
  using assms by (cases s) (simp_all add: wire_string_def wire_delimited_def)

lemma field_loop_int32:
  assumes "tag \<noteq> 0" and "\<And>v r m. x = Some v \<Longrightarrow>
      rd tag (varint (unat (scast v :: u64)) @ r) m = Some (upd v m, r)"
  shows "field_loop rd (wire_int32 tag x @ r) m = field_loop rd r (case x of None \<Rightarrow> m | Some v \<Rightarrow> upd v m)"
  using assms by (cases x) (simp_all add: wire_int32_def)

lemma read_stat: "field_loop read_stat_field (wire_stat s @ []) empty_stat = (True, s)"
proof -
  have s1: "field_loop read_stat_field (wire_int32 0x08 (numgetreq s) @ q) m = field_loop read_stat_field q
      (case numgetreq s of None \<Rightarrow> m | Some v \<Rightarrow> m\<lparr>numgetreq := Some v\<rparr>)" for q m
    by (rule field_loop_int32) (simp_all add: read_stat_field_def)
  have s2: "field_loop read_stat_field (wire_int32 0x10 (numsuccgetreq s) @ q) m = field_loop read_stat_field q
      (case numsuccgetreq s of None \<Rightarrow> m | Some v \<Rightarrow> m\<lparr>numsuccgetreq := Some v\<rparr>)" for q m
    by (rule field_loop_int32) (simp_all add: read_stat_field_def)
  have s3: "field_loop read_stat_field (wire_int32 0x18 (numfailgetreq s) @ q) m = field_loop read_stat_field q
      (case numfailgetreq s of None \<Rightarrow> m | Some v \<Rightarrow> m\<lparr>numfailgetreq := Some v\<rparr>)" for q m
    by (rule field_loop_int32) (simp_all add: read_stat_field_def)
  show ?thesis
    unfolding wire_stat_def append_assoc s1 s2 s3
    by (cases s) (simp add: empty_stat_def split: option.splits)
qed

text \<open>Reading back a message that is followed by other bytes.\<close>

lemma field_loop_wire_ser: "field_loop read_field (wire_ser p @ r) empty_payload = field_loop read_field r p"
proof -
  let ?p1 = "case pb_requesttype p of None \<Rightarrow> empty_payload
    | Some t \<Rightarrow> empty_payload\<lparr>pb_requesttype := Some t\<rparr>"
  let ?p2 = "case pb_key p of None \<Rightarrow> ?p1 | Some x \<Rightarrow> ?p1\<lparr>pb_key := Some x\<rparr>"
  let ?p3 = "case pb_value p of None \<Rightarrow> ?p2 | Some x \<Rightarrow> ?p2\<lparr>pb_value := Some x\<rparr>"
  let ?p4 = "case pb_stats p of None \<Rightarrow> ?p3 | Some x \<Rightarrow> ?p3\<lparr>pb_stats := Some x\<rparr>"
  let ?p5 = "case pb_reason p of None \<Rightarrow> ?p4 | Some x \<Rightarrow> ?p4\<lparr>pb_reason := Some x\<rparr>"
  have s1: "field_loop read_field ((case pb_requesttype p of None \<Rightarrow> []
      | Some t \<Rightarrow> 0x08 # varint (request_number t)) @ q) empty_payload = field_loop read_field q ?p1" for q
    by (simp add: read_field_def split: option.splits)
  have s2: "field_loop read_field (wire_string 0x12 (pb_key p) @ q) m =
      field_loop read_field q (case pb_key p of None \<Rightarrow> m | Some x \<Rightarrow> m\<lparr>pb_key := Some x\<rparr>)" for q m
    by (rule field_loop_string) (simp_all add: read_field_def get_delimited_append [of "bytes_of _", simplified])
  have s3: "field_loop read_field (wire_string 0x1A (pb_value p) @ q) m =
      field_loop read_field q (case pb_value p of None \<Rightarrow> m | Some x \<Rightarrow> m\<lparr>pb_value := Some x\<rparr>)" for q m
    by (rule field_loop_string) (simp_all add: read_field_def get_delimited_append [of "bytes_of _", simplified])
  have s4: "field_loop read_field ((case pb_stats p of None \<Rightarrow> []
      | Some s \<Rightarrow> wire_delimited 0x22 (wire_stat s)) @ q) ?p3 = field_loop read_field q ?p4" for q
    using read_stat by (simp add: read_field_def wire_delimited_def empty_payload_def split: option.splits)
  have s5: "field_loop read_field (wire_string 0x2A (pb_reason p) @ q) m =
      field_loop read_field q (case pb_reason p of None \<Rightarrow> m | Some x \<Rightarrow> m\<lparr>pb_reason := Some x\<rparr>)" for q m
    by (rule field_loop_string) (simp_all add: read_field_def get_delimited_append [of "bytes_of _", simplified])
  have "?p5 = p"
    by (cases p) (simp add: empty_payload_def split: option.splits)
  then show ?thesis
    by (simp add: wire_ser_def s1 s2 s3 s4 s5)
qed

interpretation wire: message_codec wire_ser wire_par
proof unfold_locales
  fix p :: payload
  assume "initialized p"
  then show "wire_par (wire_ser p) = (True, p)"
    using field_loop_wire_ser [of p "[]"] by (simp add: wire_par_def)
next
  show "wire_par [] = (False, empty_payload)"
    by (simp add: wire_par_def initialized_def empty_payload_def)
next
  fix p :: payload
  show "snd (wire_par (wire_ser p @ [0])) = p"
    using field_loop_wire_ser [of p "[0]"] by (simp add: wire_par_def)
qed

text \<open>A GET request and its bytes.\<close>

definition sample_get :: payload where
  "sample_get = empty_payload\<lparr>pb_requesttype := Some GET, pb_key := Some ''k''\<rparr>"

lemma sample_get_bytes: "wire_ser sample_get = [8, 1, 18, 1, 107]"
  by (simp add: wire_ser_def sample_get_def empty_payload_def wire_string_def wire_delimited_def varint.simps
      bytes_of_def of_char_def)

end
