(* ===== verification/TcpFlow.thy ===== *)
theory TcpFlow
  imports Dictionary Stats Payload
begin

text \<open>
  The class \<open>TcpFlow\<close> (\<open>server/src/TcpFlow.cpp\<close>): the server's end of one client connection. A read
  event drains the non-blocking socket into a buffer, recovers the message behind the 4-byte length
  header, runs the request on the dictionary and the statistics, and writes the response.

  What the kernel does is an argument: the results of the successive \<open>read\<close> calls of an event are a
  list (an exhausted list is a socket without data, \<open>EAGAIN\<close>), those of the \<open>write\<close> calls of a
  response are a sequence. The serialisation generated from the proto file is the pair \<open>ser\<close>,
  \<open>par\<close>; \<open>alloc_ok n\<close> says whether \<open>calloc(1, n)\<close> succeeds.
\<close>

section \<open>State\<close>

datatype errno = EAGAIN | EINTR | EOTHER nat

datatype read_result = Read_data "byte list" | Read_eof | Read_err errno

text \<open>\<open>Write_ok n\<close>: the kernel takes up to \<open>n\<close> of the bytes offered.\<close>

datatype write_result = Write_ok nat | Write_err errno

datatype event_kind = EV_READ | EV_WRITE | EV_TIMEOUT

definition num_read_try :: nat where
  "num_read_try = 50"

definition buflen :: nat where
  "buflen = 1200"

text \<open>
  \<open>data_buf = None\<close> is the null pointer; \<open>curr_len = None\<close> says that \<open>m_currlen\<close>, which the
  constructor does not set, has no value yet.
\<close>

record tcp_flow =
  client_fd :: fd
  self_addr :: string
  flow_payload :: payload
  poll_again :: bool
  data_buf :: "byte list option"
  payload_len :: u32
  len_till_now :: u32
  curr_len :: "u32 option"

definition new_tcp_flow :: tcp_flow where
  "new_tcp_flow =
     \<lparr> client_fd = -1, self_addr = [], flow_payload = empty_payload, poll_again = False,
       data_buf = None, payload_len = 0, len_till_now = 0, curr_len = None \<rparr>"

definition setAddr :: "tcp_flow \<Rightarrow> string \<Rightarrow> tcp_flow" where
  "setAddr f addr = f\<lparr>self_addr := addr\<rparr>"

definition getAddr :: "tcp_flow \<Rightarrow> string" where
  "getAddr f = self_addr f"

definition getClientFd :: "tcp_flow \<Rightarrow> fd" where
  "getClientFd f = client_fd f"

text \<open>The singletons that every flow works on.\<close>

record 'd server =
  srv_dict :: "'d dictionary"
  srv_stats :: stats

section \<open>Requests\<close>

definition handleGetRequest :: "'d server \<Rightarrow> payload \<Rightarrow> ('d server \<times> payload) res" where
  "handleGetRequest srv p =
     (let srv1 = srv\<lparr>srv_stats := incrGetReq (srv_stats srv)\<rparr> in
      rbind (dict_get (srv_dict srv1) (get_str (pb_key p)) [])
        (\<lambda>(ok, val).
          if ok
          then Inr (srv1\<lparr>srv_stats := incrGetReqSucc (srv_stats srv1)\<rparr>, p\<lparr>pb_value := Some val\<rparr>)
          else Inr (srv1\<lparr>srv_stats := incrGetReqFail (srv_stats srv1)\<rparr>, p\<lparr>pb_reason := Some val\<rparr>)))"

definition handleSetRequest :: "'d server \<Rightarrow> payload \<Rightarrow> ('d server \<times> payload) res" where
  "handleSetRequest srv p =
     rbind (dict_set (srv_dict srv) (get_str (pb_key p)) (get_str (pb_value p)))
       (\<lambda>(ok, d').
         Inr (srv\<lparr>srv_dict := d'\<rparr>, if \<not> ok then p\<lparr>pb_reason := Some ''failed''\<rparr> else p))"

text \<open>The 64-bit counters are narrowed to the \<open>int32\<close> fields of the message.\<close>

definition handleStatRequest :: "'d server \<Rightarrow> payload \<Rightarrow> ('d server \<times> payload) res" where
  "handleStatRequest srv p =
     (let st = srv_stats srv;
          m = (case pb_stats p of None \<Rightarrow> empty_stat | Some m \<Rightarrow> m)
      in Inr (srv, p\<lparr>pb_stats := Some (m
           \<lparr> numgetreq := Some (ucast (getNumGetReq st)),
             numsuccgetreq := Some (ucast (getNumGetReqSucc st)),
             numfailgetreq := Some (ucast (getNumGetReqFail st)) \<rparr>)\<rparr>))"

definition handle_request :: "'d server \<Rightarrow> request_type \<Rightarrow> payload \<Rightarrow> ('d server \<times> payload) res" where
  "handle_request srv t p =
     (case t of
        GET \<Rightarrow> handleGetRequest srv p
      | SET \<Rightarrow> handleSetRequest srv p
      | STAT \<Rightarrow> handleStatRequest srv p)"

section \<open>Responses\<close>

text \<open>
  \<open>socketWriteData\<close>: the loop retries for ever while the socket is not writable. The result is the
  returned number, the bytes that went out, and the number of \<open>write\<close> calls.
\<close>

partial_function (option) write_loop ::
  "(nat \<Rightarrow> write_result) \<Rightarrow> nat \<Rightarrow> byte list \<Rightarrow> byte list \<Rightarrow> (int \<times> byte list \<times> nat) option" where
  "write_loop w i buf sent =
     (if buf = [] then Some (int (length sent), sent, i)
      else case w i of
        Write_err e \<Rightarrow>
          if e \<noteq> EAGAIN \<and> e \<noteq> EINTR then Some (-1, sent, Suc i)
          else write_loop w (Suc i) buf sent
      | Write_ok n \<Rightarrow> write_loop w (Suc i) (drop n buf) (sent @ take n buf))"

definition socketWriteData :: "(nat \<Rightarrow> write_result) \<Rightarrow> byte list \<Rightarrow> (int \<times> byte list \<times> nat) res" where
  "socketWriteData w buf = returning (write_loop w 0 buf [])"

text \<open>
  \<open>sendResponse\<close>: the buffer is one byte longer than the message, and that byte stays zero; the
  result of the write is not looked at.
\<close>

definition response_bytes :: "(payload \<Rightarrow> byte list) \<Rightarrow> payload \<Rightarrow> byte list" where
  "response_bytes ser p = ser p @ [0]"

definition sendResponse ::
  "(payload \<Rightarrow> byte list) \<Rightarrow> (nat \<Rightarrow> write_result) \<Rightarrow> payload \<Rightarrow> byte list res" where
  "sendResponse ser w p = rbind (socketWriteData w (response_bytes ser p)) (\<lambda>(_, out, _). Inr out)"

text \<open>
  \<open>parse\<close>: the result is the new server state, the flow (\<open>None\<close> when the flow has deleted itself
  through \<open>m_deleteCbk\<close>) and the bytes sent. The length goes to \<open>ParseFromArray\<close> as an \<open>int\<close>.
\<close>

definition flow_buffer :: "tcp_flow \<Rightarrow> byte list res" where
  "flow_buffer f =
     (if 2 ^ 31 \<le> unat (payload_len f) then Inl Bad_conversion
      else case data_buf f of
        None \<Rightarrow> if payload_len f = 0 then Inr [] else Inl Null_deref
      | Some d \<Rightarrow> Inr (take (unat (payload_len f)) d))"

definition flow_parse ::
  "(payload \<Rightarrow> byte list) \<Rightarrow> (byte list \<Rightarrow> bool \<times> payload) \<Rightarrow> (nat \<Rightarrow> write_result) \<Rightarrow>
   'd server \<Rightarrow> tcp_flow \<Rightarrow> ('d server \<times> tcp_flow option \<times> byte list) res" where
  "flow_parse ser par w srv f =
     rbind (flow_buffer f) (\<lambda>bs.
     let p = snd (par bs); f1 = f\<lparr>flow_payload := p\<rparr> in
     case pb_requesttype p of
       None \<Rightarrow> Inr (srv, None, [])
     | Some t \<Rightarrow>
         rbind (handle_request srv t p) (\<lambda>(srv', p').
         rbind (sendResponse ser w p') (\<lambda>out.
         Inr (srv', Some (f1\<lparr>flow_payload := p'\<rparr>), out))))"

section \<open>The read event\<close>

text \<open>What one successful \<open>read\<close> of \<open>length bs\<close> bytes does; \<open>buffer\<close> is zeroed before each read.\<close>

definition flow_receive :: "(u32 \<Rightarrow> bool) \<Rightarrow> tcp_flow \<Rightarrow> byte list \<Rightarrow> tcp_flow res" where
  "flow_receive alloc_ok f bs =
     (let len = word_of_nat (length bs) :: u32;
          f1 = f\<lparr>len_till_now := len_till_now f + len\<rparr>
      in case data_buf f1 of
           Some d \<Rightarrow>
             (case curr_len f1 of
                None \<Rightarrow> Inl Uninitialised
              | Some c \<Rightarrow> rbind (memcpy_at d (unat c) bs) (\<lambda>d'.
                  Inr (f1\<lparr>data_buf := Some d', curr_len := Some (c + len)\<rparr>)))
         | None \<Rightarrow>
             if 4 \<le> unat (len_till_now f1) then
               (let plen = le32 (bs @ replicate (buflen - length bs) 0);
                    f2 = f1\<lparr>payload_len := plen,
                      data_buf := (if alloc_ok plen then Some (replicate (unat plen) 0) else None)\<rparr>
                in if 4 < unat (len_till_now f2) then
                     (if length bs < 4 then Inl Out_of_bounds
                      else case data_buf f2 of
                        None \<Rightarrow> Inl Null_deref
                      | Some d \<Rightarrow> rbind (memcpy_at d 0 (drop 4 bs)) (\<lambda>d'.
                          Inr (f2\<lparr>data_buf := Some d', curr_len := Some (len - 4)\<rparr>)))
                   else Inr f2)
             else Inr f1)"

datatype loop_exit = Loop_done | Loop_deleted

text \<open>
  The loop over at most \<open>NUM_READ_TRY\<close> reads. End of file and every error but \<open>EAGAIN\<close> delete the
  flow and leave the handler.
\<close>

fun read_loop ::
  "(u32 \<Rightarrow> bool) \<Rightarrow> nat \<Rightarrow> read_result list \<Rightarrow> tcp_flow \<Rightarrow>
   (loop_exit \<times> tcp_flow \<times> read_result list) res" where
  "read_loop alloc_ok 0 rs f = Inr (Loop_done, f, rs)"
| "read_loop alloc_ok (Suc n) [] f = Inr (Loop_done, f, [])"
| "read_loop alloc_ok (Suc n) (r # rs) f =
     (case r of
        Read_eof \<Rightarrow> Inr (Loop_deleted, f, rs)
      | Read_err e \<Rightarrow>
          if e \<noteq> EAGAIN then Inr (Loop_deleted, f\<lparr>poll_again := False\<rparr>, rs)
          else Inr (Loop_done, f, rs)
      | Read_data bs \<Rightarrow> rbind (flow_receive alloc_ok f bs) (read_loop alloc_ok n rs))"

lemma read_loop_Nil [simp]: "read_loop alloc_ok n [] f = Inr (Loop_done, f, [])"
  by (cases n) simp_all

lemma read_loop_pos:
  "0 < n \<Longrightarrow> read_loop alloc_ok n (r # rs) f =
     (case r of
        Read_eof \<Rightarrow> Inr (Loop_deleted, f, rs)
      | Read_err e \<Rightarrow>
          if e \<noteq> EAGAIN then Inr (Loop_deleted, f\<lparr>poll_again := False\<rparr>, rs)
          else Inr (Loop_done, f, rs)
      | Read_data bs \<Rightarrow> rbind (flow_receive alloc_ok f bs) (read_loop alloc_ok (n - 1) rs))"
  by (cases n) (simp_all split: read_result.split)

lemma num_read_try_pos [simp]: "0 < num_read_try"
  by (simp add: num_read_try_def)

definition flow_data ::
  "(payload \<Rightarrow> byte list) \<Rightarrow> (byte list \<Rightarrow> bool \<times> payload) \<Rightarrow> (u32 \<Rightarrow> bool) \<Rightarrow>
   (nat \<Rightarrow> write_result) \<Rightarrow> fd \<Rightarrow> event_kind \<Rightarrow> read_result list \<Rightarrow> 'd server \<Rightarrow> tcp_flow \<Rightarrow>
   ('d server \<times> tcp_flow option \<times> byte list) res" where
  "flow_data ser par alloc_ok w fd ev rs srv f =
     (if ev \<noteq> EV_READ then Inr (srv, Some f, [])
      else rbind (read_loop alloc_ok num_read_try rs (f\<lparr>client_fd := fd\<rparr>)) (\<lambda>(ex, f', _).
        case ex of
          Loop_deleted \<Rightarrow> Inr (srv, None, [])
        | Loop_done \<Rightarrow>
            if unat (payload_len f') \<le> unat (len_till_now f')
            then flow_parse ser par w srv f'
            else Inr (srv, Some f', [])))"

text \<open>No handler changes the address of its flow.\<close>

lemma flow_receive_addr: "flow_receive alloc_ok f bs = Inr f' \<Longrightarrow> self_addr f' = self_addr f"
  by (auto simp: flow_receive_def Let_def split: option.splits if_splits)

lemma read_loop_addr: "read_loop alloc_ok n rs f = Inr (ex, f', rs') \<Longrightarrow> self_addr f' = self_addr f"
  by (induction alloc_ok n rs f rule: read_loop.induct)
    (auto dest: flow_receive_addr split: read_result.splits if_splits)

lemma flow_data_addr:
  "flow_data ser par alloc_ok w fd ev rs srv f = Inr (srv', Some f', out) \<Longrightarrow> getAddr f' = getAddr f"
  by (auto simp: flow_data_def flow_parse_def getAddr_def Let_def dest!: read_loop_addr
      split: if_splits loop_exit.splits option.splits)

text \<open>The events of one connection in turn; the flow must still exist.\<close>

fun flow_run ::
  "(payload \<Rightarrow> byte list) \<Rightarrow> (byte list \<Rightarrow> bool \<times> payload) \<Rightarrow> (u32 \<Rightarrow> bool) \<Rightarrow>
   (nat \<Rightarrow> write_result) \<Rightarrow> fd \<Rightarrow> read_result list list \<Rightarrow> 'd server \<Rightarrow> tcp_flow \<Rightarrow>
   ('d server \<times> tcp_flow option \<times> byte list) res" where
  "flow_run ser par alloc_ok w fd [] srv f = Inr (srv, Some f, [])"
| "flow_run ser par alloc_ok w fd (rs # evs) srv f =
     rbind (flow_data ser par alloc_ok w fd EV_READ rs srv f) (\<lambda>(srv1, fo, out1).
       case fo of
         None \<Rightarrow> Inr (srv1, None, out1)
       | Some f1 \<Rightarrow> rbind (flow_run ser par alloc_ok w fd evs srv1 f1)
           (\<lambda>(srv2, fo2, out2). Inr (srv2, fo2, out1 @ out2)))"

section \<open>The write loop\<close>

definition write_outcome :: "byte list \<Rightarrow> byte list \<Rightarrow> int \<times> byte list \<times> nat \<Rightarrow> bool" where
  "write_outcome buf sent = (\<lambda>(r, out, j).
     (r = int (length out) \<and> out = sent @ buf) \<or>
     (r = -1 \<and> (\<exists>k < length buf. out = sent @ take k buf)))"

lemma write_outcome_drop:
  assumes "write_outcome (drop n buf) (sent @ take n buf) res" and "buf \<noteq> []"
  shows "write_outcome buf sent res"
proof -
  have "\<exists>k' < length buf. take n buf @ take k (drop n buf) = take k' buf"
    if "k < length (drop n buf)" for k
    using that by (intro exI [of _ "n + k"]) (simp add: take_add)
  with assms show ?thesis
    by (auto simp: write_outcome_def split: prod.splits)
qed

lemma write_loop_result:
  assumes ret: "write_loop w i buf sent = Some res"
  shows "write_outcome buf sent res"
proof (rule write_loop.raw_induct [where P = "\<lambda>w i buf sent res. write_outcome buf sent res", OF _ ret])
  fix f :: "(nat \<Rightarrow> write_result) \<Rightarrow> nat \<Rightarrow> byte list \<Rightarrow> byte list \<Rightarrow> (int \<times> byte list \<times> nat) option"
    and w i buf sent res
  assume IH: "\<And>w i buf sent res. f w i buf sent = Some res \<Longrightarrow> write_outcome buf sent res"
    and eq: "(if buf = [] then Some (int (length sent), sent, i)
      else case w i of
        Write_err e \<Rightarrow> if e \<noteq> EAGAIN \<and> e \<noteq> EINTR then Some (-1, sent, Suc i)
          else f w (Suc i) buf sent
      | Write_ok n \<Rightarrow> f w (Suc i) (drop n buf) (sent @ take n buf)) = Some res"
  show "write_outcome buf sent res"
  proof (cases "buf = []")
    case True
    with eq show ?thesis by (auto simp: write_outcome_def)
  next
    case False
    show ?thesis
    proof (cases "w i")
      case (Write_ok n)
      with False eq have "f w (Suc i) (drop n buf) (sent @ take n buf) = Some res" by simp
      from write_outcome_drop [OF IH [OF this] False] show ?thesis .
    next
      case (Write_err e)
      with False eq IH [of w "Suc i" buf sent res] show ?thesis
        by (auto simp: write_outcome_def split: if_splits)
    qed
  qed
qed

text \<open>No hard error, and from every point on some write makes progress.\<close>

definition writable :: "(nat \<Rightarrow> write_result) \<Rightarrow> bool" where
  "writable w \<longleftrightarrow> (\<forall>i e. w i = Write_err e \<longrightarrow> e = EAGAIN \<or> e = EINTR) \<and>
     (\<forall>i. \<exists>d n. w (i + d) = Write_ok (Suc n))"

lemma write_loop_progress:
  assumes err: "\<forall>i e. w i = Write_err e \<longrightarrow> e = EAGAIN \<or> e = EINTR"
    and "w (i + d) = Write_ok (Suc n)" and "buf \<noteq> []"
  shows "\<exists>j m. 0 < m \<and> write_loop w i buf sent = write_loop w j (drop m buf) (sent @ take m buf)"
  using assms(2)
proof (induction d arbitrary: i)
  case 0
  then have "write_loop w i buf sent = write_loop w (Suc i) (drop (Suc n) buf) (sent @ take (Suc n) buf)"
    using assms(3) by (subst write_loop.simps) simp
  then show ?case by blast
next
  case (Suc d)
  have IH: "\<exists>j m. 0 < m \<and> write_loop w (Suc i) buf sent = write_loop w j (drop m buf) (sent @ take m buf)"
    using Suc.IH [of "Suc i"] Suc.prems by simp
  show ?case
  proof (cases "w i")
    case (Write_ok m)
    then have eq: "write_loop w i buf sent = write_loop w (Suc i) (drop m buf) (sent @ take m buf)"
      using assms(3) by (subst write_loop.simps) simp
    then show ?thesis using IH by (cases m) auto
  next
    case (Write_err e)
    then have "write_loop w i buf sent = write_loop w (Suc i) buf sent"
      using assms(3) err by (subst write_loop.simps) auto
    then show ?thesis using IH by simp
  qed
qed

lemma write_loop_returns:
  assumes "writable w"
  shows "\<exists>j. write_loop w i buf sent = Some (int (length (sent @ buf)), sent @ buf, j)"
proof (induction buf arbitrary: i sent rule: length_induct)
  case (1 buf)
  show ?case
  proof (cases "buf = []")
    case True
    then show ?thesis by (subst write_loop.simps) simp
  next
    case False
    from assms obtain d n where "w (i + d) = Write_ok (Suc n)"
      unfolding writable_def by blast
    moreover from assms have "\<forall>i e. w i = Write_err e \<longrightarrow> e = EAGAIN \<or> e = EINTR"
      unfolding writable_def by blast
    ultimately obtain j m where m: "0 < m"
        "write_loop w i buf sent = write_loop w j (drop m buf) (sent @ take m buf)"
      using write_loop_progress [of w i d n buf sent] False by blast
    from m False have "length (drop m buf) < length buf" by simp
    with "1.IH" obtain j' where "write_loop w j (drop m buf) (sent @ take m buf) =
        Some (int (length ((sent @ take m buf) @ drop m buf)), (sent @ take m buf) @ drop m buf, j')"
      by blast
    with m(2) show ?thesis by simp
  qed
qed

lemma write_loop_stuck:
  assumes stuck: "\<And>i. w i = Write_err EAGAIN" and "buf \<noteq> []"
  shows "write_loop w i buf sent = None"
proof (rule ccontr)
  assume "write_loop w i buf sent \<noteq> None"
  then obtain res where ret: "write_loop w i buf sent = Some res" by blast
  have "(\<forall>i. w i = Write_err EAGAIN) \<longrightarrow> buf = []"
  proof (rule write_loop.raw_induct [where P = "\<lambda>w i buf sent res. (\<forall>i. w i = Write_err EAGAIN) \<longrightarrow> buf = []",
        OF _ ret], rule impI)
    fix f :: "(nat \<Rightarrow> write_result) \<Rightarrow> nat \<Rightarrow> byte list \<Rightarrow> byte list \<Rightarrow> (int \<times> byte list \<times> nat) option"
      and w i buf sent res
    assume IH: "\<And>w i buf sent res. f w i buf sent = Some res \<Longrightarrow> (\<forall>i. w i = Write_err EAGAIN) \<longrightarrow> buf = []"
      and eq: "(if buf = [] then Some (int (length sent), sent, i)
        else case w i of
          Write_ok n \<Rightarrow> f w (Suc i) (drop n buf) (sent @ take n buf)
        | Write_err e \<Rightarrow> if e \<noteq> EAGAIN \<and> e \<noteq> EINTR then Some (-1, sent, Suc i)
            else f w (Suc i) buf sent) = Some res"
      and w: "\<forall>i. w i = Write_err EAGAIN"
    from eq w have "buf = [] \<or> f w (Suc i) buf sent = Some res" by (simp split: if_splits)
    with IH w show "buf = []" by blast
  qed
  with assms show False by blast
qed

lemma sendResponse_writable: "writable w \<Longrightarrow> sendResponse ser w p = Inr (response_bytes ser p)"
  using write_loop_returns [of w 0 "response_bytes ser p" "[]"]
  by (auto simp: sendResponse_def socketWriteData_def)

section \<open>Requests against the specification\<close>

definition server_ok :: "'d server \<Rightarrow> bool" where
  "server_ok srv \<longleftrightarrow> dict_ok (srv_dict srv) \<and> stats_balanced (srv_stats srv)"

definition srv_abs :: "'d server \<Rightarrow> store \<times> stats" where
  "srv_abs srv = (dict_abs (srv_dict srv), srv_stats srv)"

text \<open>What a request means on the abstract map.\<close>

fun spec_request :: "request_type \<Rightarrow> payload \<Rightarrow> store \<times> stats \<Rightarrow> (store \<times> stats) \<times> payload" where
  "spec_request GET p (m, st) =
     (case m (get_str (pb_key p)) of
        Some v \<Rightarrow> ((m, incrGetReqSucc (incrGetReq st)), p\<lparr>pb_value := Some v\<rparr>)
      | None \<Rightarrow> ((m, incrGetReqFail (incrGetReq st)), p\<lparr>pb_reason := Some ''NOT_FOUND''\<rparr>))"
| "spec_request SET p (m, st) =
     (let (ok, m') = spec_set m (get_str (pb_key p)) (get_str (pb_value p))
      in ((m', st), if ok then p else p\<lparr>pb_reason := Some ''failed''\<rparr>))"
| "spec_request STAT p (m, st) =
     ((m, st), p\<lparr>pb_stats := Some
       \<lparr> numgetreq = Some (ucast (num_get_req st)),
         numsuccgetreq = Some (ucast (num_get_req_succ st)),
         numfailgetreq = Some (ucast (num_get_req_fail st)) \<rparr>\<rparr>)"

lemma handle_set_refines:
  assumes "server_ok srv"
  shows "\<exists>srv' p'. handleSetRequest srv p = Inr (srv', p') \<and> server_ok srv' \<and>
    bloom_enabled (srv_dict srv') = bloom_enabled (srv_dict srv) \<and>
    (srv_abs srv', p') = spec_request SET p (srv_abs srv)"
proof -
  let ?k = "get_str (pb_key p)" and ?v = "get_str (pb_value p)"
  from assms have "dict_ok (srv_dict srv)" by (simp add: server_ok_def)
  from dict_set_refines [OF this, of ?k ?v] obtain b d' where
      d': "dict_set (srv_dict srv) ?k ?v = Inr (b, d')" "dict_ok d'"
      "bloom_enabled d' = bloom_enabled (srv_dict srv)"
      "(b, dict_abs d') = spec_set (dict_abs (srv_dict srv)) ?k ?v"
    by blast
  from d'(4) [symmetric] d'(1-3) assms show ?thesis
    by (simp add: handleSetRequest_def srv_abs_def server_ok_def)
qed

lemma stat_msg_update_all:
  "m\<lparr>numgetreq := a, numsuccgetreq := b, numfailgetreq := c\<rparr> =
     \<lparr>numgetreq = a, numsuccgetreq = b, numfailgetreq = c\<rparr>"
  by (cases m) simp

lemma handle_stat_refines:
  "server_ok srv \<Longrightarrow> \<exists>p'. handleStatRequest srv p = Inr (srv, p') \<and>
     (srv_abs srv, p') = spec_request STAT p (srv_abs srv)"
  by (simp add: handleStatRequest_def srv_abs_def stats_defs stat_msg_update_all Let_def)

lemma handle_get_plain:
  assumes "server_ok srv" and "\<not> bloom_enabled (srv_dict srv)"
  shows "\<exists>srv' p'. handleGetRequest srv p = Inr (srv', p') \<and> server_ok srv' \<and>
    srv_dict srv' = srv_dict srv \<and> (srv_abs srv', p') = spec_request GET p (srv_abs srv)"
  using assms
  by (auto simp: handleGetRequest_def dict_get_plain spec_get_def srv_abs_def server_ok_def
      stats_balanced_succ stats_balanced_fail Let_def split: option.splits)

lemma handle_get_filtered:
  assumes "server_ok srv" and "bloom_enabled (srv_dict srv)"
  shows "\<exists>r. handleGetRequest srv p =
      Inr (srv\<lparr>srv_stats := incrGetReqFail (incrGetReq (srv_stats srv))\<rparr>, p\<lparr>pb_reason := Some r\<rparr>) \<and>
    r \<in> (case dict_abs (srv_dict srv) (get_str (pb_key p)) of Some v \<Rightarrow> {v} | None \<Rightarrow> {[], ''NOT_FOUND''})"
proof -
  from assms(1) have "filter_covers (srv_dict srv)" by (simp add: server_ok_def dict_ok_def)
  from dict_get_filtered [OF this assms(2), of "get_str (pb_key p)" "[]"] obtain b where
      b: "dict_get (srv_dict srv) (get_str (pb_key p)) [] = Inr (False,
        case dict_abs (srv_dict srv) (get_str (pb_key p)) of Some v \<Rightarrow> v
        | None \<Rightarrow> if b then [] else ''NOT_FOUND'')"
    by blast
  show ?thesis
    by (cases b; cases "dict_abs (srv_dict srv) (get_str (pb_key p))"; rule exI;
      auto simp: handleGetRequest_def Let_def b simp del: rbind_Inr_iff)
qed

lemma handle_request_refines:
  assumes "server_ok srv" and "\<not> bloom_enabled (srv_dict srv)"
  shows "\<exists>srv' p'. handle_request srv t p = Inr (srv', p') \<and> server_ok srv' \<and>
    \<not> bloom_enabled (srv_dict srv') \<and> (srv_abs srv', p') = spec_request t p (srv_abs srv)"
proof (cases t)
  case GET
  with handle_get_plain [OF assms, of p] assms(2) show ?thesis
    by (auto simp: handle_request_def)
next
  case SET
  with handle_set_refines [OF assms(1), of p] assms(2) show ?thesis
    by (auto simp: handle_request_def)
next
  case STAT
  with handle_stat_refines [OF assms(1), of p] assms show ?thesis
    by (auto simp: handle_request_def)
qed

text \<open>No request faults, whatever the filter, and the invariant is kept.\<close>

lemma handle_request_ok:
  assumes "server_ok srv"
  shows "\<exists>srv' p'. handle_request srv t p = Inr (srv', p') \<and> server_ok srv' \<and>
    pb_requesttype p' = pb_requesttype p"
proof (cases t)
  case GET
  show ?thesis
  proof (cases "bloom_enabled (srv_dict srv)")
    case True
    with handle_get_filtered [OF assms True, of p] GET assms show ?thesis
      by (auto simp: handle_request_def server_ok_def stats_balanced_fail)
  next
    case False
    with handle_get_plain [OF assms False, of p] GET show ?thesis
      by (auto simp: handle_request_def srv_abs_def split: option.splits)
  qed
next
  case SET
  with handle_set_refines [OF assms, of p] show ?thesis
    by (auto simp: handle_request_def srv_abs_def split: prod.splits)
next
  case STAT
  with handle_stat_refines [OF assms, of p] assms show ?thesis
    by (auto simp: handle_request_def srv_abs_def)
qed

text \<open>Both at once.\<close>

lemma handle_request_both:
  assumes "server_ok srv" and "\<not> bloom_enabled (srv_dict srv)"
  shows "\<exists>srv' p'. handle_request srv t p = Inr (srv', p') \<and> server_ok srv' \<and>
    \<not> bloom_enabled (srv_dict srv') \<and> (srv_abs srv', p') = spec_request t p (srv_abs srv) \<and> pb_requesttype p' = pb_requesttype p"
proof -
  obtain srv' p' where 1: "handle_request srv t p = Inr (srv', p')" "server_ok srv'"
      "\<not> bloom_enabled (srv_dict srv')"
      "(srv_abs srv', p') = spec_request t p (srv_abs srv)"
    using handle_request_refines [OF assms, of t p] by blast
  moreover have "pb_requesttype p' = pb_requesttype p"
    using handle_request_ok [OF assms(1), of t p] 1(1) by auto
  ultimately show ?thesis by blast
qed

text \<open>
  What a request means on a server of either mode: with the filter on, a GET is always counted as a failure; the
  value of a stored key is sent as the reason of the failure, and the reason for a key that is not stored is either
  \<open>NOT_FOUND\<close> or empty.
\<close>

definition spec_answer :: "bool \<Rightarrow> request_type \<Rightarrow> payload \<Rightarrow> store \<times> stats \<Rightarrow> (store \<times> stats) \<times> payload \<Rightarrow> bool" where
  "spec_answer on t q st r \<longleftrightarrow>
     (if on \<and> t = GET
      then fst r = (fst st, incrGetReqFail (incrGetReq (snd st))) \<and>
        snd r \<in> (\<lambda>x. q\<lparr>pb_reason := Some x\<rparr>) `
          (case fst st (get_str (pb_key q)) of Some v \<Rightarrow> {v} | None \<Rightarrow> {[], ''NOT_FOUND''})
      else r = spec_request t q st)"

lemma spec_answer_off [simp]: "spec_answer False t q st r \<longleftrightarrow> r = spec_request t q st"
  by (simp add: spec_answer_def)

lemma handle_request_answer:
  assumes "server_ok srv"
  shows "\<exists>srv' p'. handle_request srv t p = Inr (srv', p') \<and> server_ok srv' \<and>
    bloom_enabled (srv_dict srv') = bloom_enabled (srv_dict srv) \<and>
    spec_answer (bloom_enabled (srv_dict srv)) t p (srv_abs srv) (srv_abs srv', p') \<and> pb_requesttype p' = pb_requesttype p"
proof (cases "bloom_enabled (srv_dict srv)")
  case False
  with handle_request_both [OF assms False, of t p] show ?thesis by auto
next
  case on: True
  show ?thesis
  proof (cases t)
    case GET
    with handle_get_filtered [OF assms on, of p] on assms show ?thesis
      by (auto simp: handle_request_def server_ok_def stats_balanced_fail srv_abs_def spec_answer_def split: option.splits)
  next
    case SET
    with handle_set_refines [OF assms, of p] on show ?thesis
      by (auto simp: handle_request_def spec_answer_def srv_abs_def split: prod.splits if_splits)
  next
    case STAT
    with handle_stat_refines [OF assms, of p] on assms show ?thesis
      by (auto simp: handle_request_def spec_answer_def srv_abs_def)
  qed
qed

section \<open>Reassembly of a message\<close>

text \<open>
  What the peer sends for a message, and the state of a flow that has received the first \<open>k\<close> bytes
  of it.
\<close>

definition frame :: "byte list \<Rightarrow> byte list" where
  "frame msg = to_le32 (word_of_nat (length msg)) @ msg"

definition fits :: "byte list \<Rightarrow> bool" where
  "fits msg \<longleftrightarrow> length msg + 4 < 2 ^ 31"

definition fresh :: "tcp_flow \<Rightarrow> bool" where
  "fresh f \<longleftrightarrow> data_buf f = None \<and> len_till_now f = 0"

definition receiving :: "byte list \<Rightarrow> nat \<Rightarrow> tcp_flow \<Rightarrow> bool" where
  "receiving msg k f \<longleftrightarrow>
     4 < k \<and> k \<le> length msg + 4 \<and>
     payload_len f = word_of_nat (length msg) \<and>
     len_till_now f = word_of_nat k \<and>
     data_buf f = Some (take (k - 4) msg @ replicate (length msg + 4 - k) 0) \<and>
     curr_len f = Some (word_of_nat (k - 4))"

lemma length_frame [simp]: "length (frame msg) = length msg + 4"
  by (simp add: frame_def)

lemma drop_frame: "4 \<le> k \<Longrightarrow> drop k (frame msg) = drop (k - 4) msg"
  by (simp add: frame_def)

lemma unat_small: "n < 2 ^ 31 \<Longrightarrow> unat (word_of_nat n :: u32) = n"
  by (simp add: unat_of_nat)

text \<open>The first chunk carries the header and at least one byte of the message.\<close>

lemma receive_first:
  assumes "fresh f" and "fits msg" and "frame msg = bs @ rest" and "4 < length bs"
    and "alloc_ok (word_of_nat (length msg))"
  shows "\<exists>f'. flow_receive alloc_ok f bs = Inr f' \<and> receiving msg (length bs) f'"
proof -
  have len: "length bs \<le> length msg + 4"
    using arg_cong [OF assms(3), of length] by simp
  have b: "take (length bs) (frame msg) = bs" "drop (length bs) (frame msg) = rest"
    using assms(3) by simp_all
  define body where "body = take (length bs - 4) msg"
  have "take (length bs) (frame msg) = to_le32 (word_of_nat (length msg)) @ body"
    using assms(4) by (simp add: frame_def body_def)
  with b(1) have bs: "bs = to_le32 (word_of_nat (length msg)) @ body" by simp
  have "drop (length bs) (frame msg) = drop (length bs - 4) msg"
    using assms(4) by (simp add: frame_def)
  with b(2) have msg: "msg = body @ rest" by (metis append_take_drop_id body_def)
  have u: "unat (word_of_nat (length bs) :: u32) = length bs"
      "unat (word_of_nat (length msg) :: u32) = length msg"
    using len assms(2) by (simp_all add: unat_small fits_def)
  have body: "length body = length bs - 4"
    using bs by simp
  have hdr: "le32 (bs @ zs) = word_of_nat (length msg)" for zs
    unfolding bs by simp
  have d: "drop 4 bs = body"
    by (simp add: bs)
  have cp: "memcpy_at (replicate (length msg) 0) 0 body =
      Inr (body @ replicate (length msg + 4 - length bs) 0)"
    using len body assms(4) by (simp add: memcpy_at_def)
  have t: "take (length bs - 4) msg = body"
    by (simp add: body_def)
  have four: "\<not> length bs < 4" "4 \<le> length bs"
    using assms(4) by simp_all
  show ?thesis
    using assms(1,4,5) len four
    by (simp add: flow_receive_def fresh_def Let_def u hdr receiving_def cp d t)
qed

lemma receive_more:
  assumes "receiving msg k f" and "fits msg" and "drop k (frame msg) = bs @ rest"
  shows "\<exists>f'. flow_receive alloc_ok f bs = Inr f' \<and> receiving msg (k + length bs) f'"
proof -
  from assms(1) have k: "4 < k" "k \<le> length msg + 4"
    by (simp_all add: receiving_def)
  have rest: "drop (k - 4) msg = bs @ rest"
    using assms(3) k by (simp add: drop_frame)
  have "length bs + length rest = length msg - (k - 4)"
    using arg_cong [OF rest, of length] by simp
  then have len: "k + length bs \<le> length msg + 4"
    using k by simp
  obtain m where m: "k = m + 4"
    using k(1) by (metis add.commute less_imp_add_positive)
  have u: "unat (word_of_nat m :: u32) = m"
    using k len m assms(2) by (simp add: unat_small fits_def)
  have "take (m + length bs) msg = take m msg @ bs"
    using rest m by (simp add: take_add)
  then show ?thesis
    using assms(1) k len
    by (simp add: flow_receive_def receiving_def Let_def u memcpy_at_def m)
qed

text \<open>
  The connection after \<open>k\<close> bytes: untouched, or in the middle of the message. The chunks of an event
  may start the message only with more than the header.
\<close>

definition conn :: "byte list \<Rightarrow> nat \<Rightarrow> tcp_flow \<Rightarrow> bool" where
  "conn msg k f \<longleftrightarrow> (if k = 0 then fresh f else receiving msg k f)"

lemma receiving_conn: "receiving msg k f \<Longrightarrow> conn msg k f"
  by (auto simp: conn_def receiving_def)

definition starts_well :: "nat \<Rightarrow> byte list list \<Rightarrow> bool" where
  "starts_well k cs \<longleftrightarrow> (k = 0 \<longrightarrow> (\<exists>c cs'. cs = c # cs' \<and> 4 < length c))"

lemma receiving_chunks:
  assumes "fits msg"
  shows "receiving msg k f \<Longrightarrow> drop k (frame msg) = concat cs @ rest \<Longrightarrow> length cs \<le> n \<Longrightarrow>
    \<exists>f'. read_loop alloc_ok n (map Read_data cs) f = Inr (Loop_done, f', []) \<and>
      receiving msg (k + length (concat cs)) f'"
proof (induction cs arbitrary: k f n)
  case Nil
  then show ?case by (cases n) simp_all
next
  case (Cons c cs)
  then obtain n' where n: "n = Suc n'" by (cases n) auto
  from receive_more [OF Cons.prems(1) assms, of c "concat cs @ rest"] Cons.prems(2)
  obtain f1 where f1: "flow_receive alloc_ok f c = Inr f1" "receiving msg (k + length c) f1"
    by auto
  have "drop (k + length c) (frame msg) = drop (length c) (drop k (frame msg))"
    by (simp add: add.commute)
  also have "\<dots> = concat cs @ rest"
    using Cons.prems(2) by simp
  finally have "drop (k + length c) (frame msg) = concat cs @ rest" .
  from Cons.IH [OF f1(2) this] Cons.prems(3) show ?case
    by (simp add: n f1(1) add.assoc)
qed

lemma conn_chunks:
  assumes "fits msg" and "conn msg k f" and "drop k (frame msg) = concat cs @ rest"
    and "length cs \<le> n" and "starts_well k cs" and "alloc_ok (word_of_nat (length msg))"
  shows "\<exists>f'. read_loop alloc_ok n (map Read_data cs) f = Inr (Loop_done, f', []) \<and>
    receiving msg (k + length (concat cs)) f'"
proof (cases "k = 0")
  case False
  with assms receiving_chunks show ?thesis
    by (simp add: conn_def)
next
  case True
  with assms(5) obtain c cs' where cs: "cs = c # cs'" "4 < length c"
    by (auto simp: starts_well_def)
  with assms(4) obtain n' where n: "n = Suc n'" "length cs' \<le> n'"
    by (cases n) auto
  have "frame msg = c @ concat cs' @ rest"
    using assms(3) True cs by simp
  with receive_first [of f msg c "concat cs' @ rest" alloc_ok] assms(1,2,6) True cs obtain f1 where
      f1: "flow_receive alloc_ok f c = Inr f1" "receiving msg (length c) f1"
    by (auto simp: conn_def)
  have "drop (length c) (frame msg) = concat cs' @ rest"
    using \<open>frame msg = _\<close> by simp
  from receiving_chunks [OF assms(1) f1(2) this n(2)] show ?thesis
    by (simp add: cs(1) n(1) f1(1) True)
qed

lemma receiving_lengths:
  assumes "receiving msg k f" and "fits msg"
  shows "unat (payload_len f) = length msg" and "unat (len_till_now f) = k"
  using assms by (simp_all add: receiving_def fits_def unat_small)

lemma receiving_client_fd [simp]: "receiving msg k (f\<lparr>client_fd := fd\<rparr>) = receiving msg k f"
  by (simp add: receiving_def)

lemma conn_client_fd [simp]: "conn msg k (f\<lparr>client_fd := fd\<rparr>) = conn msg k f"
  by (simp add: conn_def fresh_def)

text \<open>An event that leaves at least the last five bytes missing only advances the connection.\<close>

lemma flow_data_partial:
  assumes "fits msg" and "conn msg k f" and "drop k (frame msg) = concat cs @ rest"
    and "length cs \<le> num_read_try" and "starts_well k cs" and "alloc_ok (word_of_nat (length msg))"
    and "k + length (concat cs) < length msg"
  shows "\<exists>f'. flow_data ser par alloc_ok w fd EV_READ (map Read_data cs) srv f = Inr (srv, Some f', []) \<and>
    receiving msg (k + length (concat cs)) f'"
proof -
  from conn_chunks [of msg k "f\<lparr>client_fd := fd\<rparr>" cs rest num_read_try alloc_ok] assms obtain f' where
      f': "read_loop alloc_ok num_read_try (map Read_data cs) (f\<lparr>client_fd := fd\<rparr>) = Inr (Loop_done, f', [])"
        "receiving msg (k + length (concat cs)) f'"
    by auto
  with receiving_lengths [OF f'(2) assms(1)] assms(7) show ?thesis
    by (simp add: flow_data_def)
qed

text \<open>The event that brings the last byte parses exactly the message.\<close>

lemma flow_buffer_receiving:
  assumes "receiving msg k f" and "fits msg"
  shows "flow_buffer f = Inr (take (k - 4) msg @ replicate (length msg + 4 - k) 0)"
proof -
  from assms(1) have "length (take (k - 4) msg @ replicate (length msg + 4 - k) 0) = length msg"
    by (auto simp: receiving_def min_def)
  then have "take (length msg) (take (k - 4) msg @ replicate (length msg + 4 - k) 0) =
      take (k - 4) msg @ replicate (length msg + 4 - k) 0"
    by (intro take_all) simp
  then show ?thesis
    using assms receiving_lengths [OF assms] by (simp only: flow_buffer_def receiving_def fits_def) simp
qed

lemma flow_parse_received:
  assumes "receiving msg (length msg + 4) f" and "fits msg"
  shows "flow_buffer f = Inr msg"
  using flow_buffer_receiving [OF assms] by simp

lemma flow_data_complete:
  assumes "fits msg" and "conn msg k f" and "drop k (frame msg) = concat cs"
    and "length cs \<le> num_read_try" and "starts_well k cs" and "alloc_ok (word_of_nat (length msg))"
    and "k \<le> length msg + 4"
    and "snd (par msg) = p" and "pb_requesttype p = Some t"
    and "handle_request srv t p = Inr (srv', p')" and "writable w"
  shows "\<exists>f'. flow_data ser par alloc_ok w fd EV_READ (map Read_data cs) srv f =
    Inr (srv', Some f', response_bytes ser p')"
proof -
  from conn_chunks [of msg k "f\<lparr>client_fd := fd\<rparr>" cs "[]" num_read_try alloc_ok] assms obtain f' where
      f': "read_loop alloc_ok num_read_try (map Read_data cs) (f\<lparr>client_fd := fd\<rparr>) = Inr (Loop_done, f', [])"
        "receiving msg (k + length (concat cs)) f'"
    by auto
  have total: "k + length (concat cs) = length msg + 4"
    using arg_cong [OF assms(3), of length] assms(7) by simp
  then have r: "receiving msg (length msg + 4) f'"
    using f'(2) by simp
  from receiving_lengths [OF r assms(1)] flow_parse_received [OF r assms(1)] f'(1) assms(8-11)
  show ?thesis
    by (simp add: flow_data_def flow_parse_def sendResponse_writable Let_def)
qed

text \<open>
  A way for a message to arrive that the handler deals with: no event of more than \<open>NUM_READ_TRY\<close>
  chunks, a first chunk longer than the header, and every event but the last leaves more than the
  last four bytes missing.
\<close>

fun safe_events :: "nat \<Rightarrow> nat \<Rightarrow> byte list list list \<Rightarrow> bool" where
  "safe_events n k [] = True"
| "safe_events n k (cs # evs) =
     (length cs \<le> num_read_try \<and> starts_well k cs \<and>
      (evs = [] \<or> k + length (concat cs) < n) \<and> safe_events n (k + length (concat cs)) evs)"

lemma flow_run_message:
  assumes "fits msg" and "alloc_ok (word_of_nat (length msg))"
    and "snd (par msg) = p" and "pb_requesttype p = Some t"
    and "handle_request srv t p = Inr (srv', p')" and "writable w"
  shows "conn msg k f \<Longrightarrow> k \<le> length msg + 4 \<Longrightarrow> drop k (frame msg) = concat (concat evs) \<Longrightarrow>
    safe_events (length msg) k evs \<Longrightarrow> evs \<noteq> [] \<Longrightarrow>
    \<exists>f'. flow_run ser par alloc_ok w fd (map (map Read_data) evs) srv f =
      Inr (srv', Some f', response_bytes ser p')"
proof (induction evs arbitrary: k f)
  case Nil
  then show ?case by simp
next
  case (Cons cs evs)
  show ?case
  proof (cases "evs = []")
    case True
    with Cons.prems assms
      flow_data_complete [of msg k f cs alloc_ok par p t srv srv' p' w ser fd]
    obtain f' where "flow_data ser par alloc_ok w fd EV_READ (map Read_data cs) srv f =
        Inr (srv', Some f', response_bytes ser p')"
      by auto
    with True show ?thesis by simp
  next
    case False
    let ?k = "k + length (concat cs)"
    have split: "drop k (frame msg) = concat cs @ concat (concat evs)"
      using Cons.prems(3) by simp
    have lt: "?k < length msg"
      using Cons.prems(4) False by simp
    obtain f1 where f1: "flow_data ser par alloc_ok w fd EV_READ (map Read_data cs) srv f = Inr (srv, Some f1, [])"
        "receiving msg ?k f1"
      using flow_data_partial [of msg k f cs "concat (concat evs)" alloc_ok ser par w fd srv]
        assms(1,2) Cons.prems(1,4) split lt by auto
    have "conn msg ?k f1"
      using f1(2) by (rule receiving_conn)
    moreover have "drop ?k (frame msg) = concat (concat evs)"
    proof -
      have "drop ?k (frame msg) = drop (length (concat cs)) (drop k (frame msg))"
        by (simp add: add.commute)
      also have "\<dots> = concat (concat evs)" using split by simp
      finally show ?thesis .
    qed
    moreover have "safe_events (length msg) ?k evs"
      using Cons.prems(4) by simp
    moreover have "?k \<le> length msg + 4"
      using lt by simp
    ultimately obtain f' where "flow_run ser par alloc_ok w fd (map (map Read_data) evs) srv f1 =
        Inr (srv', Some f', response_bytes ser p')"
      using Cons.IH [of ?k f1] False by blast
    with f1(1) show ?thesis by simp
  qed
qed

section \<open>What the handler does with other arrivals\<close>

text \<open>A first read of fewer than four bytes: nothing is kept, and the empty message ends the flow.\<close>

lemma short_header_deletes:
  assumes "par [] = (ok, empty_payload)" and "length bs < 4"
  shows "flow_data ser par alloc_ok w fd EV_READ [Read_data bs] srv new_tcp_flow = Inr (srv, None, [])"
proof -
  have "unat (word_of_nat (length bs) :: u32) = length bs"
    using assms(2) by (simp add: unat_small)
  then show ?thesis
    using assms
    by (simp add: flow_data_def read_loop_pos flow_receive_def new_tcp_flow_def flow_parse_def flow_buffer_def
        empty_payload_def Let_def)
qed

text \<open>A first read of exactly the header leaves \<open>m_currlen\<close> without a value for the next chunk.\<close>

lemma header_only_uninitialised:
  assumes "fresh f" and "length hdr = 4" and "alloc_ok (le32 (hdr @ replicate (buflen - 4) 0))"
  shows "\<exists>f1. flow_receive alloc_ok f hdr = Inr f1 \<and>
    (curr_len f = None \<longrightarrow> flow_receive alloc_ok f1 bs = Inl Uninitialised)"
  using assms by (simp add: flow_receive_def fresh_def Let_def)

text \<open>Bytes beyond the announced length are written behind the end of the buffer.\<close>

lemma receive_overflow:
  assumes "receiving msg k f" and "fits msg" and "length msg + 4 < k + length bs"
  shows "flow_receive alloc_ok f bs = Inl Out_of_bounds"
proof -
  from assms(1) have k: "4 < k" "k \<le> length msg + 4"
    by (simp_all add: receiving_def)
  then obtain m where m: "k = m + 4"
    by (metis add.commute less_imp_add_positive)
  have "unat (word_of_nat m :: u32) = m"
    using k m assms(2) by (simp add: unat_small fits_def)
  then show ?thesis
    using assms(1,3) m by (simp add: flow_receive_def receiving_def Let_def memcpy_at_def)
qed

text \<open>
  The received length counts the header, the announced one does not: an event that leaves one to
  four bytes missing parses a buffer whose end is still zero.
\<close>

lemma flow_data_early:
  assumes "fits msg" and "conn msg k f" and "drop k (frame msg) = concat cs @ rest"
    and "length cs \<le> num_read_try" and "starts_well k cs" and "alloc_ok (word_of_nat (length msg))"
    and "length msg \<le> k + length (concat cs)"
  shows "\<exists>f'. receiving msg (k + length (concat cs)) f' \<and>
    flow_buffer f' = Inr (take (k + length (concat cs) - 4) msg @
      replicate (length msg + 4 - (k + length (concat cs))) 0) \<and>
    flow_data ser par alloc_ok w fd EV_READ (map Read_data cs) srv f = flow_parse ser par w srv f'"
proof -
  from conn_chunks [of msg k "f\<lparr>client_fd := fd\<rparr>" cs rest num_read_try alloc_ok] assms obtain f' where
      f': "read_loop alloc_ok num_read_try (map Read_data cs) (f\<lparr>client_fd := fd\<rparr>) = Inr (Loop_done, f', [])"
        "receiving msg (k + length (concat cs)) f'"
    by auto
  with f' receiving_lengths [OF f'(2) assms(1)] flow_buffer_receiving [OF f'(2) assms(1)] assms(7)
  show ?thesis
    by (auto simp: flow_data_def)
qed

section \<open>Properties\<close>

text \<open>C9: with the filter off, every request on a well-formed server does what the request means on the
  map and the counters: the store, the statistics and the response all agree with the specification, no
  request ends in an undefined way, and the server stays well-formed.\<close>

theorem requests_refine_specification:
  assumes "server_ok srv" and "\<not> bloom_enabled (srv_dict srv)"
  shows "\<exists>srv' p'. handle_request srv t p = Inr (srv', p') \<and> server_ok srv' \<and>
    \<not> bloom_enabled (srv_dict srv') \<and> (srv_abs srv', p') = spec_request t p (srv_abs srv)"
  using assms by (rule handle_request_refines)

definition new_server :: "'d server" where
  "new_server = \<lparr> srv_dict = new_dictionary, srv_stats = new_stats \<rparr>"

lemma new_server_ok: "server_ok new_server" "\<not> bloom_enabled (srv_dict new_server)"
  by (simp_all add: server_ok_def new_server_def new_dictionary_ok stats_balanced_new) (simp add: new_dictionary_def)

lemma new_server_abs: "srv_abs new_server = (Map.empty, new_stats)"
  by (simp add: srv_abs_def new_server_def dict_abs_def new_dictionary_def fun_eq_iff)

theorem requests_refine_specification_witness:
  "\<exists>srv' p'. handle_request (new_server :: unit server) GET (empty_payload\<lparr>pb_key := Some ''k''\<rparr>) = Inr (srv', p') \<and>
    pb_reason p' = Some ''NOT_FOUND'' \<and> num_get_req_fail (srv_stats srv') = 1"
proof -
  obtain srv' p' where r: "handle_request (new_server :: unit server) GET (empty_payload\<lparr>pb_key := Some ''k''\<rparr>) = Inr (srv', p')"
      "(srv_abs srv', p') = spec_request GET (empty_payload\<lparr>pb_key := Some ''k''\<rparr>) (srv_abs (new_server :: unit server))"
    using requests_refine_specification [OF new_server_ok] by blast
  from r(2) [unfolded new_server_abs] have "p' = empty_payload\<lparr>pb_key := Some ''k'', pb_reason := Some ''NOT_FOUND''\<rparr>"
      "srv_stats srv' = incrGetReqFail (incrGetReq new_stats)"
    by (simp_all add: srv_abs_def)
  with r(1) show ?thesis by (simp add: stats_defs)
qed

text \<open>With the filter on, a GET of a stored key is counted as a failure, and its value is sent in
  the field \<open>reason\<close>; the field \<open>value\<close> is not set.\<close>

theorem filtered_get_fails:
  assumes "server_ok srv" and "bloom_enabled (srv_dict srv)"
    and "dict_abs (srv_dict srv) (get_str (pb_key p)) = Some v"
  shows "handle_request srv GET p = Inr
    (srv\<lparr>srv_stats := incrGetReqFail (incrGetReq (srv_stats srv))\<rparr>, p\<lparr>pb_reason := Some v\<rparr>)"
  using handle_get_filtered [OF assms(1,2), of p] assms(3) by (auto simp: handle_request_def)

definition filtered_stored :: "real option dictionary" where
  "filtered_stored = snd (case dict_set filtered_sample ''k'' ''v'' of Inr r \<Rightarrow> r)"

lemma filtered_stored_ok:
  "dict_ok filtered_stored \<and> bloom_enabled filtered_stored \<and> dict_abs filtered_stored ''k'' = Some ''v''"
proof -
  have abs: "dict_abs filtered_sample = Map.empty"
    by (simp add: dict_abs_def filtered_sample_def fun_eq_iff)
  have en: "bloom_enabled filtered_sample" by (simp add: filtered_sample_def)
  have "dict_ok filtered_sample"
    using sample_filter_wf abs unfolding dict_ok_def dict_size_abs filter_covers_def
    by (simp add: bf.covers_def) (simp add: filtered_sample_def)
  from dict_set_refines [OF this, of "''k''" "''v''"] obtain b d' where
      d': "dict_set filtered_sample ''k'' ''v'' = Inr (b, d')" "dict_ok d'" "bloom_enabled d'"
        "(b, dict_abs d') = spec_set Map.empty ''k'' ''v''"
    unfolding abs using en by blast
  from d'(4) have "dict_abs d' ''k'' = Some ''v''" by (simp add: spec_set_def max_dict_size_def)
  with d'(1-3) show ?thesis by (simp add: filtered_stored_def)
qed

theorem filtered_get_fails_witness:
  "handle_request \<lparr>srv_dict = filtered_stored, srv_stats = new_stats\<rparr> GET (empty_payload\<lparr>pb_key := Some ''k''\<rparr>) = Inr
    (\<lparr>srv_dict = filtered_stored, srv_stats = incrGetReqFail (incrGetReq new_stats)\<rparr>,
     empty_payload\<lparr>pb_key := Some ''k'', pb_reason := Some ''v''\<rparr>)"
  using filtered_get_fails [of "\<lparr>srv_dict = filtered_stored, srv_stats = new_stats\<rparr>" "empty_payload\<lparr>pb_key := Some ''k''\<rparr>" "''v''"]
    filtered_stored_ok
  by (simp add: server_ok_def stats_balanced_new get_str_def)



text \<open>C26: while the peer takes no more bytes (every \<open>write\<close> gives \<open>EAGAIN\<close>), the loop never ends, and the
  worker thread with it.\<close>

theorem write_never_returns:
  assumes "\<And>i. w i = Write_err EAGAIN"
  shows "sendResponse ser w p = Inl Diverges"
proof -
  have "response_bytes ser p \<noteq> []" by (simp add: response_bytes_def)
  from write_loop_stuck [OF assms this] show ?thesis
    by (simp add: sendResponse_def socketWriteData_def del: rbind_Inl_iff)
qed

theorem write_never_returns_witness:
  "sendResponse (\<lambda>_. [8, 1]) (\<lambda>_. Write_err EAGAIN) empty_payload = Inl Diverges"
  by (rule write_never_returns) simp

text \<open>C27: a message of which at most the last four bytes are missing is parsed at once, with zeros in
  the place of the missing bytes, because the received length counts the header and the announced one does not.\<close>

theorem incomplete_message_parsed:
  assumes "fits msg" and "fresh f" and "frame msg = concat cs @ rest" and "length rest \<le> 4"
    and "length cs \<le> num_read_try" and "starts_well 0 cs" and "alloc_ok (word_of_nat (length msg))"
  shows "\<exists>f'. flow_data ser par alloc_ok w fd EV_READ (map Read_data cs) srv f = flow_parse ser par w srv f' \<and>
    flow_buffer f' = Inr (take (length msg - length rest) msg @ replicate (length rest) 0)"
proof -
  have len: "length (concat cs) + length rest = length msg + 4"
    using arg_cong [OF assms(3), of length] by simp
  have "conn msg 0 f" "drop 0 (frame msg) = concat cs @ rest" "length msg \<le> 0 + length (concat cs)"
    using assms(2-4) len by (simp_all add: conn_def)
  with flow_data_early [of msg 0 f cs rest alloc_ok ser par w fd srv] assms(1,5-7) obtain f' where
      f': "flow_buffer f' = Inr (take (length (concat cs) - 4) msg @ replicate (length msg + 4 - length (concat cs)) 0)"
        "flow_data ser par alloc_ok w fd EV_READ (map Read_data cs) srv f = flow_parse ser par w srv f'"
    by auto
  have "length (concat cs) - 4 = length msg - length rest" "length msg + 4 - length (concat cs) = length rest"
    using len by linarith+
  with f' show ?thesis by auto
qed

lemma sample_frame: "frame [8, 1, 18, 2, 65, 66] = [6, 0, 0, 0, 8, 1, 18, 2, 65, 66]"
proof -
  have "to_le32 6 = [6, 0, 0, 0]" by code_simp
  then show ?thesis by (simp add: frame_def)
qed

definition no_codec :: "payload \<Rightarrow> byte list" where
  "no_codec p = []"

definition no_parser :: "byte list \<Rightarrow> bool \<times> payload" where
  "no_parser bs = (False, empty_payload)"

theorem incomplete_message_parsed_witness:
  "\<exists>f'. flow_data no_codec no_parser (\<lambda>_. True) (\<lambda>_. Write_ok 1) 5 EV_READ
      [Read_data [6, 0, 0, 0, 8, 1, 18, 2, 65]] (new_server :: unit server) new_tcp_flow =
      flow_parse no_codec no_parser (\<lambda>_. Write_ok 1) new_server f' \<and> flow_buffer f' = Inr [8, 1, 18, 2, 65, 0]"
  using incomplete_message_parsed [of "[8, 1, 18, 2, 65, 66]" new_tcp_flow "[[6, 0, 0, 0, 8, 1, 18, 2, 65]]" "[66]"
      "\<lambda>_. True" no_codec no_parser "\<lambda>_. Write_ok 1" 5 "new_server :: unit server"]
  by (simp add: fits_def fresh_def new_tcp_flow_def sample_frame num_read_try_def starts_well_def)

text \<open>A first read of fewer than four bytes deletes the connection, whatever the bytes are.\<close>

theorem split_header_deletes_connection:
  assumes "par [] = (ok, empty_payload)" and "length bs < 4"
  shows "flow_data ser par alloc_ok w fd EV_READ [Read_data bs] srv new_tcp_flow = Inr (srv, None, [])"
  using assms by (rule short_header_deletes)

theorem split_header_deletes_connection_witness:
  "flow_data (\<lambda>_. []) (\<lambda>_. (False, empty_payload)) (\<lambda>_. True) (\<lambda>_. Write_ok 1) 5 EV_READ [Read_data [3, 0]]
    (new_server :: unit server) new_tcp_flow = Inr (new_server, None, [])"
  by (rule split_header_deletes_connection [where ok = False]) simp_all

text \<open>C28: bytes beyond the announced length, such as the start of a second request, are written behind
  the end of the buffer; and when the first read brings exactly the header, the next one uses a length that
  was never set.\<close>

theorem receive_undefined:
  shows "(receiving msg k f \<and> fits msg \<and> length msg + 4 < k + length bs \<longrightarrow>
      flow_receive alloc_ok f bs = Inl Out_of_bounds) \<and>
    (length hdr = 4 \<and> alloc_ok (le32 (hdr @ replicate (buflen - 4) 0)) \<longrightarrow>
      (\<exists>f1. flow_receive alloc_ok new_tcp_flow hdr = Inr f1 \<and> flow_receive alloc_ok f1 bs = Inl Uninitialised))"
proof -
  have "fresh new_tcp_flow" "curr_len new_tcp_flow = None" by (simp_all add: fresh_def new_tcp_flow_def)
  then show ?thesis
    using receive_overflow [of msg k f bs alloc_ok] header_only_uninitialised [of new_tcp_flow hdr alloc_ok bs]
    by blast
qed

theorem receive_undefined_witness:
  "\<exists>f1. flow_receive (\<lambda>_. True) new_tcp_flow [2, 0, 0, 0] = Inr f1 \<and>
    flow_receive (\<lambda>_. True) f1 [8, 1] = Inl Uninitialised"
  using receive_undefined [of "[]" 0 new_tcp_flow "[8, 1]" "\<lambda>_. True" "[2, 0, 0, 0]"] by simp

end
