(* ===== verification/ServiceThread.thy ===== *)
theory ServiceThread
  imports Prelude
begin

text \<open>
  The class \<open>ServiceThread\<close> (\<open>server/src/ServiceThread.cpp\<close>): a thread with an event loop, a queue of
  file descriptors filled by another thread, a socket pair that wakes the loop, and the protocol
  that stops it. First the operations as sequential functions on the thread's state, with the
  virtual functions of the derived class as arguments; then the same operations cut at their locks
  and system calls, as an interleaving of the three threads that take part: the one that dispatches
  descriptors, the service thread itself, and the one that calls \<open>stop\<close>.
\<close>

section \<open>State\<close>

text \<open>
  \<open>pipe_bytes\<close> is what has been written to \<open>m_sockets[0]\<close> and not yet read from \<open>m_sockets[1]\<close>;
  \<open>closed_fds\<close> records the descriptors that \<open>addFdToEvLoop\<close> closes; \<open>derived\<close> is the state of
  the derived class.
\<close>

record 's service_thread =
  pipe_bytes :: "char list"
  fd_queue :: "fd list"
  exited :: bool
  process_exiting :: bool
  loop_exit :: bool
  closed_fds :: "fd list"
  derived :: 's

definition new_service_thread :: "'s \<Rightarrow> 's service_thread" where
  "new_service_thread d =
     \<lparr> pipe_bytes = [], fd_queue = [], exited = False, process_exiting = False, loop_exit = False,
       closed_fds = [], derived = d \<rparr>"

section \<open>Operations\<close>

definition getCurrentFdQueueSize :: "'s service_thread \<Rightarrow> u32" where
  "getCurrentFdQueueSize t = word_of_nat (length (fd_queue t))"

text \<open>\<open>write_ok\<close>: the write of the wake-up byte succeeds.\<close>

definition addFdToEvLoop :: "bool \<Rightarrow> fd \<Rightarrow> 's service_thread \<Rightarrow> bool \<times> 's service_thread" where
  "addFdToEvLoop write_ok fd t =
     (if \<not> write_ok then (False, t\<lparr>closed_fds := closed_fds t @ [fd]\<rparr>)
      else (True, t\<lparr>pipe_bytes := pipe_bytes t @ ''c'', fd_queue := fd_queue t @ [fd]\<rparr>))"

definition stopThread :: "'s service_thread \<Rightarrow> 's service_thread" where
  "stopThread t = t\<lparr>loop_exit := True\<rparr>"

text \<open>The loop of \<open>onEvent\<close> that empties the queue.\<close>

fun drain_queue :: "(bool \<Rightarrow> fd \<Rightarrow> 's \<Rightarrow> 's) \<Rightarrow> bool \<Rightarrow> fd list \<Rightarrow> 's \<Rightarrow> 's" where
  "drain_queue processEvent exiting [] d = d"
| "drain_queue processEvent exiting (fd # q) d =
     drain_queue processEvent exiting q (processEvent exiting fd d)"

definition onEvent ::
  "(bool \<Rightarrow> fd \<Rightarrow> 's \<Rightarrow> 's) \<Rightarrow> ('s \<Rightarrow> 's) \<Rightarrow> 's service_thread \<Rightarrow> 's service_thread" where
  "onEvent processEvent cleanState t =
     (case pipe_bytes t of
        [] \<Rightarrow> t
      | b # p \<Rightarrow>
          let t1 = t\<lparr>pipe_bytes := p\<rparr> in
          if b = CHR ''e'' then stopThread (t1\<lparr>derived := cleanState (derived t1)\<rparr>)
          else t1\<lparr>fd_queue := [],
            derived := drain_queue processEvent (process_exiting t1) (fd_queue t1) (derived t1)\<rparr>)"

text \<open>\<open>stop\<close> up to the wait: the flag is set, and the byte that asks the loop to end is written.\<close>

definition stop_request :: "bool \<Rightarrow> 's service_thread \<Rightarrow> bool \<times> 's service_thread" where
  "stop_request write_ok t =
     (let t1 = t\<lparr>process_exiting := True\<rparr> in
      if \<not> write_ok then (False, t1) else (True, t1\<lparr>pipe_bytes := pipe_bytes t1 @ ''e''\<rparr>))"

text \<open>
  \<open>run\<close> up to the event loop: what \<open>new\<close>, \<open>initEv\<close> and \<open>socketpair\<close> return is an argument, as is
  \<open>initApp\<close>, whose exception (\<open>None\<close>) leaves the thread function and ends the process.
\<close>

datatype 's run_result = Run_returned "'s service_thread" | Run_looping "'s service_thread" | Process_terminated

definition run_start ::
  "bool \<Rightarrow> bool \<Rightarrow> bool \<Rightarrow> ('s \<Rightarrow> 's option) \<Rightarrow> 's service_thread \<Rightarrow> 's run_result" where
  "run_start new_ok ev_ok pair_ok initApp t =
     (if \<not> new_ok then Run_returned t
      else if \<not> ev_ok then Run_returned t
      else if \<not> pair_ok then Run_returned t
      else case initApp (derived t) of
        None \<Rightarrow> Process_terminated
      | Some d \<Rightarrow> Run_looping (t\<lparr>derived := d\<rparr>))"

definition run_finish :: "'s service_thread \<Rightarrow> 's service_thread" where
  "run_finish t = t\<lparr>exited := True\<rparr>"

text \<open>
  \<open>start\<close>: a new context, with an empty queue and no socket pair, and the thread function either in the
  calling thread or in one of its own.
\<close>

datatype 's start_result = Thread_spawned "'s service_thread" | Ran_inline "'s run_result"

definition thread_start ::
  "bool \<Rightarrow> ('s service_thread \<Rightarrow> 's run_result) \<Rightarrow> 's service_thread \<Rightarrow> 's start_result" where
  "thread_start spawnThread run t =
     (let t1 = t\<lparr>pipe_bytes := [], fd_queue := []\<rparr> in
      if \<not> spawnThread then Ran_inline (run t1) else Thread_spawned t1)"

lemma thread_start_fresh: "thread_start True run (new_service_thread d) = Thread_spawned (new_service_thread d)"
  by (simp add: thread_start_def new_service_thread_def)

section \<open>The interface to the derived classes\<close>

text \<open>The overridden functions keep an invariant of the derived class's state.\<close>

locale service_hooks =
  fixes processEvent :: "bool \<Rightarrow> fd \<Rightarrow> 's \<Rightarrow> 's"
    and cleanState :: "'s \<Rightarrow> 's"
    and hook_inv :: "'s \<Rightarrow> bool"
  assumes processEvent_inv: "hook_inv d \<Longrightarrow> hook_inv (processEvent b fd d)"
    and cleanState_inv: "hook_inv d \<Longrightarrow> hook_inv (cleanState d)"
begin

lemma drain_inv: "hook_inv d \<Longrightarrow> hook_inv (drain_queue processEvent b q d)"
  by (induction q arbitrary: d) (auto intro: processEvent_inv)

lemma onEvent_inv: "hook_inv (derived t) \<Longrightarrow> hook_inv (derived (onEvent processEvent cleanState t))"
  by (auto simp: onEvent_def stopThread_def Let_def split: list.splits
      intro: drain_inv cleanState_inv)

end

section \<open>Threads and their interleaving\<close>

datatype thread_id = Producer | Consumer | Stopper

text \<open>Where each thread is: in \<open>addFdToEvLoop\<close>, in \<open>onEvent\<close> and the end of \<open>run\<close>, in \<open>stop\<close>.\<close>

datatype producer_pc = P_idle | P_locked fd | P_written fd

datatype consumer_pc = C_poll | C_got | C_drain | C_exited | C_notify | C_done

datatype stopper_pc = S_idle | S_flagged | S_written | S_check | S_sleep | S_woken | S_done bool

text \<open>
  \<open>queue_lock\<close> is \<open>m_threadCtxMtx\<close>, \<open>stop_lock\<close> is \<open>m_threadStopMtx\<close>. \<open>dispatched\<close> and \<open>processed\<close>
  record the descriptors that were put into the queue and those given to \<open>processEvent\<close>.
\<close>

record 's tsys =
  thr :: "'s service_thread"
  prod_pc :: producer_pc
  cons_pc :: consumer_pc
  stop_pc :: stopper_pc
  queue_lock :: "thread_id option"
  stop_lock :: "thread_id option"
  dispatched :: "fd list"
  processed :: "fd list"

definition init_tsys :: "'s \<Rightarrow> 's tsys" where
  "init_tsys d =
     \<lparr> thr = new_service_thread d, prod_pc = P_idle, cons_pc = C_poll, stop_pc = S_idle,
       queue_lock = None, stop_lock = None, dispatched = [], processed = [] \<rparr>"

text \<open>The steps that the threads take by themselves once a call has begun.\<close>

inductive thread_step :: "(bool \<Rightarrow> fd \<Rightarrow> 's \<Rightarrow> 's) \<Rightarrow> ('s \<Rightarrow> 's) \<Rightarrow> 's tsys \<Rightarrow> 's tsys \<Rightarrow> bool"
  for processEvent cleanState where
  p_write: "prod_pc s = P_locked fd \<Longrightarrow>
    thread_step processEvent cleanState s
      (s\<lparr>thr := (thr s)\<lparr>pipe_bytes := pipe_bytes (thr s) @ ''c''\<rparr>, prod_pc := P_written fd\<rparr>)"
| p_fail: "prod_pc s = P_locked fd \<Longrightarrow>
    thread_step processEvent cleanState s
      (s\<lparr>thr := (thr s)\<lparr>closed_fds := closed_fds (thr s) @ [fd]\<rparr>, prod_pc := P_idle, queue_lock := None\<rparr>)"
| p_push: "prod_pc s = P_written fd \<Longrightarrow>
    thread_step processEvent cleanState s
      (s\<lparr>thr := (thr s)\<lparr>fd_queue := fd_queue (thr s) @ [fd]\<rparr>, prod_pc := P_idle, queue_lock := None,
         dispatched := dispatched s @ [fd]\<rparr>)"
| c_read_c: "cons_pc s = C_poll \<Longrightarrow> pipe_bytes (thr s) = b # p \<Longrightarrow> b \<noteq> CHR ''e'' \<Longrightarrow>
    thread_step processEvent cleanState s (s\<lparr>thr := (thr s)\<lparr>pipe_bytes := p\<rparr>, cons_pc := C_got\<rparr>)"
| c_read_e: "cons_pc s = C_poll \<Longrightarrow> pipe_bytes (thr s) = CHR ''e'' # p \<Longrightarrow>
    thread_step processEvent cleanState s
      (s\<lparr>thr := (thr s)\<lparr>pipe_bytes := p, derived := cleanState (derived (thr s)), loop_exit := True\<rparr>\<rparr>)"
| c_lock: "cons_pc s = C_got \<Longrightarrow> queue_lock s = None \<Longrightarrow>
    thread_step processEvent cleanState s (s\<lparr>cons_pc := C_drain, queue_lock := Some Consumer\<rparr>)"
| c_process: "cons_pc s = C_drain \<Longrightarrow> fd_queue (thr s) = fd # q \<Longrightarrow>
    thread_step processEvent cleanState s
      (s\<lparr>thr := (thr s)\<lparr>fd_queue := q,
           derived := processEvent (process_exiting (thr s)) fd (derived (thr s))\<rparr>,
         processed := processed s @ [fd]\<rparr>)"
| c_unlock: "cons_pc s = C_drain \<Longrightarrow> fd_queue (thr s) = [] \<Longrightarrow>
    thread_step processEvent cleanState s (s\<lparr>cons_pc := C_poll, queue_lock := None\<rparr>)"
| c_leave: "cons_pc s = C_poll \<Longrightarrow> loop_exit (thr s) \<Longrightarrow>
    thread_step processEvent cleanState s (s\<lparr>thr := (thr s)\<lparr>exited := True\<rparr>, cons_pc := C_exited\<rparr>)"
| c_stop_lock: "cons_pc s = C_exited \<Longrightarrow> stop_lock s = None \<Longrightarrow>
    thread_step processEvent cleanState s (s\<lparr>cons_pc := C_notify, stop_lock := Some Consumer\<rparr>)"
| c_notify: "cons_pc s = C_notify \<Longrightarrow>
    thread_step processEvent cleanState s
      (s\<lparr>cons_pc := C_done, stop_lock := None,
         stop_pc := (if stop_pc s = S_sleep then S_woken else stop_pc s)\<rparr>)"
| s_write: "stop_pc s = S_flagged \<Longrightarrow>
    thread_step processEvent cleanState s
      (s\<lparr>thr := (thr s)\<lparr>pipe_bytes := pipe_bytes (thr s) @ ''e''\<rparr>, stop_pc := S_written\<rparr>)"
| s_fail: "stop_pc s = S_flagged \<Longrightarrow>
    thread_step processEvent cleanState s (s\<lparr>stop_pc := S_done False\<rparr>)"
| s_lock: "stop_pc s = S_written \<or> stop_pc s = S_woken \<Longrightarrow> stop_lock s = None \<Longrightarrow>
    thread_step processEvent cleanState s (s\<lparr>stop_pc := S_check, stop_lock := Some Stopper\<rparr>)"
| s_pass: "stop_pc s = S_check \<Longrightarrow> exited (thr s) \<Longrightarrow>
    thread_step processEvent cleanState s (s\<lparr>stop_pc := S_done True, stop_lock := None\<rparr>)"
| s_wait: "stop_pc s = S_check \<Longrightarrow> \<not> exited (thr s) \<Longrightarrow>
    thread_step processEvent cleanState s (s\<lparr>stop_pc := S_sleep, stop_lock := None\<rparr>)"

text \<open>
  The steps of the environment: a call of \<open>addFdToEvLoop\<close> takes the lock, a call of \<open>stop\<close> sets the
  flag, a waiting \<open>stop\<close> wakes up spuriously.
\<close>

inductive env_step :: "'s tsys \<Rightarrow> 's tsys \<Rightarrow> bool" where
  p_call: "prod_pc s = P_idle \<Longrightarrow> queue_lock s = None \<Longrightarrow>
    env_step s (s\<lparr>prod_pc := P_locked fd, queue_lock := Some Producer\<rparr>)"
| s_call: "stop_pc s = S_idle \<Longrightarrow>
    env_step s (s\<lparr>thr := (thr s)\<lparr>process_exiting := True\<rparr>, stop_pc := S_flagged\<rparr>)"
| s_spurious: "stop_pc s = S_sleep \<Longrightarrow> env_step s (s\<lparr>stop_pc := S_woken\<rparr>)"

inductive treachable :: "(bool \<Rightarrow> fd \<Rightarrow> 's \<Rightarrow> 's) \<Rightarrow> ('s \<Rightarrow> 's) \<Rightarrow> 's \<Rightarrow> 's tsys \<Rightarrow> bool"
  for processEvent cleanState d where
  t_init: "treachable processEvent cleanState d (init_tsys d)"
| t_step: "treachable processEvent cleanState d s \<Longrightarrow> thread_step processEvent cleanState s t \<Longrightarrow>
    treachable processEvent cleanState d t"
| t_env: "treachable processEvent cleanState d s \<Longrightarrow> env_step s t \<Longrightarrow>
    treachable processEvent cleanState d t"

inductive_cases thread_stepE: "thread_step processEvent cleanState s t"
inductive_cases env_stepE: "env_step s t"

lemmas thread_step_intros = thread_step.intros

section \<open>Invariants\<close>

text \<open>Who holds which lock.\<close>

definition locks_ok :: "'s tsys \<Rightarrow> bool" where
  "locks_ok s \<longleftrightarrow>
     (queue_lock s = Some Producer \<longleftrightarrow> prod_pc s \<noteq> P_idle) \<and>
     (queue_lock s = Some Consumer \<longleftrightarrow> cons_pc s = C_drain) \<and>
     queue_lock s \<noteq> Some Stopper \<and>
     (stop_lock s = Some Stopper \<longleftrightarrow> stop_pc s = S_check) \<and>
     (stop_lock s = Some Consumer \<longleftrightarrow> cons_pc s = C_notify) \<and>
     stop_lock s \<noteq> Some Producer"

text \<open>Every dispatched descriptor is processed or still queued, in the order of dispatch.\<close>

definition fifo_ok :: "'s tsys \<Rightarrow> bool" where
  "fifo_ok s \<longleftrightarrow> dispatched s = processed s @ fd_queue (thr s)"

text \<open>
  No lost wake-up: while a descriptor waits (or is about to be queued), a wake-up byte is under way
  or the consumer is about to empty the queue, unless the loop has ended.
\<close>

definition loop_over :: "consumer_pc \<Rightarrow> bool" where
  "loop_over c \<longleftrightarrow> c = C_exited \<or> c = C_notify \<or> c = C_done"

definition wakeup_ok :: "'s tsys \<Rightarrow> bool" where
  "wakeup_ok s \<longleftrightarrow>
     (fd_queue (thr s) \<noteq> [] \<or> (\<exists>fd. prod_pc s = P_written fd) \<longrightarrow>
      CHR ''c'' \<in> set (pipe_bytes (thr s)) \<or> cons_pc s = C_got \<or> cons_pc s = C_drain \<or>
      loop_over (cons_pc s))"

text \<open>
  The stop protocol: \<open>exited\<close> says that the loop is over; a written request is in the pipe or has
  been taken up; nobody sleeps after the notification; \<open>stop\<close> reports success only after the end.
\<close>

definition exited_ok :: "'s tsys \<Rightarrow> bool" where
  "exited_ok s \<longleftrightarrow> (exited (thr s) \<longleftrightarrow> loop_over (cons_pc s))"

definition waiting :: "stopper_pc \<Rightarrow> bool" where
  "waiting p \<longleftrightarrow> p = S_written \<or> p = S_check \<or> p = S_sleep \<or> p = S_woken"

definition request_ok :: "'s tsys \<Rightarrow> bool" where
  "request_ok s \<longleftrightarrow>
     (waiting (stop_pc s) \<longrightarrow> CHR ''e'' \<in> set (pipe_bytes (thr s)) \<or> loop_exit (thr s))"

definition sleep_ok :: "'s tsys \<Rightarrow> bool" where
  "sleep_ok s \<longleftrightarrow> (stop_pc s = S_sleep \<longrightarrow> cons_pc s \<noteq> C_done)"

definition done_ok :: "'s tsys \<Rightarrow> bool" where
  "done_ok s \<longleftrightarrow> (stop_pc s = S_done True \<longrightarrow> exited (thr s))"

definition flag_ok :: "'s tsys \<Rightarrow> bool" where
  "flag_ok s \<longleftrightarrow> (stop_pc s \<noteq> S_idle \<longrightarrow> process_exiting (thr s))"

definition stop_ok :: "'s tsys \<Rightarrow> bool" where
  "stop_ok s \<longleftrightarrow> exited_ok s \<and> request_ok s \<and> sleep_ok s \<and> done_ok s \<and> flag_ok s"

lemmas stop_defs = stop_ok_def exited_ok_def request_ok_def sleep_ok_def done_ok_def flag_ok_def
  waiting_def

definition tsys_ok :: "'s tsys \<Rightarrow> bool" where
  "tsys_ok s \<longleftrightarrow> locks_ok s \<and> fifo_ok s \<and> wakeup_ok s \<and> stop_ok s"

lemma init_tsys_ok: "tsys_ok (init_tsys d)"
  by (simp add: tsys_ok_def locks_ok_def fifo_ok_def wakeup_ok_def stop_defs init_tsys_def
      new_service_thread_def loop_over_def)

lemma locks_step:
  assumes "thread_step pe cs s t" and "locks_ok s"
  shows "locks_ok t"
  using assms(1) by (cases rule: thread_step.cases) (use assms(2) in \<open>auto simp: locks_ok_def\<close>)

lemma fifo_step:
  assumes "thread_step pe cs s t" and "fifo_ok s"
  shows "fifo_ok t"
  using assms(1) by (cases rule: thread_step.cases) (use assms(2) in \<open>auto simp: fifo_ok_def\<close>)

lemma wakeup_step:
  assumes "thread_step pe cs s t" and "locks_ok s" and "wakeup_ok s"
  shows "wakeup_ok t"
  using assms(1)
  by (cases rule: thread_step.cases)
    (use assms(2,3) in \<open>simp_all add: wakeup_ok_def locks_ok_def loop_over_def, auto\<close>)

lemma exited_step:
  assumes "thread_step pe cs s t" and "exited_ok s"
  shows "exited_ok t"
  using assms(1)
  by (cases rule: thread_step.cases) (use assms(2) in \<open>auto simp: exited_ok_def loop_over_def\<close>)

lemma request_step:
  assumes "thread_step pe cs s t" and "request_ok s"
  shows "request_ok t"
  using assms(1)
  by (cases rule: thread_step.cases)
    (use assms(2) in \<open>auto simp: request_ok_def waiting_def split: if_splits\<close>)

lemma sleep_step:
  assumes "thread_step pe cs s t" and "exited_ok s" and "sleep_ok s"
  shows "sleep_ok t"
  using assms(1)
  by (cases rule: thread_step.cases)
    (use assms(2,3) in \<open>auto simp: sleep_ok_def exited_ok_def loop_over_def\<close>)

lemma done_step:
  assumes "thread_step pe cs s t" and "done_ok s"
  shows "done_ok t"
  using assms(1) by (cases rule: thread_step.cases) (use assms(2) in \<open>auto simp: done_ok_def\<close>)

lemma flag_step:
  assumes "thread_step pe cs s t" and "flag_ok s"
  shows "flag_ok t"
  using assms(1) by (cases rule: thread_step.cases) (use assms(2) in \<open>auto simp: flag_ok_def\<close>)

lemma stop_step: "thread_step pe cs s t \<Longrightarrow> stop_ok s \<Longrightarrow> stop_ok t"
  unfolding stop_ok_def
  by (blast intro: exited_step request_step sleep_step done_step flag_step)

lemma thread_step_ok: "thread_step pe cs s t \<Longrightarrow> tsys_ok s \<Longrightarrow> tsys_ok t"
  unfolding tsys_ok_def by (blast intro: locks_step fifo_step wakeup_step stop_step)

lemma env_step_ok: "env_step s t \<Longrightarrow> tsys_ok s \<Longrightarrow> tsys_ok t"
  by (erule env_stepE)
    (auto simp: tsys_ok_def locks_ok_def fifo_ok_def wakeup_ok_def stop_defs loop_over_def)

lemma treachable_ok: "treachable pe cs d s \<Longrightarrow> tsys_ok s"
  by (induction rule: treachable.induct) (auto intro: init_tsys_ok thread_step_ok env_step_ok)

section \<open>Termination of a stop\<close>

text \<open>Every step of the threads themselves makes this number smaller.\<close>

fun prod_rank :: "producer_pc \<Rightarrow> nat" where
  "prod_rank P_idle = 0"
| "prod_rank (P_locked _) = 7"
| "prod_rank (P_written _) = 2"

fun cons_rank :: "consumer_pc \<Rightarrow> nat" where
  "cons_rank C_got = 6"
| "cons_rank C_drain = 5"
| "cons_rank C_poll = 4"
| "cons_rank C_exited = 3"
| "cons_rank C_notify = 2"
| "cons_rank C_done = 0"

fun stop_rank :: "bool \<Rightarrow> stopper_pc \<Rightarrow> nat" where
  "stop_rank ex S_idle = 12"
| "stop_rank ex S_flagged = 11"
| "stop_rank ex S_written = 6"
| "stop_rank ex S_woken = (if ex then 2 else 5)"
| "stop_rank ex S_check = (if ex then 1 else 4)"
| "stop_rank ex S_sleep = 3"
| "stop_rank ex (S_done _) = 0"

definition work_left :: "'s tsys \<Rightarrow> nat" where
  "work_left s = 4 * length (pipe_bytes (thr s)) + length (fd_queue (thr s)) +
     prod_rank (prod_pc s) + cons_rank (cons_pc s) + stop_rank (exited (thr s)) (stop_pc s)"

lemma thread_step_work:
  "thread_step pe cs s t \<Longrightarrow> tsys_ok s \<Longrightarrow> work_left t < work_left s"
  by (erule thread_stepE)
    (cases "stop_pc s"; auto simp: work_left_def tsys_ok_def stop_defs loop_over_def)+

text \<open>As long as a \<open>stop\<close> is under way, some thread can take a step.\<close>

lemma stop_progress:
  assumes "tsys_ok s" and "stop_pc s \<noteq> S_idle" and "\<And>b. stop_pc s \<noteq> S_done b"
  shows "\<exists>t. thread_step pe cs s t"
proof (cases "cons_pc s")
  case C_poll
  show ?thesis
  proof (cases "pipe_bytes (thr s)")
    case Nil
    show ?thesis
    proof (cases "stop_pc s = S_flagged")
      case True
      then show ?thesis by (blast intro: s_write)
    next
      case False
      with assms Nil have "loop_exit (thr s)"
        by (cases "stop_pc s") (auto simp: tsys_ok_def stop_defs)
      with C_poll show ?thesis by (blast intro: c_leave)
    qed
  next
    case (Cons b p)
    with C_poll show ?thesis
      by (cases "b = CHR ''e''") (blast intro: c_read_c c_read_e)+
  qed
next
  case C_got
  show ?thesis
  proof (cases "prod_pc s")
    case P_idle
    with assms(1) C_got have "queue_lock s = None"
      by (cases "queue_lock s"; cases "the (queue_lock s)") (auto simp: tsys_ok_def locks_ok_def)
    with C_got show ?thesis by (blast intro: c_lock)
  qed (blast intro: p_write p_push)+
next
  case C_drain
  then show ?thesis by (cases "fd_queue (thr s)") (blast intro: c_unlock c_process)+
next
  case C_exited
  show ?thesis
  proof (cases "stop_pc s = S_check")
    case True
    then show ?thesis by (cases "exited (thr s)") (blast intro: s_pass s_wait)+
  next
    case False
    with assms(1) C_exited have "stop_lock s = None"
      by (cases "stop_lock s"; cases "the (stop_lock s)") (auto simp: tsys_ok_def locks_ok_def)
    with C_exited show ?thesis by (blast intro: c_stop_lock)
  qed
next
  case C_notify
  then show ?thesis by (blast intro: c_notify)
next
  case C_done
  with assms(1) have free: "stop_pc s \<noteq> S_check \<Longrightarrow> stop_lock s = None"
    by (cases "stop_lock s"; cases "the (stop_lock s)") (auto simp: tsys_ok_def locks_ok_def)
  from C_done assms(1) have "stop_pc s \<noteq> S_sleep"
    by (simp add: tsys_ok_def stop_defs)
  with assms(2,3) consider "stop_pc s = S_flagged" | "stop_pc s = S_written \<or> stop_pc s = S_woken"
    | "stop_pc s = S_check"
    by (cases "stop_pc s") auto
  then show ?thesis
  proof cases
    case 2
    with free have "stop_lock s = None" by auto
    with 2 show ?thesis by (blast intro: s_lock)
  next
    case 3
    then show ?thesis by (cases "exited (thr s)") (blast intro: s_pass s_wait)+
  qed (blast intro: s_write)
qed

lemma thread_step_not_idle: "thread_step pe cs s t \<Longrightarrow> stop_pc s \<noteq> S_idle \<Longrightarrow> stop_pc t \<noteq> S_idle"
  by (erule thread_stepE) auto

text \<open>
  From any state in which a \<open>stop\<close> is under way, and without new calls, the threads run to the
  state in which \<open>stop\<close> has returned, whatever the scheduler does.
\<close>

lemma stop_inevitable:
  assumes "tsys_ok s" and "stop_pc s \<noteq> S_idle"
  shows "inevitable (thread_step pe cs) (\<lambda>s. \<exists>b. stop_pc s = S_done b) s"
proof (rule inevitable_measure [where I = "\<lambda>s. tsys_ok s \<and> stop_pc s \<noteq> S_idle" and m = work_left])
  show "tsys_ok s \<and> stop_pc s \<noteq> S_idle" using assms by simp
  show "tsys_ok s \<and> stop_pc s \<noteq> S_idle \<Longrightarrow> \<not> (\<exists>b. stop_pc s = S_done b) \<Longrightarrow>
      \<exists>t. thread_step pe cs s t" for s
    using stop_progress by blast
  show "tsys_ok s \<and> stop_pc s \<noteq> S_idle \<Longrightarrow> thread_step pe cs s t \<Longrightarrow>
      tsys_ok t \<and> stop_pc t \<noteq> S_idle" for s t
    using thread_step_ok thread_step_not_idle by blast
  show "tsys_ok s \<and> stop_pc s \<noteq> S_idle \<Longrightarrow> thread_step pe cs s t \<Longrightarrow> work_left t < work_left s" for s t
    by (blast intro: thread_step_work)
qed

section \<open>Delivery of the dispatched descriptors\<close>

text \<open>Only a \<open>stop\<close> makes the loop end.\<close>

definition origin_ok :: "'s tsys \<Rightarrow> bool" where
  "origin_ok s \<longleftrightarrow>
     (stop_pc s = S_idle \<or> stop_pc s = S_flagged \<longrightarrow>
        CHR ''e'' \<notin> set (pipe_bytes (thr s)) \<and> \<not> loop_exit (thr s)) \<and>
     (loop_over (cons_pc s) \<longrightarrow> loop_exit (thr s))"

lemma init_origin: "origin_ok (init_tsys d)"
  by (simp add: origin_ok_def init_tsys_def new_service_thread_def loop_over_def)

lemma origin_step:
  assumes "thread_step pe cs s t" and "origin_ok s"
  shows "origin_ok t"
  using assms(1)
  by (cases rule: thread_step.cases)
    (use assms(2) in \<open>auto simp: origin_ok_def loop_over_def split: if_splits\<close>)

lemma origin_env: "env_step s t \<Longrightarrow> origin_ok s \<Longrightarrow> origin_ok t"
  by (erule env_stepE) (auto simp: origin_ok_def)

lemma treachable_origin: "treachable pe cs d s \<Longrightarrow> origin_ok s"
  by (induction rule: treachable.induct) (auto intro: init_origin origin_step origin_env)

definition delivered :: "'s tsys \<Rightarrow> bool" where
  "delivered s \<longleftrightarrow> fd_queue (thr s) = [] \<and> prod_pc s = P_idle \<and> processed s = dispatched s"

text \<open>While no \<open>stop\<close> has been called, the threads are stuck only when everything is delivered.\<close>

lemma delivery_progress:
  assumes "tsys_ok s" and "origin_ok s" and "stop_pc s = S_idle" and "\<not> delivered s"
  shows "\<exists>t. thread_step pe cs s t"
proof (cases "prod_pc s")
  case P_idle
  with assms(1,4) have q: "fd_queue (thr s) \<noteq> []"
    by (auto simp: tsys_ok_def fifo_ok_def delivered_def)
  from assms(2,3) have over: "\<not> loop_over (cons_pc s)"
    by (auto simp: origin_ok_def)
  show ?thesis
  proof (cases "cons_pc s")
    case C_poll
    with q over assms(1) have "CHR ''c'' \<in> set (pipe_bytes (thr s))"
      by (auto simp: tsys_ok_def wakeup_ok_def)
    then obtain b p where "pipe_bytes (thr s) = b # p"
      by (cases "pipe_bytes (thr s)") auto
    with C_poll show ?thesis
      by (cases "b = CHR ''e''") (blast intro: c_read_c c_read_e)+
  next
    case C_got
    with P_idle assms(1) have "queue_lock s = None"
      by (cases "queue_lock s"; cases "the (queue_lock s)") (auto simp: tsys_ok_def locks_ok_def)
    with C_got show ?thesis by (blast intro: c_lock)
  next
    case C_drain
    then show ?thesis by (cases "fd_queue (thr s)") (blast intro: c_unlock c_process)+
  qed (use over in \<open>simp_all add: loop_over_def\<close>)
qed (blast intro: p_write p_push)+

lemma thread_step_idle: "thread_step pe cs s t \<Longrightarrow> stop_pc s = S_idle \<Longrightarrow> stop_pc t = S_idle"
  by (erule thread_stepE) auto

lemma delivery_inevitable:
  assumes "tsys_ok s" and "origin_ok s" and "stop_pc s = S_idle"
  shows "inevitable (thread_step pe cs) delivered s"
proof (rule inevitable_measure [where m = work_left
      and I = "\<lambda>s. tsys_ok s \<and> origin_ok s \<and> stop_pc s = S_idle"])
  show "tsys_ok s \<and> origin_ok s \<and> stop_pc s = S_idle" using assms by simp
  show "tsys_ok s \<and> origin_ok s \<and> stop_pc s = S_idle \<Longrightarrow> \<not> delivered s \<Longrightarrow>
      \<exists>t. thread_step pe cs s t" for s
    by (blast intro: delivery_progress)
  show "tsys_ok s \<and> origin_ok s \<and> stop_pc s = S_idle \<Longrightarrow> thread_step pe cs s t \<Longrightarrow>
      tsys_ok t \<and> origin_ok t \<and> stop_pc t = S_idle" for s t
    by (blast intro: thread_step_ok origin_step thread_step_idle)
  show "tsys_ok s \<and> origin_ok s \<and> stop_pc s = S_idle \<Longrightarrow> thread_step pe cs s t \<Longrightarrow>
      work_left t < work_left s" for s t
    by (blast intro: thread_step_work)
qed

section \<open>The sequential operations as runs\<close>

definition any_step where
  "any_step processEvent cleanState s t \<longleftrightarrow> thread_step processEvent cleanState s t \<or> env_step s t"

text \<open>A call of \<open>addFdToEvLoop\<close> that is not interrupted is the sequential function.\<close>

lemma add_refines:
  assumes "prod_pc s = P_idle" and "queue_lock s = None"
  shows "(any_step pe cs)\<^sup>*\<^sup>* s
    (s\<lparr>thr := snd (addFdToEvLoop True fd (thr s)), dispatched := dispatched s @ [fd]\<rparr>)"
proof -
  let ?s1 = "s\<lparr>prod_pc := P_locked fd, queue_lock := Some Producer\<rparr>"
  let ?s2 = "?s1\<lparr>thr := (thr ?s1)\<lparr>pipe_bytes := pipe_bytes (thr ?s1) @ ''c''\<rparr>, prod_pc := P_written fd\<rparr>"
  let ?s3 = "?s2\<lparr>thr := (thr ?s2)\<lparr>fd_queue := fd_queue (thr ?s2) @ [fd]\<rparr>, prod_pc := P_idle,
    queue_lock := None, dispatched := dispatched ?s2 @ [fd]\<rparr>"
  have "any_step pe cs s ?s1"
    using p_call [OF assms, of fd] by (simp add: any_step_def)
  moreover have "any_step pe cs ?s1 ?s2"
    using p_write [of ?s1 fd pe cs] by (simp add: any_step_def)
  moreover have "any_step pe cs ?s2 ?s3"
    using p_push [of ?s2 fd pe cs] by (simp add: any_step_def)
  moreover have "?s3 = s\<lparr>thr := snd (addFdToEvLoop True fd (thr s)), dispatched := dispatched s @ [fd]\<rparr>"
    using assms by (cases s) (simp add: addFdToEvLoop_def)
  ultimately show ?thesis
    by (metis (no_types, lifting) converse_rtranclp_into_rtranclp rtranclp.rtrancl_refl)
qed

lemma drain_steps:
  "cons_pc s = C_drain \<Longrightarrow> fd_queue (thr s) = q \<Longrightarrow> (any_step pe cs)\<^sup>*\<^sup>* s
     (s\<lparr>thr := (thr s)\<lparr>fd_queue := [],
          derived := drain_queue pe (process_exiting (thr s)) q (derived (thr s))\<rparr>,
        processed := processed s @ q\<rparr>)"
proof (induction q arbitrary: s)
  case Nil
  then have "s\<lparr>thr := (thr s)\<lparr>fd_queue := [],
      derived := drain_queue pe (process_exiting (thr s)) [] (derived (thr s))\<rparr>,
      processed := processed s @ []\<rparr> = s"
    by (cases s; cases "thr s") simp
  then show ?case by simp
next
  case (Cons fd q)
  let ?t = "s\<lparr>thr := (thr s)\<lparr>fd_queue := q,
      derived := pe (process_exiting (thr s)) fd (derived (thr s))\<rparr>, processed := processed s @ [fd]\<rparr>"
  have "any_step pe cs s ?t"
    using c_process [OF Cons.prems, of pe cs] by (simp add: any_step_def)
  moreover have "(any_step pe cs)\<^sup>*\<^sup>* ?t
      (s\<lparr>thr := (thr s)\<lparr>fd_queue := [],
          derived := drain_queue pe (process_exiting (thr s)) (fd # q) (derived (thr s))\<rparr>,
        processed := processed s @ (fd # q)\<rparr>)"
    using Cons.IH [of ?t] Cons.prems by simp
  ultimately show ?case by (rule converse_rtranclp_into_rtranclp)
qed

text \<open>A wake-up that is not interrupted is the sequential \<open>onEvent\<close>.\<close>

lemma wakeup_refines:
  assumes "cons_pc s = C_poll" and "queue_lock s = None" and "pipe_bytes (thr s) = CHR ''c'' # p"
  shows "(any_step pe cs)\<^sup>*\<^sup>* s
    (s\<lparr>thr := onEvent pe cs (thr s), processed := processed s @ fd_queue (thr s)\<rparr>)"
proof -
  let ?s1 = "s\<lparr>thr := (thr s)\<lparr>pipe_bytes := p\<rparr>, cons_pc := C_got\<rparr>"
  let ?s2 = "?s1\<lparr>cons_pc := C_drain, queue_lock := Some Consumer\<rparr>"
  let ?s3 = "?s2\<lparr>thr := (thr ?s2)\<lparr>fd_queue := [],
      derived := drain_queue pe (process_exiting (thr ?s2)) (fd_queue (thr s)) (derived (thr ?s2))\<rparr>,
      processed := processed ?s2 @ fd_queue (thr s)\<rparr>"
  let ?s4 = "?s3\<lparr>cons_pc := C_poll, queue_lock := None\<rparr>"
  have "any_step pe cs s ?s1"
    using c_read_c [OF assms(1,3), of pe cs] by (simp add: any_step_def)
  moreover have "any_step pe cs ?s1 ?s2"
    using c_lock [of ?s1 pe cs] assms by (simp add: any_step_def)
  moreover have "(any_step pe cs)\<^sup>*\<^sup>* ?s2 ?s3"
    by (rule drain_steps) simp_all
  moreover have "any_step pe cs ?s3 ?s4"
    using c_unlock [of ?s3 pe cs] by (simp add: any_step_def)
  moreover have "?s4 = s\<lparr>thr := onEvent pe cs (thr s), processed := processed s @ fd_queue (thr s)\<rparr>"
    using assms by (cases s; cases "thr s") (simp add: onEvent_def)
  ultimately show ?thesis
    by (metis (no_types, lifting) converse_rtranclp_into_rtranclp rtranclp.rtrancl_into_rtrancl)
qed

section \<open>Properties\<close>




definition stopping_tsys :: "unit tsys" where
  "stopping_tsys = (init_tsys ())\<lparr>thr := (thr (init_tsys ()))\<lparr>process_exiting := True\<rparr>, stop_pc := S_flagged\<rparr>"

lemma stopping_reachable: "treachable pe cs () stopping_tsys"
proof (rule t_env [OF t_init])
  show "env_step (init_tsys ()) stopping_tsys"
    unfolding stopping_tsys_def by (rule s_call) (simp add: init_tsys_def)
qed



definition locked_tsys :: "unit tsys" where
  "locked_tsys = (init_tsys ())\<lparr>prod_pc := P_locked 7, queue_lock := Some Producer\<rparr>"

lemma locked_reachable: "treachable pe cs () locked_tsys"
proof (rule t_env [OF t_init])
  show "env_step (init_tsys ()) locked_tsys"
    unfolding locked_tsys_def by (rule p_call) (simp_all add: init_tsys_def)
qed




end
