(* ===== verification/ServiceWorker.thy ===== *)
theory ServiceWorker
  imports ServiceThread TcpFlow
begin

text \<open>
  The class \<open>ServiceWorker\<close> (\<open>server/src/ServiceWorker.cpp\<close>): the sessions of one worker thread,
  keyed by the printed address of their \<open>TcpFlow\<close>, and the events registered for them. Its
  invariant is that the registered events are exactly the live sessions, so that no event is ever
  delivered to a destroyed flow.
\<close>

section \<open>Printed addresses\<close>

text \<open>\<open>getAddrStr\<close>: a pointer printed by an output stream.\<close>

definition hex_digit :: "nat \<Rightarrow> char" where
  "hex_digit d = (if d < 10 then char_of (48 + d) else char_of (87 + d))"

fun hex_string :: "nat \<Rightarrow> string" where
  "hex_string n = (if n < 16 then [hex_digit n] else hex_string (n div 16) @ [hex_digit (n mod 16)])"

declare hex_string.simps [simp del]

definition getAddrStr :: "nat \<Rightarrow> string" where
  "getAddrStr ptr = (if ptr = 0 then ''0'' else ''0x'' @ hex_string ptr)"

definition digit_value :: "char \<Rightarrow> nat" where
  "digit_value c = (if of_char c < (58 :: nat) then of_char c - 48 else of_char c - 87)"

definition hex_value :: "string \<Rightarrow> nat" where
  "hex_value s = foldl (\<lambda>v c. 16 * v + digit_value c) 0 s"

lemma digit_value_hex_digit: "d < 16 \<Longrightarrow> digit_value (hex_digit d) = d"
  by (auto simp: digit_value_def hex_digit_def)

lemma hex_value_hex_string [simp]: "hex_value (hex_string n) = n"
proof (induction n rule: hex_string.induct)
  case (1 n)
  show ?case
  proof (cases "n < 16")
    case True
    then show ?thesis
      by (subst hex_string.simps) (simp add: hex_value_def digit_value_hex_digit)
  next
    case False
    with "1.IH" have "hex_value (hex_string (n div 16)) = n div 16" by simp
    with False show ?thesis
      by (subst hex_string.simps) (simp add: hex_value_def digit_value_hex_digit)
  qed
qed

lemma hex_string_nonempty [simp]: "hex_string n \<noteq> []"
  by (subst hex_string.simps) simp

lemma getAddrStr_inj: "getAddrStr p = getAddrStr q \<Longrightarrow> p = q"
  by (auto simp: getAddrStr_def split: if_splits) (metis hex_value_hex_string)

section \<open>State and operations\<close>

text \<open>
  \<open>watched\<close> are the events that are registered, a descriptor and the flow its cookie points to;
  \<open>closed_socks\<close> the arguments of the \<open>close\<close> calls of destroyed flows.
\<close>

record worker =
  sessions :: "(string \<times> tcp_flow) list"
  watched :: "(fd \<times> string) list"
  closed_socks :: "fd list"

definition new_worker :: worker where
  "new_worker = \<lparr> sessions = [], watched = [], closed_socks = [] \<rparr>"

text \<open>\<open>new_ptr\<close> is the address that \<open>new TcpFlow\<close> yields, given the live sessions.\<close>

definition worker_processEvent ::
  "((string \<times> tcp_flow) list \<Rightarrow> nat) \<Rightarrow> bool \<Rightarrow> fd \<Rightarrow> worker \<Rightarrow> worker" where
  "worker_processEvent new_ptr exiting fd wk =
     (if exiting then wk
      else let addr = getAddrStr (new_ptr (sessions wk));
               flow = setAddr new_tcp_flow addr
           in wk\<lparr>sessions := (if addr \<in> fst ` set (sessions wk) then sessions wk
                               else sessions wk @ [(addr, flow)]),
                 watched := watched wk @ [(fd, addr)]\<rparr>)"

text \<open>The destructor of a flow removes its event and closes its descriptor.\<close>

definition flow_destroy :: "string \<times> tcp_flow \<Rightarrow> worker \<Rightarrow> worker" where
  "flow_destroy = (\<lambda>(addr, f) wk.
     wk\<lparr>watched := filter (\<lambda>(_, a). a \<noteq> addr) (watched wk), closed_socks := closed_socks wk @ [getClientFd f]\<rparr>)"

text \<open>\<open>erase\<close> and \<open>clear\<close> destroy the flows that they remove.\<close>

definition deleteTcpFlow :: "string \<Rightarrow> worker \<Rightarrow> worker" where
  "deleteTcpFlow addr wk =
     fold flow_destroy (filter (\<lambda>(a, _). a = addr) (sessions wk))
       (wk\<lparr>sessions := filter (\<lambda>(a, _). a \<noteq> addr) (sessions wk)\<rparr>)"

definition worker_cleanState :: "worker \<Rightarrow> worker" where
  "worker_cleanState wk = fold flow_destroy (sessions wk) (wk\<lparr>sessions := []\<rparr>)"

definition set_session :: "string \<Rightarrow> tcp_flow \<Rightarrow> worker \<Rightarrow> worker" where
  "set_session addr f wk =
     wk\<lparr>sessions := map (\<lambda>(a, g). if a = addr then (a, f) else (a, g)) (sessions wk)\<rparr>"

text \<open>
  The event loop delivers an event of \<open>watched\<close>: \<open>TcpFlow::data\<close> runs on the flow of the cookie,
  which may delete the session.
\<close>

definition worker_event ::
  "(payload \<Rightarrow> byte list) \<Rightarrow> (byte list \<Rightarrow> bool \<times> payload) \<Rightarrow> (u32 \<Rightarrow> bool) \<Rightarrow>
   (nat \<Rightarrow> write_result) \<Rightarrow> fd \<times> string \<Rightarrow> event_kind \<Rightarrow> read_result list \<Rightarrow>
   'd server \<Rightarrow> worker \<Rightarrow> ('d server \<times> worker \<times> byte list) res" where
  "worker_event ser par alloc_ok w e ev rs srv wk =
     (case map_of (sessions wk) (snd e) of
        None \<Rightarrow> Inl Use_after_free
      | Some f \<Rightarrow>
          rbind (flow_data ser par alloc_ok w (fst e) ev rs srv f) (\<lambda>(srv', fo, out).
            case fo of
              Some f' \<Rightarrow> Inr (srv', set_session (snd e) f' wk, out)
            | None \<Rightarrow> Inr (srv',
                deleteTcpFlow (getAddr f) (set_session (snd e) (f\<lparr>client_fd := fst e\<rparr>) wk), out)))"

section \<open>Invariant\<close>

definition linked :: "worker \<Rightarrow> bool" where
  "linked wk \<longleftrightarrow> map snd (watched wk) = map fst (sessions wk) \<and> distinct (map fst (sessions wk))"

definition named :: "(string \<times> tcp_flow) list \<Rightarrow> bool" where
  "named ss \<longleftrightarrow> list_all (\<lambda>(a, f). getAddr f = a) ss"

definition worker_ok :: "worker \<Rightarrow> bool" where
  "worker_ok wk \<longleftrightarrow> map snd (watched wk) = map fst (sessions wk) \<and> distinct (map fst (sessions wk)) \<and> named (sessions wk)"

lemma worker_ok_linked: "worker_ok wk \<Longrightarrow> linked wk"
  by (simp add: worker_ok_def linked_def)

lemma new_worker_ok: "worker_ok new_worker"
  by (simp add: worker_ok_def new_worker_def named_def)

lemma named_map_of: "named ss \<Longrightarrow> map_of ss a = Some f \<Longrightarrow> getAddr f = a"
  by (induction ss) (auto simp: named_def split: if_splits)

lemma named_filter: "named ss \<Longrightarrow> named (filter P ss)"
  by (auto simp: named_def list_all_iff)

lemma map_fst_set_session [simp]: "map fst (sessions (set_session a f wk)) = map fst (sessions wk)"
  by (simp add: set_session_def comp_def split_def if_distrib cong: if_cong)

lemma watched_set_session [simp]: "watched (set_session a f wk) = watched wk"
  by (simp add: set_session_def)

lemma map_of_set_session:
  "map_of (sessions (set_session a f wk)) b =
     (if b = a then map_option (\<lambda>_. f) (map_of (sessions wk) b) else map_of (sessions wk) b)"
proof -
  have "map_of (map (\<lambda>(c, g). if c = a then (c, f) else (c, g)) ss) b =
      (if b = a then map_option (\<lambda>_. f) (map_of ss b) else map_of ss b)" for ss
    by (induction ss) auto
  then show ?thesis by (simp add: set_session_def)
qed

lemma linked_session: "worker_ok wk \<Longrightarrow> linked (set_session a f wk)"
  by (simp add: worker_ok_def linked_def)

lemma set_session_ok: "worker_ok wk \<Longrightarrow> getAddr f = a \<Longrightarrow> worker_ok (set_session a f wk)"
  by (simp add: worker_ok_def) (auto simp: set_session_def named_def list_all_iff split: if_splits)

lemma filter_snd_fst:
  "map snd ws = map fst ss \<Longrightarrow> map snd (filter (\<lambda>(_, a). P a) ws) = map fst (filter (\<lambda>(a, _). P a) ss)"
proof (induction ws arbitrary: ss)
  case Nil
  then show ?case by simp
next
  case (Cons w ws)
  then show ?case by (cases ss) auto
qed

lemma fold_flow_destroy:
  "fold flow_destroy ss wk = wk\<lparr>watched := filter (\<lambda>(_, a). a \<notin> fst ` set ss) (watched wk),
     closed_socks := closed_socks wk @ map (\<lambda>(_, f). getClientFd f) ss\<rparr>"
proof (induction ss arbitrary: wk)
  case Nil
  have "filter (\<lambda>(_, a). True) ws = ws" for ws :: "(fd \<times> string) list"
    by (rule filter_True) auto
  then show ?case by simp
next
  case (Cons x ss)
  then show ?case
    by (cases x) (simp add: flow_destroy_def case_prod_unfold conj_commute)
qed

lemma worker_cleanState_eq:
  "worker_cleanState wk = wk\<lparr>sessions := [], watched := filter (\<lambda>(_, a). a \<notin> fst ` set (sessions wk)) (watched wk),
     closed_socks := closed_socks wk @ map (\<lambda>(_, f). getClientFd f) (sessions wk)\<rparr>"
  by (simp add: worker_cleanState_def fold_flow_destroy)

lemma deleteTcpFlow_eq:
  assumes "linked wk"
  shows "deleteTcpFlow addr wk = wk\<lparr>sessions := filter (\<lambda>(a, _). a \<noteq> addr) (sessions wk),
    watched := filter (\<lambda>(_, a). a \<noteq> addr) (watched wk),
    closed_socks := closed_socks wk @ map (\<lambda>(_, f). getClientFd f) (filter (\<lambda>(a, _). a = addr) (sessions wk))\<rparr>"
proof -
  have "snd ` set (watched wk) = fst ` set (sessions wk)"
    using assms unfolding linked_def by (metis list.set_map)
  then have "snd e \<in> fst ` set (sessions wk)" if "e \<in> set (watched wk)" for e
    using that by (metis imageI)
  then have "filter (\<lambda>(_, a). a \<notin> fst ` set (filter (\<lambda>(a, _). a = addr) (sessions wk))) (watched wk) =
      filter (\<lambda>(_, a). a \<noteq> addr) (watched wk)"
    by (intro filter_cong) force+
  then show ?thesis by (simp add: deleteTcpFlow_def fold_flow_destroy)
qed

lemma deleteTcpFlow_ok: "worker_ok wk \<Longrightarrow> worker_ok (deleteTcpFlow a wk)"
  using filter_snd_fst [of "watched wk" "sessions wk" "\<lambda>b. b \<noteq> a"]
  using deleteTcpFlow_eq [of wk a] by (simp add: worker_ok_def linked_def distinct_map_filter named_filter)

lemma worker_cleanState_ok:
  assumes "worker_ok wk"
  shows "worker_ok (worker_cleanState wk)" and "watched (worker_cleanState wk) = []"
proof -
  have "snd e \<in> fst ` set (sessions wk)" if "e \<in> set (watched wk)" for e
    using assms that unfolding worker_ok_def by (metis image_eqI image_set)
  then show "watched (worker_cleanState wk) = []"
    by (auto simp: worker_cleanState_eq filter_empty_conv)
  then show "worker_ok (worker_cleanState wk)"
    by (simp add: worker_ok_def worker_cleanState_eq named_def)
qed

text \<open>An event that is registered finds its flow, and its handler keeps the invariant.\<close>

lemma watched_live:
  assumes "worker_ok wk" and "e \<in> set (watched wk)"
  shows "\<exists>f. map_of (sessions wk) (snd e) = Some f"
proof -
  from assms have "snd e \<in> set (map fst (sessions wk))"
    unfolding worker_ok_def by (metis image_eqI image_set)
  then show ?thesis
    by (metis (no_types) list.set_map map_of_eq_None_iff not_Some_eq)
qed

text \<open>The session that a flow deletes is its own.\<close>

lemma worker_event_eq:
  assumes "worker_ok wk"
  shows "worker_event ser par alloc_ok w e ev rs srv wk =
     (case map_of (sessions wk) (snd e) of
        None \<Rightarrow> Inl Use_after_free
      | Some f \<Rightarrow>
          rbind (flow_data ser par alloc_ok w (fst e) ev rs srv f) (\<lambda>(srv', fo, out).
            case fo of
              Some f' \<Rightarrow> Inr (srv', set_session (snd e) f' wk, out)
            | None \<Rightarrow> Inr (srv', deleteTcpFlow (snd e) (set_session (snd e) (f\<lparr>client_fd := fst e\<rparr>) wk), out)))"
proof (cases "map_of (sessions wk) (snd e)")
  case (Some f)
  then have "getAddr f = snd e" using assms named_map_of by (auto simp: worker_ok_def)
  then show ?thesis by (simp only: worker_event_def Some option.case)
qed (simp add: worker_event_def)

lemma worker_event_ok:
  assumes "worker_ok wk" and "worker_event ser par alloc_ok w e ev rs srv wk = Inr (srv', wk', out)"
  shows "worker_ok wk'"
proof -
  obtain f where f: "map_of (sessions wk) (snd e) = Some f"
    using assms(2) by (auto simp: worker_event_def split: option.splits)
  then have a: "getAddr f = snd e" using assms(1) named_map_of by (auto simp: worker_ok_def)
  then have d: "getAddr (f\<lparr>client_fd := fst e\<rparr>) = snd e" by (simp add: getAddr_def)
  have k: "worker_ok (set_session (snd e) f' wk)" if "getAddr f' = snd e" for f'
    by (rule set_session_ok [OF assms(1) that])
  show ?thesis
    using assms(2) f a k deleteTcpFlow_ok [OF k [OF d]]
    by (auto simp: worker_event_eq [OF assms(1)] split: option.splits dest!: flow_data_addr)
qed

lemma worker_event_fault:
  assumes "worker_ok wk" and "e \<in> set (watched wk)"
    and "worker_event ser par alloc_ok w e ev rs srv wk = Inl x"
  shows "\<exists>f. map_of (sessions wk) (snd e) = Some f \<and>
    flow_data ser par alloc_ok w (fst e) ev rs srv f = Inl x"
  using watched_live [OF assms(1,2)] assms(3)
  by (auto simp: worker_event_def split: option.splits)

section \<open>The allocator\<close>

text \<open>A new flow is not at the address of a live one.\<close>

locale flow_allocator =
  fixes new_ptr :: "(string \<times> tcp_flow) list \<Rightarrow> nat"
  assumes new_ptr_fresh: "getAddrStr (new_ptr ss) \<notin> fst ` set ss"
begin

lemma processEvent_ok: "worker_ok wk \<Longrightarrow> worker_ok (worker_processEvent new_ptr b fd wk)"
  using new_ptr_fresh [of "sessions wk"]
  by (simp add: worker_ok_def worker_processEvent_def Let_def) (simp add: named_def setAddr_def getAddr_def)

lemma processEvent_adds:
  "sessions (worker_processEvent new_ptr False fd wk) =
     sessions wk @ [(getAddrStr (new_ptr (sessions wk)), setAddr new_tcp_flow (getAddrStr (new_ptr (sessions wk))))]"
  using new_ptr_fresh [of "sessions wk"] by (simp add: worker_processEvent_def Let_def)

text \<open>The descriptors of a drained queue, one session each, in the order of the queue.\<close>

lemma drain_watched:
  "map fst (watched (drain_queue (worker_processEvent new_ptr) False q wk)) = map fst (watched wk) @ q"
  by (induction q arbitrary: wk) (simp_all add: worker_processEvent_def Let_def)

lemma drain_exiting: "drain_queue (worker_processEvent new_ptr) True q wk = wk"
  by (induction q) (simp_all add: worker_processEvent_def)

end

text \<open>So a worker's hooks keep its invariant.\<close>

sublocale flow_allocator \<subseteq> service_hooks "worker_processEvent new_ptr" worker_cleanState worker_ok
  by unfold_locales (auto intro: processEvent_ok worker_cleanState_ok)

lemma worker_hooks:
  "flow_allocator new_ptr \<Longrightarrow> service_hooks (worker_processEvent new_ptr) worker_cleanState worker_ok"
  using flow_allocator.processEvent_ok worker_cleanState_ok(1) by (intro service_hooks.intro) blast+

text \<open>An allocator that takes the address after the largest live one.\<close>

definition bump_ptr :: "(string \<times> tcp_flow) list \<Rightarrow> nat" where
  "bump_ptr ss = Suc (sum_list (map (\<lambda>(a, _). hex_value (drop 2 a)) ss))"

lemma bump_ptr_fresh: "getAddrStr (bump_ptr ss) \<notin> fst ` set ss"
proof
  assume "getAddrStr (bump_ptr ss) \<in> fst ` set ss"
  then obtain f where "(getAddrStr (bump_ptr ss), f) \<in> set ss" by auto
  then have "hex_value (drop 2 (getAddrStr (bump_ptr ss))) \<in>
      set (map (\<lambda>(a, _). hex_value (drop 2 a)) ss)" by force
  then have "hex_value (drop 2 (getAddrStr (bump_ptr ss))) \<le>
      sum_list (map (\<lambda>(a, _). hex_value (drop 2 a)) ss)"
    by (rule member_le_sum_list) simp
  then show False
    by (simp add: getAddrStr_def bump_ptr_def)
qed

interpretation bump: flow_allocator bump_ptr
  by unfold_locales (rule bump_ptr_fresh)

section \<open>Runs of a worker\<close>

text \<open>
  What the event loop of a worker does: it delivers a registered event, empties the queue of descriptors,
  or cleans up.
\<close>

inductive worker_run ::
  "(payload \<Rightarrow> byte list) \<Rightarrow> (byte list \<Rightarrow> bool \<times> payload) \<Rightarrow> (u32 \<Rightarrow> bool) \<Rightarrow>
   ((string \<times> tcp_flow) list \<Rightarrow> nat) \<Rightarrow> 'd server \<Rightarrow> worker \<Rightarrow> 'd server \<Rightarrow> worker \<Rightarrow> bool"
  for ser par alloc_ok new_ptr srv0 wk0 where
  run_start: "worker_run ser par alloc_ok new_ptr srv0 wk0 srv0 wk0"
| run_event: "worker_run ser par alloc_ok new_ptr srv0 wk0 srv wk \<Longrightarrow> e \<in> set (watched wk) \<Longrightarrow>
    worker_event ser par alloc_ok w e ev rs srv wk = Inr (srv', wk', out) \<Longrightarrow>
    worker_run ser par alloc_ok new_ptr srv0 wk0 srv' wk'"
| run_queue: "worker_run ser par alloc_ok new_ptr srv0 wk0 srv wk \<Longrightarrow>
    worker_run ser par alloc_ok new_ptr srv0 wk0 srv (drain_queue (worker_processEvent new_ptr) exiting q wk)"
| run_clean: "worker_run ser par alloc_ok new_ptr srv0 wk0 srv wk \<Longrightarrow>
    worker_run ser par alloc_ok new_ptr srv0 wk0 srv (worker_cleanState wk)"

lemma worker_run_ok:
  assumes "worker_run ser par alloc_ok new_ptr srv0 wk0 srv wk"
    and "flow_allocator new_ptr" and "worker_ok wk0"
  shows "worker_ok wk"
proof -
  note hooks = worker_hooks [OF assms(2)]
  show ?thesis
    using assms(1)
    by (induction rule: worker_run.induct)
      (auto intro: assms(3) worker_event_ok worker_cleanState_ok service_hooks.drain_inv [OF hooks])
qed

section \<open>Properties\<close>

text \<open>The printed addresses that key the sessions are different for different objects.\<close>

theorem addresses_distinct: "getAddrStr p = getAddrStr q \<longleftrightarrow> p = q"
  using getAddrStr_inj by blast

text \<open>C35: however events, new connections and clean-ups follow each other, an event is never delivered
  to a destroyed flow: the registered events are those of the live sessions, one each, and an event ends in
  an undefined way only if its flow's own handler does.\<close>

theorem no_dangling_events:
  assumes "flow_allocator new_ptr" and "worker_run ser par alloc_ok new_ptr srv0 new_worker srv wk"
    and "e \<in> set (watched wk)"
  shows "map snd (watched wk) = map fst (sessions wk) \<and> distinct (map snd (watched wk)) \<and>
    (\<exists>f. map_of (sessions wk) (snd e) = Some f \<and>
      (\<forall>x. worker_event ser par alloc_ok w e ev rs srv wk = Inl x \<longrightarrow>
        flow_data ser par alloc_ok w (fst e) ev rs srv f = Inl x))"
proof -
  have ok: "worker_ok wk"
    by (rule worker_run_ok [OF assms(2,1) new_worker_ok])
  obtain f where f: "map_of (sessions wk) (snd e) = Some f"
    using watched_live [OF ok assms(3)] by blast
  have "flow_data ser par alloc_ok w (fst e) ev rs srv f = Inl x"
    if "worker_event ser par alloc_ok w e ev rs srv wk = Inl x" for x
    using worker_event_fault [OF ok assms(3) that] f by simp
  with f ok show ?thesis unfolding worker_ok_def by metis
qed

definition sample_worker :: worker where
  "sample_worker = drain_queue (worker_processEvent bump_ptr) False [5, 6] new_worker"

theorem no_dangling_events_witness:
  "map fst (watched sample_worker) = [5, 6] \<and> map snd (watched sample_worker) = map fst (sessions sample_worker)"
proof -
  have "worker_run (\<lambda>_. []) (\<lambda>_. (False, empty_payload)) (\<lambda>_. True) bump_ptr (new_server :: unit server) new_worker new_server sample_worker"
    unfolding sample_worker_def by (rule run_queue) (rule run_start)
  moreover have fds: "map fst (watched sample_worker) = [5, 6]"
    using bump.drain_watched [of "[5, 6]" new_worker] by (simp add: sample_worker_def new_worker_def)
  moreover obtain e where "e \<in> set (watched sample_worker)"
    using fds by (cases "watched sample_worker") auto
  ultimately show ?thesis
    using no_dangling_events [OF bump.flow_allocator_axioms] by blast
qed

text \<open>A wake-up of a worker registers the queued descriptors in the order of the queue, one session
  each; while the process is exiting it drops them; and the request to end removes every registered event.\<close>

theorem worker_wakeup:
  assumes "flow_allocator new_ptr" and "worker_ok (derived t)"
  shows "(pipe_bytes t = CHR ''c'' # p \<longrightarrow>
      (let t' = onEvent (worker_processEvent new_ptr) worker_cleanState t in
       fd_queue t' = [] \<and> worker_ok (derived t') \<and>
       map fst (watched (derived t')) =
         map fst (watched (derived t)) @ (if process_exiting t then [] else fd_queue t))) \<and>
    (pipe_bytes t = CHR ''e'' # p \<longrightarrow>
      (let t' = onEvent (worker_processEvent new_ptr) worker_cleanState t in
       loop_exit t' \<and> watched (derived t') = [] \<and> sessions (derived t') = []))"
proof -
  note inv = service_hooks.drain_inv [OF worker_hooks [OF assms(1)] assms(2)]
  have "map fst (watched (drain_queue (worker_processEvent new_ptr) b (fd_queue t) (derived t))) =
      map fst (watched (derived t)) @ (if b then [] else fd_queue t)" for b
    using flow_allocator.drain_watched [OF assms(1)] flow_allocator.drain_exiting [OF assms(1)] by simp
  then show ?thesis
    using inv worker_cleanState_ok(2) [OF assms(2)]
    by (simp add: onEvent_def stopThread_def Let_def) (simp add: worker_cleanState_eq)
qed

theorem worker_wakeup_witness:
  "map fst (watched (derived (onEvent (worker_processEvent bump_ptr) worker_cleanState
    ((new_service_thread new_worker)\<lparr>pipe_bytes := ''c'', fd_queue := [5, 6]\<rparr>)))) = [5, 6]"
  using worker_wakeup [OF bump.flow_allocator_axioms, of "(new_service_thread new_worker)\<lparr>pipe_bytes := ''c'', fd_queue := [5, 6]\<rparr>" "[]"]
  by (simp add: new_service_thread_def new_worker_ok Let_def) (simp add: new_worker_def)

end
