(* ===== verification/Startup.thy ===== *)
theory Startup
  imports ServiceWorker
begin

text \<open>
  The start of a service thread (\<open>run\<close> of \<open>server/src/ServiceThread.cpp\<close>) while other threads already call it.
  The socket pair that wakes the event loop is made by the new thread itself, and nothing keeps the listener from
  dispatching a descriptor, or \<open>stop\<close> from being called, before that: their byte then goes to whatever descriptor
  the memory of \<open>m_sockets\<close> names. The operations are those of \<open>ServiceThread\<close>, as whole calls.
\<close>

section \<open>The starting thread\<close>

text \<open>
  Where the thread function is: at its begin, with an event base, with the socket pair, in the event loop, behind it,
  or returned early. The bytes that went astray are recorded.
\<close>

datatype boot_pc = B_begin | B_base | B_paired | B_loop | B_over | B_returned

record 's boot =
  boot_thr :: "'s service_thread"
  boot_at :: boot_pc
  stray :: "char list"

definition has_pair :: "boot_pc \<Rightarrow> bool" where
  "has_pair pc \<longleftrightarrow> pc \<in> {B_paired, B_loop, B_over}"

definition boot_start :: "'s \<Rightarrow> 's boot" where
  "boot_start d = \<lparr> boot_thr = new_service_thread d, boot_at = B_begin, stray = [] \<rparr>"

text \<open>The byte that a call writes, to the pair or to an arbitrary descriptor.\<close>

definition boot_write :: "char \<Rightarrow> 's boot \<Rightarrow> 's boot" where
  "boot_write x b =
     (if has_pair (boot_at b) then b\<lparr>boot_thr := (boot_thr b)\<lparr>pipe_bytes := pipe_bytes (boot_thr b) @ [x]\<rparr>\<rparr>
      else b\<lparr>stray := stray b @ [x]\<rparr>)"

definition boot_add :: "bool \<Rightarrow> fd \<Rightarrow> 's boot \<Rightarrow> bool \<times> 's boot" where
  "boot_add write_ok fd b =
     (if \<not> write_ok then (False, b\<lparr>boot_thr := (boot_thr b)\<lparr>closed_fds := closed_fds (boot_thr b) @ [fd]\<rparr>\<rparr>)
      else (let b1 = boot_write CHR ''c'' b
            in (True, b1\<lparr>boot_thr := (boot_thr b1)\<lparr>fd_queue := fd_queue (boot_thr b1) @ [fd]\<rparr>\<rparr>)))"

definition boot_stop :: "bool \<Rightarrow> 's boot \<Rightarrow> bool \<times> 's boot" where
  "boot_stop write_ok b =
     (let b1 = b\<lparr>boot_thr := (boot_thr b)\<lparr>process_exiting := True\<rparr>\<rparr>
      in if \<not> write_ok then (False, b1) else (True, boot_write CHR ''e'' b1))"

text \<open>With the socket pair they are the operations of a running thread.\<close>

lemma boot_add_paired:
  "has_pair (boot_at b) \<Longrightarrow> boot_add ok fd b =
    (case addFdToEvLoop ok fd (boot_thr b) of (r, t) \<Rightarrow> (r, b\<lparr>boot_thr := t\<rparr>))"
  by (simp add: boot_add_def boot_write_def addFdToEvLoop_def Let_def)

lemma boot_stop_paired:
  "has_pair (boot_at b) \<Longrightarrow> boot_stop ok b =
    (case stop_request ok (boot_thr b) of (r, t) \<Rightarrow> (r, b\<lparr>boot_thr := t\<rparr>))"
  by (simp add: boot_stop_def boot_write_def stop_request_def Let_def)

text \<open>The steps of the thread, whose system calls may fail, and the calls of the others.\<close>

inductive own_step :: "(bool \<Rightarrow> fd \<Rightarrow> 's \<Rightarrow> 's) \<Rightarrow> ('s \<Rightarrow> 's) \<Rightarrow> ('s \<Rightarrow> 's option) \<Rightarrow> 's boot \<Rightarrow> 's boot \<Rightarrow> bool"
  for processEvent cleanState initApp where
  b_base: "boot_at b = B_begin \<Longrightarrow> own_step processEvent cleanState initApp b (b\<lparr>boot_at := B_base\<rparr>)"
| b_no_base: "boot_at b = B_begin \<Longrightarrow> own_step processEvent cleanState initApp b (b\<lparr>boot_at := B_returned\<rparr>)"
| b_pair: "boot_at b = B_base \<Longrightarrow> own_step processEvent cleanState initApp b (b\<lparr>boot_at := B_paired\<rparr>)"
| b_no_pair: "boot_at b = B_base \<Longrightarrow> own_step processEvent cleanState initApp b (b\<lparr>boot_at := B_returned\<rparr>)"
| b_init: "boot_at b = B_paired \<Longrightarrow> initApp (derived (boot_thr b)) = Some d \<Longrightarrow>
    own_step processEvent cleanState initApp b (b\<lparr>boot_thr := (boot_thr b)\<lparr>derived := d\<rparr>, boot_at := B_loop\<rparr>)"
| b_event: "boot_at b = B_loop \<Longrightarrow> pipe_bytes (boot_thr b) \<noteq> [] \<Longrightarrow>
    own_step processEvent cleanState initApp b (b\<lparr>boot_thr := onEvent processEvent cleanState (boot_thr b)\<rparr>)"
| b_leave: "boot_at b = B_loop \<Longrightarrow> loop_exit (boot_thr b) \<Longrightarrow>
    own_step processEvent cleanState initApp b (b\<lparr>boot_thr := run_finish (boot_thr b), boot_at := B_over\<rparr>)"

inductive_simps own_step_simps: "own_step processEvent cleanState initApp b b'"

inductive boot_step :: "(bool \<Rightarrow> fd \<Rightarrow> 's \<Rightarrow> 's) \<Rightarrow> ('s \<Rightarrow> 's) \<Rightarrow> ('s \<Rightarrow> 's option) \<Rightarrow> 's boot \<Rightarrow> 's boot \<Rightarrow> bool"
  for processEvent cleanState initApp where
  b_own: "own_step processEvent cleanState initApp b b' \<Longrightarrow> boot_step processEvent cleanState initApp b b'"
| b_add: "boot_step processEvent cleanState initApp b (snd (boot_add ok fd b))"
| b_stop: "boot_step processEvent cleanState initApp b (snd (boot_stop ok b))"

abbreviation boot_run ::
  "(bool \<Rightarrow> fd \<Rightarrow> 's \<Rightarrow> 's) \<Rightarrow> ('s \<Rightarrow> 's) \<Rightarrow> ('s \<Rightarrow> 's option) \<Rightarrow> 's boot \<Rightarrow> 's boot \<Rightarrow> bool" where
  "boot_run processEvent cleanState initApp \<equiv> (boot_step processEvent cleanState initApp)\<^sup>*\<^sup>*"

text \<open>A start that succeeds is what \<open>run_start\<close> says, and so is one that fails.\<close>

lemma run_start_steps:
  assumes "boot_at b = B_begin"
  shows "case run_start new_ok ev_ok pair_ok initApp (boot_thr b) of
      Run_looping t \<Rightarrow> (own_step processEvent cleanState initApp)\<^sup>*\<^sup>* b (b\<lparr>boot_thr := t, boot_at := B_loop\<rparr>)
    | Run_returned t \<Rightarrow> (own_step processEvent cleanState initApp)\<^sup>*\<^sup>* b (b\<lparr>boot_thr := t, boot_at := B_returned\<rparr>)
    | Process_terminated \<Rightarrow> initApp (derived (boot_thr b)) = None"
proof -
  let ?R = "own_step processEvent cleanState initApp"
  have 1: "?R b (b\<lparr>boot_at := B_base\<rparr>)" "?R b (b\<lparr>boot_at := B_returned\<rparr>)"
    using assms by (rule b_base, rule b_no_base)
  have 2: "?R (b\<lparr>boot_at := B_base\<rparr>) ((b\<lparr>boot_at := B_base\<rparr>)\<lparr>boot_at := B_paired\<rparr>)"
      "?R (b\<lparr>boot_at := B_base\<rparr>) ((b\<lparr>boot_at := B_base\<rparr>)\<lparr>boot_at := B_returned\<rparr>)"
    by (rule b_pair, simp) (rule b_no_pair, simp)
  have 3: "?R (b\<lparr>boot_at := B_paired\<rparr>) (b\<lparr>boot_thr := (boot_thr b)\<lparr>derived := d\<rparr>, boot_at := B_loop\<rparr>)"
    if "initApp (derived (boot_thr b)) = Some d" for d
    using b_init [of "b\<lparr>boot_at := B_paired\<rparr>" initApp d] that by simp
  have "?R\<^sup>*\<^sup>* b (b\<lparr>boot_at := B_returned\<rparr>)" using 1(2) by blast
  moreover have "?R\<^sup>*\<^sup>* b (b\<lparr>boot_at := B_paired\<rparr>)"
    using rtranclp.rtrancl_into_rtrancl [OF r_into_rtranclp [where r = ?R, OF 1(1)] 2(1)] by simp
  then have "?R\<^sup>*\<^sup>* b (b\<lparr>boot_thr := (boot_thr b)\<lparr>derived := d\<rparr>, boot_at := B_loop\<rparr>)"
    if "initApp (derived (boot_thr b)) = Some d" for d
    using 3 [OF that] by simp
  ultimately show ?thesis by (auto simp: run_start_def split: option.splits)
qed

section \<open>What holds in every state\<close>

definition boot_ok :: "'s boot \<Rightarrow> bool" where
  "boot_ok b \<longleftrightarrow>
     (fd_queue (boot_thr b) \<noteq> [] \<longrightarrow> CHR ''c'' \<in> set (pipe_bytes (boot_thr b)) \<or> CHR ''c'' \<in> set (stray b)) \<and>
     (\<not> has_pair (boot_at b) \<longrightarrow> pipe_bytes (boot_thr b) = []) \<and> (exited (boot_thr b) \<longleftrightarrow> boot_at b = B_over)"

lemma boot_start_ok: "boot_ok (boot_start d)"
  by (simp add: boot_ok_def boot_start_def new_service_thread_def)

lemma onEvent_keeps:
  "exited (onEvent processEvent cleanState t) = exited t"
  "pipe_bytes (onEvent processEvent cleanState t) = tl (pipe_bytes t)"
  "fd_queue (onEvent processEvent cleanState t) =
    (if pipe_bytes t = [] \<or> hd (pipe_bytes t) = CHR ''e'' then fd_queue t else [])"
  by (auto simp: onEvent_def stopThread_def Let_def split: list.splits)

lemma own_step_ok: "own_step processEvent cleanState initApp b b' \<Longrightarrow> boot_ok b \<Longrightarrow> boot_ok b'"
proof (induction rule: own_step.induct)
  case (b_event b)
  then show ?case
    by (cases "pipe_bytes (boot_thr b)") (auto simp: boot_ok_def onEvent_keeps has_pair_def)
qed (auto simp: boot_ok_def has_pair_def run_finish_def)

lemma boot_calls_ok:
  "boot_ok b \<Longrightarrow> boot_ok (snd (boot_add ok fd b))"
  "boot_ok b \<Longrightarrow> boot_ok (snd (boot_stop ok b))"
  by (auto simp: boot_ok_def boot_add_def boot_stop_def boot_write_def Let_def)

lemma boot_step_ok: "boot_step processEvent cleanState initApp b b' \<Longrightarrow> boot_ok b \<Longrightarrow> boot_ok b'"
  by (induction rule: boot_step.induct) (simp_all add: own_step_ok boot_calls_ok)

lemma boot_run_ok: "boot_run processEvent cleanState initApp b b' \<Longrightarrow> boot_ok b \<Longrightarrow> boot_ok b'"
  by (induction rule: rtranclp_induct) (auto intro: boot_step_ok)

lemma boot_call_at [simp]:
  "boot_at (snd (boot_add ok fd b)) = boot_at b" "boot_at (snd (boot_stop ok b)) = boot_at b"
  by (simp_all add: boot_add_def boot_stop_def boot_write_def Let_def)

lemma returned_stays:
  "boot_run processEvent cleanState initApp b b' \<Longrightarrow> boot_at b = B_returned \<Longrightarrow> boot_at b' = B_returned"
  by (induction rule: rtranclp_induct) (auto simp: boot_step.simps own_step_simps)

section \<open>A thread on its own\<close>

text \<open>With nothing in the socket pair, and no request to stop, the thread comes to its loop and waits.\<close>

lemma own_run_idle:
  assumes "(own_step processEvent cleanState initApp)\<^sup>*\<^sup>* b b'"
    and "pipe_bytes (boot_thr b) = []" and "\<not> loop_exit (boot_thr b)"
  shows "pipe_bytes (boot_thr b') = [] \<and> \<not> loop_exit (boot_thr b') \<and> fd_queue (boot_thr b') = fd_queue (boot_thr b) \<and>
    closed_fds (boot_thr b') = closed_fds (boot_thr b)"
  using assms by (induction rule: rtranclp_induct) (auto simp: own_step_simps)

lemma no_exit_before_pair:
  "boot_run processEvent cleanState initApp b b' \<Longrightarrow> loop_exit (boot_thr b) \<longrightarrow> has_pair (boot_at b) \<Longrightarrow>
    loop_exit (boot_thr b') \<longrightarrow> has_pair (boot_at b')"
proof (induction rule: rtranclp_induct)
  case (step b1 b2)
  from step.hyps(2) step.IH [OF step.prems] show ?case
    by (induction rule: boot_step.induct)
      (auto simp: own_step_simps has_pair_def boot_add_def boot_stop_def boot_write_def run_finish_def Let_def)
qed simp

section \<open>Properties\<close>

text \<open>No lost wake-up, except for a byte that went astray: in every reachable state, whatever system calls fail and
  whenever the calls come, a queued descriptor has its byte in the socket pair or among the stray ones; nothing is in the pair before it
  exists; the exit flag is set exactly when the loop is over, and never once the thread function has returned
  early, so that a \<open>stop\<close> that could write its byte then waits for ever.\<close>

theorem startup_wakeups:
  assumes "boot_run processEvent cleanState initApp (boot_start d) b"
  shows "(fd_queue (boot_thr b) \<noteq> [] \<longrightarrow> CHR ''c'' \<in> set (pipe_bytes (boot_thr b)) \<or> CHR ''c'' \<in> set (stray b)) \<and>
    (\<not> has_pair (boot_at b) \<longrightarrow> pipe_bytes (boot_thr b) = []) \<and> (exited (boot_thr b) \<longleftrightarrow> boot_at b = B_over) \<and>
    (boot_at b = B_returned \<longrightarrow> (\<forall>b'. boot_run processEvent cleanState initApp b b' \<longrightarrow> \<not> exited (boot_thr b')))"
proof -
  have ok: "boot_ok b" by (rule boot_run_ok [OF assms boot_start_ok])
  have "\<not> exited (boot_thr b')"
    if "boot_at b = B_returned" "boot_run processEvent cleanState initApp b b'" for b'
    using boot_run_ok [OF that(2) ok] returned_stays [OF that(2,1)] by (simp add: boot_ok_def)
  with ok show ?thesis by (simp add: boot_ok_def)
qed

theorem startup_wakeups_witness:
  "\<exists>b. boot_run (worker_processEvent (\<lambda>_. 0)) worker_cleanState Some (boot_start new_worker) b \<and>
    boot_at b = B_returned \<and> \<not> exited (boot_thr b)"
proof -
  let ?b = "(boot_start new_worker)\<lparr>boot_at := B_returned\<rparr>"
  have r: "boot_run (worker_processEvent (\<lambda>_. 0)) worker_cleanState Some (boot_start new_worker) ?b"
    by (intro r_into_rtranclp b_own b_no_base) (simp add: boot_start_def)
  from startup_wakeups [OF this] have "\<not> exited (boot_thr ?b)" by auto
  with r show ?thesis by (intro exI [of _ ?b]) simp
qed

text \<open>C29: a descriptor that is dispatched before the thread has made its socket pair is accepted by \<open>addFdToEvLoop\<close> but
  not served: however far the thread gets by itself, the descriptor stays queued, and in its loop the
  thread has no step to take; only the byte of a later dispatch, once the pair exists, wakes it, and then
  everything that has been queued is taken.\<close>

theorem early_dispatch_waits:
  assumes "boot_run processEvent cleanState initApp (boot_start d) b" and "\<not> has_pair (boot_at b)"
    and "boot_add True fd b = (r, b1)" and "(own_step processEvent cleanState initApp)\<^sup>*\<^sup>* b1 b2"
  shows "r \<and> fd \<in> set (fd_queue (boot_thr b2)) \<and>
    (boot_at b2 = B_loop \<longrightarrow> (\<forall>b3. \<not> own_step processEvent cleanState initApp b2 b3) \<and>
      (\<forall>fd'. \<exists>b3. own_step processEvent cleanState initApp (snd (boot_add True fd' b2)) b3 \<and> fd_queue (boot_thr b3) = [] \<and>
        derived (boot_thr b3) = drain_queue processEvent (process_exiting (boot_thr b2))
          (fd_queue (boot_thr b2) @ [fd']) (derived (boot_thr b2))))"
proof -
  have "boot_ok b" by (rule boot_run_ok [OF assms(1) boot_start_ok])
  with assms(2) have p: "pipe_bytes (boot_thr b) = []" by (simp add: boot_ok_def)
  have e: "\<not> loop_exit (boot_thr b)"
    using no_exit_before_pair [OF assms(1)] assms(2) by (auto simp: boot_start_def new_service_thread_def)
  have b1: "r" "pipe_bytes (boot_thr b1) = []" "\<not> loop_exit (boot_thr b1)" "fd \<in> set (fd_queue (boot_thr b1))"
    using assms(2,3) p e by (auto simp: boot_add_def boot_write_def Let_def)
  note b2 = own_run_idle [OF assms(4) b1(2,3)]
  have "\<exists>b3. own_step processEvent cleanState initApp (snd (boot_add True fd' b2)) b3 \<and> fd_queue (boot_thr b3) = [] \<and>
      derived (boot_thr b3) = drain_queue processEvent (process_exiting (boot_thr b2))
        (fd_queue (boot_thr b2) @ [fd']) (derived (boot_thr b2))" if "boot_at b2 = B_loop" for fd'
  proof -
    let ?b = "snd (boot_add True fd' b2)"
    have "pipe_bytes (boot_thr ?b) = ''c''" "fd_queue (boot_thr ?b) = fd_queue (boot_thr b2) @ [fd']"
        "derived (boot_thr ?b) = derived (boot_thr b2)" "process_exiting (boot_thr ?b) = process_exiting (boot_thr b2)"
      using that b2 by (simp_all add: boot_add_def boot_write_def has_pair_def Let_def)
    moreover from this have "own_step processEvent cleanState initApp ?b
        (?b\<lparr>boot_thr := onEvent processEvent cleanState (boot_thr ?b)\<rparr>)"
      using that by (intro b_event) simp_all
    ultimately show ?thesis
      by (intro exI [of _ "?b\<lparr>boot_thr := onEvent processEvent cleanState (boot_thr ?b)\<rparr>"])
        (simp add: onEvent_def Let_def)
  qed
  moreover have "\<not> own_step processEvent cleanState initApp b2 b3" if "boot_at b2 = B_loop" for b3
    using that b2 by (auto simp: own_step_simps)
  ultimately show ?thesis using b1(1,4) b2 by simp
qed

theorem early_dispatch_waits_witness:
  "\<exists>b2. (own_step (worker_processEvent (\<lambda>_. 0)) worker_cleanState Some)\<^sup>*\<^sup>* (snd (boot_add True 9 (boot_start new_worker))) b2 \<and>
    boot_at b2 = B_loop \<and> 9 \<in> set (fd_queue (boot_thr b2)) \<and>
    (\<forall>b3. \<not> own_step (worker_processEvent (\<lambda>_. 0)) worker_cleanState Some b2 b3)"
proof -
  let ?b1 = "snd (boot_add True 9 (boot_start new_worker))"
  have "boot_at ?b1 = B_begin" by (simp add: boot_start_def)
  from run_start_steps [where new_ok = True and ev_ok = True and pair_ok = True and initApp = Some and
      processEvent = "worker_processEvent (\<lambda>_. 0)" and cleanState = worker_cleanState, OF this]
  have r: "(own_step (worker_processEvent (\<lambda>_. 0)) worker_cleanState Some)\<^sup>*\<^sup>* ?b1 (?b1\<lparr>boot_at := B_loop\<rparr>)"
    by (simp add: run_start_def)
  have p: "\<not> has_pair (boot_at (boot_start new_worker))" by (simp add: boot_start_def has_pair_def)
  from early_dispatch_waits [OF rtranclp.rtrancl_refl p surjective_pairing r] r show ?thesis
    by (intro exI [of _ "?b1\<lparr>boot_at := B_loop\<rparr>"]) simp
qed

end
