(* ===== verification/WorkerManager.thy ===== *)
theory WorkerManager
  imports ServiceWorker
begin

text \<open>
  The class \<open>WorkerManager\<close> (\<open>server/src/WorkerManager.cpp\<close>): the pool of worker threads and the
  distribution of client descriptors over them. The distribution is proved once against the
  interface \<open>fd_sink\<close> of a worker, and then for the service threads.
\<close>

section \<open>State and operations\<close>

text \<open>\<open>m_distType\<close> is an \<open>int\<close>; the enumeration gives two of its values.\<close>

definition ROUND_ROBIN :: int where
  "ROUND_ROBIN = 0"

definition DIST_LESS_LOADED_WORKER :: int where
  "DIST_LESS_LOADED_WORKER = 1"

record 's worker_manager =
  thread_count :: int
  rr_index :: u32
  dist_type :: int
  workers :: "'s service_thread list"

definition new_worker_manager :: "int \<Rightarrow> int \<Rightarrow> 's worker_manager" where
  "new_worker_manager threadCount distType =
     \<lparr> thread_count = threadCount, rr_index = 0, dist_type = distType, workers = [] \<rparr>"

text \<open>\<open>initWorkers\<close>: one started worker for each \<open>i\<close> below \<open>m_threadCount\<close>.\<close>

fun init_loop :: "'s \<Rightarrow> nat \<Rightarrow> 's worker_manager \<Rightarrow> 's worker_manager" where
  "init_loop d 0 wm = wm"
| "init_loop d (Suc n) wm = init_loop d n (wm\<lparr>workers := workers wm @ [new_service_thread d]\<rparr>)"

definition initWorkers :: "'s \<Rightarrow> 's worker_manager \<Rightarrow> 's worker_manager" where
  "initWorkers d wm = init_loop d (nat (thread_count wm)) wm"

definition int_max :: int where
  "int_max = 2147483647"

text \<open>The search for the shortest queue; a queue length is read back as an \<open>int\<close>.\<close>

fun least_loaded :: "'s service_thread list \<Rightarrow> nat \<Rightarrow> nat \<Rightarrow> int \<Rightarrow> nat" where
  "least_loaded [] i index mn = index"
| "least_loaded (w # ws) i index mn =
     (let queue_size = sint (getCurrentFdQueueSize w) in
      if queue_size < mn then least_loaded ws (Suc i) i queue_size
      else least_loaded ws (Suc i) index mn)"

definition getWorkerIndex :: "'s worker_manager \<Rightarrow> (u32 \<times> 's worker_manager) res" where
  "getWorkerIndex wm =
     (if dist_type wm = ROUND_ROBIN then
        (let i = rr_index wm + 1; n = word_of_int (thread_count wm) :: u32 in
         if n = 0 then Inl Div_by_zero
         else Inr (i mod n, wm\<lparr>rr_index := i mod n\<rparr>))
      else if dist_type wm = DIST_LESS_LOADED_WORKER then
        Inr (word_of_nat (least_loaded (workers wm) 0 0 int_max), wm)
      else Inr (word_of_int int_max, wm))"

text \<open>\<open>write_ok\<close>: whether the wake-up byte can be written.\<close>

definition loadbalanceFd :: "bool \<Rightarrow> fd \<Rightarrow> 's worker_manager \<Rightarrow> 's worker_manager res" where
  "loadbalanceFd write_ok fd wm =
     rbind (getWorkerIndex wm) (\<lambda>(r, wm1).
       let index = sint r in
       if index < 0 \<or> thread_count wm1 \<le> index then Inr wm1
       else rbind (elem_at (workers wm1) (nat index)) (\<lambda>worker.
         Inr (wm1\<lparr>workers := (workers wm1)[nat index := snd (addFdToEvLoop write_ok fd worker)]\<rparr>)))"

definition dispatchFd :: "bool \<Rightarrow> fd \<Rightarrow> 's worker_manager \<Rightarrow> 's worker_manager res" where
  "dispatchFd write_ok fd wm = loadbalanceFd write_ok fd wm"

fun dispatch_all :: "fd list \<Rightarrow> 's worker_manager \<Rightarrow> 's worker_manager res" where
  "dispatch_all [] wm = Inr wm"
| "dispatch_all (fd # fds) wm = rbind (dispatchFd True fd wm) (dispatch_all fds)"

text \<open>\<open>stopWorkers\<close>: a stop request to every worker, which are then dropped from the pool;
  \<open>write_ok i\<close> says whether the byte can be written to worker \<open>i\<close>.\<close>

definition stopWorkers :: "(nat \<Rightarrow> bool) \<Rightarrow> 's worker_manager \<Rightarrow> 's service_thread list \<times> 's worker_manager" where
  "stopWorkers write_ok wm =
     (map (\<lambda>i. snd (stop_request (write_ok i) (workers wm ! i))) [0..<length (workers wm)],
      wm\<lparr>workers := []\<rparr>)"

section \<open>Dealing descriptors out\<close>

text \<open>A worker accepts a descriptor at the end of its backlog.\<close>

locale fd_sink =
  fixes enq :: "fd \<Rightarrow> 'w \<Rightarrow> 'w"
    and backlog :: "'w \<Rightarrow> fd list"
  assumes backlog_enq: "backlog (enq fd w) = backlog w @ [fd]"
begin

text \<open>Round robin: the index moves on by one, modulo the number of workers, before each use.\<close>

fun deal :: "nat \<Rightarrow> fd list \<Rightarrow> 'w list \<Rightarrow> 'w list" where
  "deal i [] ws = ws"
| "deal i (fd # fds) ws =
     (let j = Suc i mod length ws in deal j fds (ws[j := enq fd (ws ! j)]))"

lemma length_deal [simp]: "length (deal i fds ws) = length ws"
  by (induction i fds ws rule: deal.induct) (simp_all add: Let_def)

text \<open>The descriptors that worker \<open>w\<close> of \<open>n\<close> gets, the \<open>k\<close>-th going to worker \<open>(i + k) mod n\<close>.\<close>

definition share :: "nat \<Rightarrow> nat \<Rightarrow> nat \<Rightarrow> fd list \<Rightarrow> fd list" where
  "share n i w fds = map snd (filter (\<lambda>(k, _). (i + k) mod n = w) (enumerate 1 fds))"

lemma share_Cons:
  assumes "0 < n"
  shows "share n i w (fd # fds) = (if Suc i mod n = w then [fd] else []) @ share n (Suc i mod n) w fds"
proof -
  have "(Suc i mod n + k) mod n = (i + Suc k) mod n" for k
    by (simp add: mod_add_left_eq)
  moreover have "enumerate (Suc (Suc 0)) fds = map (\<lambda>(k, x). (Suc k, x)) (enumerate (Suc 0) fds)"
    by (simp add: enumerate_Suc_eq split_def apfst_def map_prod_def)
  ultimately show ?thesis
    by (simp add: share_def filter_map comp_def split_def)
qed

lemma deal_backlog:
  "w < length ws \<Longrightarrow> backlog (deal i fds ws ! w) = backlog (ws ! w) @ share (length ws) i w fds"
proof (induction i fds ws rule: deal.induct)
  case (1 i ws)
  then show ?case by (simp add: share_def)
next
  case (2 i fd fds ws)
  let ?j = "Suc i mod length ws"
  have "0 < length ws" using "2.prems" by auto
  then have "?j < length ws" by simp
  then have "backlog (ws[?j := enq fd (ws ! ?j)] ! w) = backlog (ws ! w) @ (if ?j = w then [fd] else [])"
    by (simp add: nth_list_update backlog_enq)
  with "2.IH" [OF refl] "2.prems" share_Cons [OF \<open>0 < length ws\<close>, of i w fd fds] show ?case
    by (simp add: Let_def)
qed

end

lemma mod_complement:
  fixes n :: nat
  assumes "r < n" and "w < n"
  shows "(r + (n - w)) mod n = 0 \<longleftrightarrow> r = w"
proof (cases "r < w")
  case True
  then have "r + (n - w) < n" using assms by arith
  then have "(r + (n - w)) mod n = r + (n - w)" by (rule mod_less)
  with True assms(2) show ?thesis by linarith
next
  case False
  then have eq: "r + (n - w) = (r - w) + n" and "r - w < n" using assms by arith+
  then have "(r + (n - w)) mod n = r - w" unfolding eq by simp
  with False show ?thesis by linarith
qed

lemma div_add_lt:
  fixes n :: nat
  assumes "d < n"
  shows "(m + d) div n \<in> {m div n, Suc (m div n)}"
proof -
  have "m div n \<le> (m + d) div n" by (rule div_le_mono) simp
  moreover have "(m + d) div n \<le> (m + n) div n" using assms by (intro div_le_mono) simp
  moreover have "(m + n) div n = Suc (m div n)" using assms by (intro div_add_self2 [THEN trans]) simp_all
  ultimately show ?thesis by auto
qed

text \<open>How many of the numbers below \<open>x\<close> are \<open>w\<close> modulo \<open>n\<close>.\<close>

lemma count_mod:
  assumes "w < n"
  shows "length (filter (\<lambda>k. k mod n = w) [0..<x]) = (x + (n - 1 - w)) div n"
proof (induction x)
  case 0
  have "n - 1 - w < n" using assms by simp
  then show ?case by simp
next
  case (Suc x)
  have "(Suc x + (n - 1 - w)) div n = (x + (n - 1 - w)) div n + (if x mod n = w then 1 else 0)"
  proof -
    have eq: "Suc (x + (n - 1 - w)) = x + (n - w)" using assms by simp
    have "Suc (x + (n - 1 - w)) mod n = (x mod n + (n - w)) mod n"
      unfolding eq by (rule mod_add_left_eq [symmetric])
    then have "Suc (x + (n - 1 - w)) mod n = 0 \<longleftrightarrow> x mod n = w"
      using mod_complement [OF mod_less_divisor assms] assms by simp
    then show ?thesis by (simp add: div_Suc)
  qed
  with Suc show ?case by simp
qed

lemma count_mod_shift:
  assumes "w < n" and "i < n"
  shows "length (filter (\<lambda>k. (i + k) mod n = w) [1..<Suc m]) + (if w \<le> i then 1 else 0) =
    (Suc (i + m) + (n - 1 - w)) div n"
proof -
  have "[0..<Suc (i + m)] = [0..<Suc i] @ map (\<lambda>k. i + k) [1..<Suc m]"
    by (induction m) simp_all
  then have "length (filter (\<lambda>k. k mod n = w) [0..<Suc (i + m)]) =
      length (filter (\<lambda>k. k mod n = w) [0..<Suc i]) +
      length (filter (\<lambda>k. (i + k) mod n = w) [1..<Suc m])"
    by (simp add: filter_map comp_def del: upt_Suc)
  moreover have "length (filter (\<lambda>k. k mod n = w) [0..<Suc i]) = (if w \<le> i then 1 else 0)"
    using assms by (subst count_mod) (auto simp: div_eq_0_iff intro: div_nat_eqI)
  ultimately show ?thesis
    using count_mod [OF assms(1), of "Suc (i + m)"] by simp
qed

text \<open>So \<open>m\<close> numbers in a row hit a residue \<open>m div n\<close> or one more times.\<close>

lemma count_mod_fair:
  assumes "w < n" and "i < n"
  shows "length (filter (\<lambda>k. (i + k) mod n = w) [1..<Suc m]) \<in> {m div n, Suc (m div n)}"
proof (cases "w \<le> i")
  case True
  have "Suc (i + m) + (n - 1 - w) = (m + (i - w)) + n" using assms True by arith
  then have "(Suc (i + m) + (n - 1 - w)) div n = Suc ((m + (i - w)) div n)"
    using assms by (simp only: div_add_self2)
  then have "length (filter (\<lambda>k. (i + k) mod n = w) [1..<Suc m]) = (m + (i - w)) div n"
    using count_mod_shift [OF assms, of m] True by (simp del: upt_Suc)
  moreover have "i - w < n" using assms by simp
  ultimately show ?thesis using div_add_lt by metis
next
  case False
  have "Suc (i + m) + (n - 1 - w) = m + (n - (w - i))" using assms False by arith
  moreover have "n - (w - i) < n" using assms False by arith
  ultimately show ?thesis
    using count_mod_shift [OF assms, of m] False div_add_lt [of "n - (w - i)" n m]
    by (simp only: if_False add_0_right simp_thms)
qed

lemma length_filter_enumerate:
  "length (filter (\<lambda>(k, _). P k) (enumerate j xs)) = length (filter P [j..<j + length xs])"
proof -
  have "filter P [j..<j + length xs] = map fst (filter (\<lambda>(k, _). P k) (enumerate j xs))"
    by (simp only: map_fst_enumerate [of j xs, symmetric] filter_map comp_def split_def)
  then show ?thesis by simp
qed

context fd_sink
begin

lemma length_share:
  "length (share n i w fds) = length (filter (\<lambda>k. (i + k) mod n = w) [1..<Suc (length fds)])"
  using length_filter_enumerate [of "\<lambda>k. (i + k) mod n = w" 1 fds]
  by (simp add: share_def del: upt_Suc)

lemma share_fair:
  "\<lbrakk> w < n; i < n \<rbrakk> \<Longrightarrow> length (share n i w fds) \<in> {length fds div n, Suc (length fds div n)}"
  unfolding length_share by (rule count_mod_fair)

end

section \<open>The service threads as sinks\<close>

interpretation sink: fd_sink "\<lambda>fd t. snd (addFdToEvLoop True fd t)" fd_queue
  by unfold_locales (simp add: addFdToEvLoop_def)

text \<open>The pool as \<open>initWorkers\<close> leaves it and as the dispatcher keeps it.\<close>

definition pool_ok :: "'s worker_manager \<Rightarrow> bool" where
  "pool_ok wm \<longleftrightarrow> 0 < thread_count wm \<and> thread_count wm \<le> int_max \<and>
     int (length (workers wm)) = thread_count wm \<and> unat (rr_index wm) < length (workers wm)"

lemma init_loop_simps [simp]:
  "workers (init_loop d n wm) = workers wm @ replicate n (new_service_thread d)"
  "thread_count (init_loop d n wm) = thread_count wm"
  "rr_index (init_loop d n wm) = rr_index wm"
  "dist_type (init_loop d n wm) = dist_type wm"
  by (induction d n wm rule: init_loop.induct) (simp_all add: replicate_append_same)

lemma initWorkers_pool_ok:
  "\<lbrakk> 0 < n; n \<le> int_max \<rbrakk> \<Longrightarrow> pool_ok (initWorkers d (new_worker_manager n policy))"
  by (simp add: pool_ok_def initWorkers_def new_worker_manager_def)

lemma pool_okE:
  assumes "pool_ok wm"
  obtains n where "thread_count wm = int n" and "length (workers wm) = n" and "0 < n" and "n < 2 ^ 31"
    and "unat (rr_index wm) < n"
  using assms by (auto simp: pool_ok_def int_max_def)

lemma getWorkerIndex_round_robin:
  assumes "pool_ok wm" and "dist_type wm = ROUND_ROBIN"
  shows "\<exists>i. getWorkerIndex wm = Inr (i, wm\<lparr>rr_index := i\<rparr>) \<and>
    unat i = Suc (unat (rr_index wm)) mod length (workers wm) \<and> sint i = int (unat i)"
proof -
  from assms(1) obtain n where n: "thread_count wm = int n" "length (workers wm) = n" "0 < n" "n < 2 ^ 31"
    "unat (rr_index wm) < n" by (rule pool_okE)
  define i where "i = (rr_index wm + 1) mod (word_of_int (thread_count wm) :: u32)"
  have un: "unat (word_of_int (thread_count wm) :: u32) = n"
    using n by (simp add: unsigned_of_nat take_bit_nat_eq_self)
  have "unat (rr_index wm + 1) = Suc (unat (rr_index wm))"
    using n by (simp add: unat_word_ariths)
  then have ui: "unat i = Suc (unat (rr_index wm)) mod n"
    by (simp add: i_def unat_mod un)
  then have "unat i < 2 ^ 31" using n mod_less_divisor [of n "Suc (unat (rr_index wm))"] by linarith
  then have "sint i = int (unat i)"
    by (rule sint_small)
  moreover have "(word_of_int (thread_count wm) :: u32) \<noteq> 0"
    using un n(3) by auto
  ultimately show ?thesis
    using assms(2) ui n(2) by (simp add: getWorkerIndex_def Let_def i_def)
qed

lemma dispatchFd_round_robin:
  assumes ok: "pool_ok wm" and rr: "dist_type wm = ROUND_ROBIN"
  shows "\<exists>wm'. dispatchFd write_ok fd wm = Inr wm' \<and> pool_ok wm' \<and> dist_type wm' = ROUND_ROBIN \<and>
    unat (rr_index wm') = Suc (unat (rr_index wm)) mod length (workers wm) \<and>
    workers wm' = (workers wm)[unat (rr_index wm') := snd (addFdToEvLoop write_ok fd (workers wm ! unat (rr_index wm')))]"
proof -
  obtain i where i: "getWorkerIndex wm = Inr (i, wm\<lparr>rr_index := i\<rparr>)"
      "unat i = Suc (unat (rr_index wm)) mod length (workers wm)" "sint i = int (unat i)"
    using getWorkerIndex_round_robin [OF assms] by blast
  from ok have "0 < length (workers wm)" "thread_count wm = int (length (workers wm))"
    by (auto simp: pool_ok_def)
  then have "unat i < length (workers wm)" using i(2) by simp
  then have "dispatchFd write_ok fd wm = Inr (wm\<lparr>rr_index := i, workers :=
      (workers wm)[unat i := snd (addFdToEvLoop write_ok fd (workers wm ! unat i))]\<rparr>)"
    using i \<open>thread_count wm = _\<close> by (simp add: dispatchFd_def loadbalanceFd_def elem_at_def)
  with ok rr i(2) \<open>unat i < _\<close> show ?thesis by (auto simp: pool_ok_def)
qed

lemma dispatch_all_deal:
  "\<lbrakk> pool_ok wm; dist_type wm = ROUND_ROBIN \<rbrakk> \<Longrightarrow>
    \<exists>wm'. dispatch_all fds wm = Inr wm' \<and> pool_ok wm' \<and>
      workers wm' = sink.deal (unat (rr_index wm)) fds (workers wm)"
proof (induction fds arbitrary: wm)
  case Nil
  then show ?case by simp
next
  case (Cons fd fds)
  obtain wm1 where 1: "dispatchFd True fd wm = Inr wm1" "pool_ok wm1" "dist_type wm1 = ROUND_ROBIN"
      "unat (rr_index wm1) = Suc (unat (rr_index wm)) mod length (workers wm)"
      "workers wm1 = (workers wm)[unat (rr_index wm1) := snd (addFdToEvLoop True fd (workers wm ! unat (rr_index wm1)))]"
    using dispatchFd_round_robin [OF Cons.prems] by blast
  from Cons.IH [OF 1(2,3)] obtain wm2 where "dispatch_all fds wm1 = Inr wm2" "pool_ok wm2"
      "workers wm2 = sink.deal (unat (rr_index wm1)) fds (workers wm1)" by blast
  moreover note 1(1) 1(5) 1(4)
  ultimately show ?case by (simp add: Let_def)
qed

section \<open>The least loaded worker\<close>

lemma least_loaded_min:
  assumes "\<forall>w \<in> set ws. length (fd_queue w) < 2 ^ 31"
  shows "least_loaded ws i index mn = index \<and> (\<forall>w \<in> set ws. mn \<le> int (length (fd_queue w))) \<or>
    (\<exists>k < length ws. least_loaded ws i index mn = i + k \<and> int (length (fd_queue (ws ! k))) < mn \<and>
      (\<forall>w \<in> set ws. length (fd_queue (ws ! k)) \<le> length (fd_queue w)) \<and>
      (\<forall>j < k. length (fd_queue (ws ! k)) < length (fd_queue (ws ! j))))"
  using assms
proof (induction ws i index mn rule: least_loaded.induct)
  case (1 i index mn)
  then show ?case by simp
next
  case (2 w ws i index mn)
  define q where "q v = length (fd_queue v)" for v :: "'a service_thread"
  have s: "sint (getCurrentFdQueueSize w) = int (q w)"
    using "2.prems" by (simp add: getCurrentFdQueueSize_def sint_word_of_nat_small q_def)
  have rest: "\<forall>w \<in> set ws. length (fd_queue w) < 2 ^ 31" using "2.prems" by simp
  show ?case
  proof (cases "int (q w) < mn")
    case True
    then have step: "least_loaded (w # ws) i index mn = least_loaded ws (Suc i) i (int (q w))"
      by (simp add: Let_def s)
    from "2.IH"(1) [OF refl _ rest] True
    consider (first) "least_loaded ws (Suc i) i (int (q w)) = i" "\<forall>v \<in> set ws. q w \<le> q v"
      | (later) k where "k < length ws" "least_loaded ws (Suc i) i (int (q w)) = Suc i + k"
          "q (ws ! k) < q w" "\<forall>v \<in> set ws. q (ws ! k) \<le> q v" "\<forall>j < k. q (ws ! k) < q (ws ! j)"
      unfolding s q_def by (auto simp: s [unfolded q_def])
    then show ?thesis
    proof cases
      case first
      then show ?thesis using True step unfolding q_def by (intro disjI2 exI [of _ 0]) simp
    next
      case later
      then show ?thesis using True step unfolding q_def
        by (intro disjI2 exI [of _ "Suc k"]) (auto simp: nth_Cons split: nat.split)
    qed
  next
    case False
    then have step: "least_loaded (w # ws) i index mn = least_loaded ws (Suc i) index mn"
      by (simp add: Let_def s)
    from "2.IH"(2) [OF refl _ rest] False
    consider (none) "least_loaded ws (Suc i) index mn = index" "\<forall>v \<in> set ws. mn \<le> int (q v)"
      | (later) k where "k < length ws" "least_loaded ws (Suc i) index mn = Suc i + k"
          "int (q (ws ! k)) < mn" "\<forall>v \<in> set ws. q (ws ! k) \<le> q v" "\<forall>j < k. q (ws ! k) < q (ws ! j)"
      unfolding s q_def by (auto simp: s [unfolded q_def])
    then show ?thesis
    proof cases
      case none
      then show ?thesis using False step unfolding q_def by simp
    next
      case later
      then show ?thesis using False step unfolding q_def
        by (intro disjI2 exI [of _ "Suc k"]) (auto simp: nth_Cons split: nat.split)
    qed
  qed
qed

text \<open>So with bounded queues the worker chosen is the first of those with the shortest queue.\<close>

lemma least_loaded_shortest:
  assumes "ws \<noteq> []" and "\<forall>w \<in> set ws. length (fd_queue w) < 2 ^ 31 - 1"
  shows "least_loaded ws 0 0 int_max < length ws \<and>
    (\<forall>w \<in> set ws. length (fd_queue (ws ! least_loaded ws 0 0 int_max)) \<le> length (fd_queue w))"
proof -
  have "\<forall>w \<in> set ws. length (fd_queue w) < 2 ^ 31" using assms(2) by auto
  moreover have "int (length (fd_queue (hd ws))) < int_max" "hd ws \<in> set ws"
    using assms by (auto simp: int_max_def)
  ultimately show ?thesis using least_loaded_min [of ws 0 0 int_max] by force
qed

section \<open>Properties\<close>

text \<open>C16: round robin is fair and exact: the \<open>k\<close>-th of \<open>m\<close> descriptors goes to the worker that follows
  the last one by \<open>k\<close>, at the end of its queue, so that every one of \<open>n\<close> workers gets \<open>m div n\<close> of them or one
  more; dispatching never fails.\<close>

theorem round_robin_fair:
  assumes "pool_ok wm" and "dist_type wm = ROUND_ROBIN" and "j < length (workers wm)"
  shows "\<exists>wm' mine. dispatch_all fds wm = Inr wm' \<and>
    fd_queue (workers wm' ! j) = fd_queue (workers wm ! j) @ mine \<and>
    mine = map snd (filter (\<lambda>(k, _). (unat (rr_index wm) + k) mod length (workers wm) = j) (enumerate 1 fds)) \<and>
    length mine \<in> {length fds div length (workers wm), Suc (length fds div length (workers wm))}"
proof -
  obtain wm' where wm': "dispatch_all fds wm = Inr wm'"
      "workers wm' = sink.deal (unat (rr_index wm)) fds (workers wm)"
    using dispatch_all_deal [OF assms(1,2)] by blast
  have "unat (rr_index wm) < length (workers wm)" using assms(1) by (simp add: pool_ok_def)
  from sink.share_fair [OF assms(3) this, of fds] sink.deal_backlog [OF assms(3), of "unat (rr_index wm)" fds] wm'
  show ?thesis by (auto simp: sink.share_def)
qed

theorem round_robin_fair_witness:
  "\<exists>wm'. dispatch_all [10, 11, 12, 13, 14] (initWorkers () (new_worker_manager 2 ROUND_ROBIN)) = Inr wm' \<and>
    fd_queue (workers wm' ! 1) = [10, 12, 14]"
proof -
  let ?wm = "initWorkers () (new_worker_manager 2 ROUND_ROBIN)"
  have "pool_ok ?wm" by (rule initWorkers_pool_ok) (simp_all add: int_max_def)
  moreover have w: "workers ?wm = [new_service_thread (), new_service_thread ()]" "rr_index ?wm = 0"
    "dist_type ?wm = ROUND_ROBIN"
    by (simp_all add: initWorkers_def new_worker_manager_def numeral_2_eq_2)
  ultimately obtain wm' mine where m: "dispatch_all [10, 11, 12, 13, 14] ?wm = Inr wm'"
      "fd_queue (workers wm' ! 1) = fd_queue (workers ?wm ! 1) @ mine"
      "mine = map snd (filter (\<lambda>(k, _). (unat (rr_index ?wm) + k) mod length (workers ?wm) = 1)
        (enumerate 1 [10, 11, 12, 13, 14]))"
    using round_robin_fair [of ?wm 1 "[10, 11, 12, 13, 14]"] by auto
  have "map snd (filter (\<lambda>(k, _). (0 + k) mod 2 = 1) (enumerate (1 :: nat) [10, 11, 12, 13, 14 :: int])) = [10, 12, 14]"
    by code_simp
  with m(2,3) w have "fd_queue (workers wm' ! 1) = [10, 12, 14]"
    by (simp add: new_service_thread_def numeral_2_eq_2 del: enumerate_simps)
  with m(1) show ?thesis by blast
qed

text \<open>The other policy picks the first worker with the shortest queue.\<close>

theorem least_loaded_is_shortest:
  assumes "pool_ok wm" and "dist_type wm = DIST_LESS_LOADED_WORKER"
    and "\<forall>t \<in> set (workers wm). length (fd_queue t) < 2 ^ 31 - 1"
  shows "\<exists>i. getWorkerIndex wm = Inr (i, wm) \<and> unat i < length (workers wm) \<and>
    (\<forall>t \<in> set (workers wm). length (fd_queue (workers wm ! unat i)) \<le> length (fd_queue t))"
proof -
  obtain n where n: "length (workers wm) = n" "0 < n" "n < 2 ^ 31"
    using assms(1) by (auto elim: pool_okE)
  then have "workers wm \<noteq> []" by auto
  note ll = least_loaded_shortest [OF this assms(3)]
  let ?k = "least_loaded (workers wm) 0 0 int_max"
  have "unat (word_of_nat ?k :: u32) = ?k"
    using ll n by (simp add: unsigned_of_nat take_bit_nat_eq_self)
  with ll assms(2) show ?thesis
    by (auto simp: getWorkerIndex_def DIST_LESS_LOADED_WORKER_def ROUND_ROBIN_def)
qed

theorem least_loaded_is_shortest_witness:
  "\<exists>i. getWorkerIndex (initWorkers () (new_worker_manager 3 DIST_LESS_LOADED_WORKER)) =
    Inr (i, initWorkers () (new_worker_manager 3 DIST_LESS_LOADED_WORKER)) \<and> unat i < 3"
proof -
  let ?wm = "initWorkers () (new_worker_manager 3 DIST_LESS_LOADED_WORKER)"
  have "pool_ok ?wm" by (rule initWorkers_pool_ok) (simp_all add: int_max_def)
  moreover have "workers ?wm = replicate 3 (new_service_thread ())" "dist_type ?wm = DIST_LESS_LOADED_WORKER"
    by (simp_all add: initWorkers_def new_worker_manager_def)
  ultimately show ?thesis
    using least_loaded_is_shortest [of ?wm] by (auto simp: new_service_thread_def)
qed

text \<open>A server without workers divides by zero when the first connection is dispatched.\<close>

theorem no_workers_divide_by_zero:
  "dispatchFd ok fd (initWorkers d (new_worker_manager 0 ROUND_ROBIN)) = Inl Div_by_zero"
  by (simp add: dispatchFd_def loadbalanceFd_def getWorkerIndex_def initWorkers_def new_worker_manager_def
      del: rbind_Inl_iff)

end
