(* ===== verification/Requests.thy ===== *)
theory Requests
  imports TcpFlow
begin

text \<open>
  The three request handlers of \<open>server/src/TcpFlow.cpp\<close> as the worker threads run them: at the same
  time, on one \<open>Dictionary\<close> and one \<open>Stats\<close>. Each step below is what happens between two points at
  which another thread can come in: a critical section of \<open>Dictionary::m_mtx\<close> or \<open>Stats::m_mtx\<close>, or
  one of the accesses that the code makes without a lock (\<open>m_dict.size()\<close> in \<open>Dictionary::set\<close>, the
  three counter reads of a STAT request). A thread that runs alone computes what \<open>handle_request\<close>
  computes; the properties say what holds under every interleaving.
\<close>

section \<open>Steps of a request\<close>

datatype req_pc =
    Req_start request_type payload
  | Get_counted payload
  | Get_result payload bool string
  | Set_checked payload
  | Set_result payload bool
  | Stat_second payload
  | Stat_third payload
  | Req_done payload

text \<open>\<open>mutable_stats\<close>: the sub-message, created when it is not there.\<close>

definition mutable_stats :: "payload \<Rightarrow> stat_msg" where
  "mutable_stats p = (case pb_stats p of None \<Rightarrow> empty_stat | Some m \<Rightarrow> m)"

definition with_stats :: "(stat_msg \<Rightarrow> stat_msg) \<Rightarrow> payload \<Rightarrow> payload" where
  "with_stats h p = p\<lparr>pb_stats := Some (h (mutable_stats p))\<rparr>"

definition get_step :: "'d server \<Rightarrow> payload \<Rightarrow> bool \<Rightarrow> string \<Rightarrow> 'd server \<times> payload" where
  "get_step srv p ok val =
     (if ok
      then (srv\<lparr>srv_stats := incrGetReqSucc (srv_stats srv)\<rparr>, p\<lparr>pb_value := Some val\<rparr>)
      else (srv\<lparr>srv_stats := incrGetReqFail (srv_stats srv)\<rparr>, p\<lparr>pb_reason := Some val\<rparr>))"

fun worker_step :: "'d server \<Rightarrow> req_pc \<Rightarrow> ('d server \<times> req_pc) res" where
  "worker_step srv (Req_start GET p) =
     Inr (srv\<lparr>srv_stats := incrGetReq (srv_stats srv)\<rparr>, Get_counted p)"
| "worker_step srv (Get_counted p) =
     rbind (dict_get (srv_dict srv) (get_str (pb_key p)) [])
       (\<lambda>(ok, val). Inr (srv, Get_result p ok val))"
| "worker_step srv (Get_result p ok val) =
     (let (srv', p') = get_step srv p ok val in Inr (srv', Req_done p'))"
| "worker_step srv (Req_start SET p) =
     Inr (srv, if set_is_full (srv_dict srv) then Set_result p False else Set_checked p)"
| "worker_step srv (Set_checked p) =
     rbind (set_locked (srv_dict srv) (get_str (pb_key p)) (get_str (pb_value p)))
       (\<lambda>d'. Inr (srv\<lparr>srv_dict := d'\<rparr>, Set_result p True))"
| "worker_step srv (Set_result p ok) =
     Inr (srv, Req_done (if \<not> ok then p\<lparr>pb_reason := Some ''failed''\<rparr> else p))"
| "worker_step srv (Req_start STAT p) =
     Inr (srv, Stat_second (with_stats (numgetreq_update (\<lambda>_. Some (ucast (getNumGetReq (srv_stats srv))))) p))"
| "worker_step srv (Stat_second p) =
     Inr (srv, Stat_third (with_stats (numsuccgetreq_update (\<lambda>_. Some (ucast (getNumGetReqSucc (srv_stats srv))))) p))"
| "worker_step srv (Stat_third p) =
     Inr (srv, Req_done (with_stats (numfailgetreq_update (\<lambda>_. Some (ucast (getNumGetReqFail (srv_stats srv))))) p))"
| "worker_step srv (Req_done p) = Inr (srv, Req_done p)"

text \<open>A thread that is not interrupted; four steps are enough for every request.\<close>

fun run_request :: "nat \<Rightarrow> 'd server \<Rightarrow> req_pc \<Rightarrow> ('d server \<times> req_pc) res" where
  "run_request 0 srv pc = Inr (srv, pc)"
| "run_request (Suc n) srv pc = rbind (worker_step srv pc) (\<lambda>(srv', pc'). run_request n srv' pc')"

section \<open>Threads that share the server\<close>

text \<open>
  \<open>pool_hist\<close> records the effects on the dictionary in the order in which they happen, with the result
  that the thread saw; it does not influence any step.
\<close>

record 'd pool =
  pool_srv :: "'d server"
  pool_pcs :: "req_pc list"
  pool_hist :: "(dict_op \<times> (bool \<times> string)) list"

fun effect :: "'d server \<Rightarrow> req_pc \<Rightarrow> (dict_op \<times> (bool \<times> string)) list" where
  "effect srv (Get_counted p) =
     (case dict_get (srv_dict srv) (get_str (pb_key p)) [] of
        Inl _ \<Rightarrow> [] | Inr r \<Rightarrow> [(Op_get (get_str (pb_key p)), r)])"
| "effect srv (Req_start SET p) =
     (if set_is_full (srv_dict srv)
      then [(Op_set (get_str (pb_key p)) (get_str (pb_value p)), (False, []))] else [])"
| "effect srv (Set_checked p) = [(Op_set (get_str (pb_key p)) (get_str (pb_value p)), (True, []))]"
| "effect srv _ = []"

inductive pool_step :: "'d pool \<Rightarrow> 'd pool \<Rightarrow> bool" where
  arrive: "i < length (pool_pcs s) \<Longrightarrow> pool_pcs s ! i = Req_done q \<Longrightarrow>
    pool_step s (s\<lparr>pool_pcs := (pool_pcs s)[i := Req_start t p]\<rparr>)"
| work: "i < length (pool_pcs s) \<Longrightarrow> worker_step (pool_srv s) (pool_pcs s ! i) = Inr (srv', pc') \<Longrightarrow>
    pool_step s (s\<lparr>pool_srv := srv', pool_pcs := (pool_pcs s)[i := pc'],
      pool_hist := pool_hist s @ effect (pool_srv s) (pool_pcs s ! i)\<rparr>)"

inductive_cases pool_stepE: "pool_step s t"

definition pool_start :: "'d server \<Rightarrow> nat \<Rightarrow> 'd pool" where
  "pool_start srv n = \<lparr> pool_srv = srv, pool_pcs = replicate n (Req_done empty_payload), pool_hist = [] \<rparr>"

inductive pool_reachable :: "'d pool \<Rightarrow> 'd pool \<Rightarrow> bool" for s0 where
  pool_refl: "pool_reachable s0 s0"
| pool_next: "pool_reachable s0 s \<Longrightarrow> pool_step s t \<Longrightarrow> pool_reachable s0 t"

section \<open>One thread alone\<close>

lemma mutable_stats_with [simp]: "mutable_stats (with_stats h p) = h (mutable_stats p)"
  by (simp add: with_stats_def mutable_stats_def)

lemma with_stats_twice: "with_stats h (with_stats g p) = with_stats (h \<circ> g) p"
  by (simp add: with_stats_def mutable_stats_def)

lemma run_get: "run_request 4 srv (Req_start GET p) =
    rbind (handleGetRequest srv p) (\<lambda>(srv', p'). Inr (srv', Req_done p'))"
  by (cases "dict_get (srv_dict srv) (get_str (pb_key p)) []")
    (auto simp: numeral_eq_Suc handleGetRequest_def get_step_def Let_def simp del: rbind_Inr_iff rbind_Inl_iff)

lemma run_set: "run_request 4 srv (Req_start SET p) =
    rbind (handleSetRequest srv p) (\<lambda>(srv', p'). Inr (srv', Req_done p'))"
  by (cases "set_locked (srv_dict srv) (get_str (pb_key p)) (get_str (pb_value p))")
    (auto simp: numeral_eq_Suc handleSetRequest_def dict_set_def simp del: rbind_Inr_iff rbind_Inl_iff)

lemma run_stat: "run_request 4 srv (Req_start STAT p) =
    rbind (handleStatRequest srv p) (\<lambda>(srv', p'). Inr (srv', Req_done p'))"
  by (simp add: numeral_eq_Suc handleStatRequest_def with_stats_twice Let_def comp_def)
    (simp add: with_stats_def mutable_stats_def)

section \<open>Invariants\<close>

text \<open>A GET that has been counted and whose outcome has not.\<close>

fun open_get :: "req_pc \<Rightarrow> bool" where
  "open_get (Get_counted _) \<longleftrightarrow> True"
| "open_get (Get_result _ _ _) \<longleftrightarrow> True"
| "open_get _ \<longleftrightarrow> False"

definition open_gets :: "req_pc list \<Rightarrow> nat" where
  "open_gets pcs = length (filter open_get pcs)"

lemma open_gets_update:
  "i < length pcs \<Longrightarrow> open_gets (pcs[i := pc]) + of_bool (open_get (pcs ! i)) =
     open_gets pcs + of_bool (open_get pc)"
  unfolding open_gets_def by (rule length_filter_update)

definition counters_match :: "nat \<Rightarrow> stats \<Rightarrow> bool" where
  "counters_match k st \<longleftrightarrow> num_get_req st = num_get_req_succ st + num_get_req_fail st + of_nat k"

lemma counters_match_0: "counters_match 0 st \<longleftrightarrow> stats_balanced st"
  by (simp add: counters_match_def stats_balanced_def)

definition requests_ok :: "nat \<Rightarrow> 'd pool \<Rightarrow> bool" where
  "requests_ok n s \<longleftrightarrow> length (pool_pcs s) = n \<and> filter_covers (srv_dict (pool_srv s)) \<and>
     counters_match (open_gets (pool_pcs s)) (srv_stats (pool_srv s))"

lemma requests_ok_start: "server_ok srv \<Longrightarrow> requests_ok n (pool_start srv n)"
  by (simp add: requests_ok_def pool_start_def server_ok_def dict_ok_def open_gets_def counters_match_0)

lemma dict_get_defined: "filter_covers d \<Longrightarrow> \<exists>ok val. dict_get d k v0 = Inr (ok, val)"
  using dict_get_plain [of d k v0] dict_get_filtered [of d k v0]
  by (cases "bloom_enabled d") auto

text \<open>Every step has a result, and changes the counters as it opens or closes a GET.\<close>

lemma worker_step_ok:
  assumes "filter_covers (srv_dict srv)"
    and "counters_match (k + of_bool (open_get pc)) (srv_stats srv)"
  shows "\<exists>srv' pc'. worker_step srv pc = Inr (srv', pc') \<and> filter_covers (srv_dict srv') \<and>
    counters_match (k + of_bool (open_get pc')) (srv_stats srv')"
proof (cases pc)
  case (Req_start t p)
  with assms show ?thesis
    by (cases t) (simp_all add: counters_match_def stats_defs)
next
  case (Get_counted p)
  moreover obtain ok val where "dict_get (srv_dict srv) (get_str (pb_key p)) [] = Inr (ok, val)"
    using dict_get_defined [OF assms(1)] by blast
  ultimately show ?thesis
    using assms by (intro exI [of _ srv] exI [of _ "Get_result p ok val"]) simp
next
  case (Get_result p ok val)
  with assms show ?thesis
    by (cases ok) (simp_all add: counters_match_def stats_defs get_step_def algebra_simps)
next
  case (Set_checked p)
  moreover obtain d' where "set_locked (srv_dict srv) (get_str (pb_key p)) (get_str (pb_value p)) = Inr d'"
      "filter_covers d'"
    using set_locked_refines [OF assms(1)] by blast
  ultimately show ?thesis
    using assms by (intro exI [of _ "srv\<lparr>srv_dict := d'\<rparr>"] exI [of _ "Set_result p True"]) simp
qed (use assms in simp_all)

lemma pool_step_ok:
  assumes "pool_step s t" and "requests_ok n s"
  shows "requests_ok n t"
  using assms(1)
proof (cases rule: pool_step.cases)
  case (arrive i q u p)
  with assms(2) open_gets_update [of i "pool_pcs s" "Req_start u p"] show ?thesis
    by (simp add: requests_ok_def)
next
  case (work i srv' pc')
  let ?k = "open_gets (pool_pcs s) - of_bool (open_get (pool_pcs s ! i))"
  from open_gets_update [OF work(2), of pc'] open_gets_update [OF work(2), of "Req_done empty_payload"]
  have k: "open_gets (pool_pcs s) = ?k + of_bool (open_get (pool_pcs s ! i))"
    and k': "open_gets ((pool_pcs s)[i := pc']) = ?k + of_bool (open_get pc')" by auto
  from assms(2) have "filter_covers (srv_dict (pool_srv s))"
    and "counters_match (?k + of_bool (open_get (pool_pcs s ! i))) (srv_stats (pool_srv s))"
    unfolding k [symmetric] by (simp_all add: requests_ok_def)
  from worker_step_ok [OF this] work(3)
  have "filter_covers (srv_dict srv')" "counters_match (?k + of_bool (open_get pc')) (srv_stats srv')"
    by auto
  with work(1) assms(2) show ?thesis by (simp add: requests_ok_def k')
qed

lemma pool_reachable_ok:
  assumes "pool_reachable s0 s" and "requests_ok n s0"
  shows "requests_ok n s"
  using assms by (induction rule: pool_reachable.induct) (auto intro: pool_step_ok)

section \<open>The order of the effects\<close>

lemma dict_run_append:
  "dict_run xs d = Inr (rs, d1) \<Longrightarrow> dict_run ys d1 = Inr (qs, d2) \<Longrightarrow>
     dict_run (xs @ ys) d = Inr (rs @ qs, d2)"
  by (induction xs arbitrary: d rs) fastforce+

lemma set_locked_grows: "set_locked d k v = Inr d' \<Longrightarrow> dict_size d \<le> dict_size d'"
  by (auto simp: set_locked_def dict_size_abs dict_abs_def fmlookup_fmupd_map card_insert_if
      split: if_splits option.splits)

lemma worker_step_grows:
  "worker_step srv pc = Inr (srv', pc') \<Longrightarrow> dict_size (srv_dict srv) \<le> dict_size (srv_dict srv')"
  by (induction srv pc rule: worker_step.induct) (auto simp: get_step_def set_locked_grows split: if_splits)

lemma effect_runs:
  assumes "worker_step srv pc = Inr (srv', pc')" and "\<not> set_is_full (srv_dict srv)"
  shows "dict_run (map fst (effect srv pc)) (srv_dict srv) = Inr (map snd (effect srv pc), srv_dict srv')"
  using assms
  by (induction srv pc rule: worker_step.induct)
    (auto simp: get_step_def dict_set_def split: if_splits sum.splits)

text \<open>What a thread will answer is the recorded result of its own call.\<close>

fun recorded :: "(dict_op \<times> (bool \<times> string)) list \<Rightarrow> req_pc \<Rightarrow> bool" where
  "recorded h (Get_result p ok val) \<longleftrightarrow> (Op_get (get_str (pb_key p)), (ok, val)) \<in> set h"
| "recorded h (Set_result p ok) \<longleftrightarrow>
     (Op_set (get_str (pb_key p)) (get_str (pb_value p)), (ok, [])) \<in> set h"
| "recorded h _ \<longleftrightarrow> True"

lemma recorded_append: "recorded h pc \<Longrightarrow> recorded (h @ g) pc"
  by (cases pc) auto

lemma worker_step_records:
  "worker_step srv pc = Inr (srv', pc') \<Longrightarrow> recorded (h @ effect srv pc) pc'"
  by (induction srv pc rule: worker_step.induct) (auto simp: get_step_def split: if_splits)

definition hist_ok :: "'d dictionary \<Rightarrow> 'd pool \<Rightarrow> bool" where
  "hist_ok d s \<longleftrightarrow> (\<forall>pc \<in> set (pool_pcs s). recorded (pool_hist s) pc) \<and>
     (dict_size (srv_dict (pool_srv s)) < max_dict_size \<longrightarrow>
      dict_run (map fst (pool_hist s)) d = Inr (map snd (pool_hist s), srv_dict (pool_srv s)))"

lemma hist_ok_start: "hist_ok (srv_dict srv) (pool_start srv n)"
  by (simp add: hist_ok_def pool_start_def)

lemma pool_step_hist:
  assumes "pool_step s t" and "hist_ok d s"
  shows "hist_ok d t"
  using assms(1)
proof (cases rule: pool_step.cases)
  case (arrive i q u p)
  with assms(2) show ?thesis by (auto simp: hist_ok_def dest: in_set_update)
next
  case (work i srv' pc')
  let ?srv = "pool_srv s" and ?e = "effect (pool_srv s) (pool_pcs s ! i)"
  have "dict_run (map fst (pool_hist s @ ?e)) d = Inr (map snd (pool_hist s @ ?e), srv_dict srv')"
    if "dict_size (srv_dict srv') < max_dict_size"
  proof -
    from worker_step_grows [OF work(3)] that have "dict_size (srv_dict ?srv) < max_dict_size" by simp
    with assms(2) have "dict_run (map fst (pool_hist s)) d = Inr (map snd (pool_hist s), srv_dict ?srv)"
      and "\<not> set_is_full (srv_dict ?srv)" by (simp_all add: hist_ok_def set_is_full_def)
    with effect_runs [OF work(3)] dict_run_append show ?thesis by fastforce
  qed
  moreover have "recorded (pool_hist s @ ?e) pc" if "pc \<in> set ((pool_pcs s)[i := pc'])" for pc
    using in_set_update [OF that] worker_step_records [OF work(3)] assms(2) recorded_append
    by (auto simp: hist_ok_def)
  ultimately show ?thesis using work(1) by (simp add: hist_ok_def)
qed

lemma pool_reachable_hist:
  assumes "pool_reachable s0 s" and "hist_ok d s0"
  shows "hist_ok d s"
  using assms by (induction rule: pool_reachable.induct) (auto intro: pool_step_hist)

section \<open>Properties\<close>




text \<open>C12: under every interleaving the counters agree: the requests counted as GET are those counted as
  successes, those counted as failures, and those that a thread is still working on; in particular the
  numbers add up whenever no GET is under way.\<close>

theorem counters_balanced_concurrently:
  assumes "server_ok srv" and "pool_reachable (pool_start srv n) s"
  shows "(let st = srv_stats (pool_srv s) in num_get_req st =
      num_get_req_succ st + num_get_req_fail st + of_nat (open_gets (pool_pcs s))) \<and>
    (list_all (\<lambda>pc. \<not> open_get pc) (pool_pcs s) \<longrightarrow> stats_balanced (srv_stats (pool_srv s)))"
proof -
  from pool_reachable_ok [OF assms(2) requests_ok_start [OF assms(1)]]
  have "counters_match (open_gets (pool_pcs s)) (srv_stats (pool_srv s))" by (simp add: requests_ok_def)
  moreover have "list_all (\<lambda>pc. \<not> open_get pc) pcs \<Longrightarrow> open_gets pcs = 0" for pcs
    by (simp add: open_gets_def list_all_iff)
  ultimately show ?thesis by (auto simp: counters_match_def stats_balanced_def)
qed

definition one_get :: "unit pool" where
  "one_get = \<lparr> pool_srv = new_server\<lparr>srv_stats := incrGetReq new_stats\<rparr>,
     pool_pcs = [Get_counted empty_payload], pool_hist = [] \<rparr>"

lemma one_get_reachable: "pool_reachable (pool_start new_server 1) one_get"
proof -
  let ?s0 = "pool_start (new_server :: unit server) 1"
  let ?s1 = "?s0\<lparr>pool_pcs := [Req_start GET empty_payload]\<rparr>"
  have "pool_step ?s0 ?s1"
    using pool_step.arrive [of 0 ?s0 empty_payload GET empty_payload] by (simp add: pool_start_def)
  moreover have "pool_step ?s1 one_get"
    using pool_step.work [of 0 ?s1] by (simp add: pool_start_def one_get_def new_server_def)
  ultimately show ?thesis by (blast intro: pool_next pool_refl)
qed

theorem counters_balanced_concurrently_witness:
  "num_get_req (srv_stats (pool_srv one_get)) = 1 \<and>
   num_get_req_succ (srv_stats (pool_srv one_get)) + num_get_req_fail (srv_stats (pool_srv one_get)) + 1 = 1"
  using counters_balanced_concurrently [OF new_server_ok(1) one_get_reachable]
  by (simp add: Let_def) (simp add: one_get_def stats_defs open_gets_def)

text \<open>C11: as long as the dictionary is not full, the interleaved requests are linearizable: every recorded
  history, replayed by one thread on the dictionary and on the specification's map, gives the results
  that the threads saw and the dictionary as it is; and a thread that has called the dictionary is about
  to answer the result that the history records for its call.\<close>

theorem concurrent_requests_linearize:
  assumes "server_ok srv" and "\<not> bloom_enabled (srv_dict srv)" and "pool_reachable (pool_start srv n) s"
    and "dict_size (srv_dict (pool_srv s)) < max_dict_size"
  shows "dict_run (map fst (pool_hist s)) (srv_dict srv) =
      Inr (map snd (pool_hist s), srv_dict (pool_srv s)) \<and>
    spec_run (map fst (pool_hist s)) (dict_abs (srv_dict srv)) =
      (map snd (pool_hist s), dict_abs (srv_dict (pool_srv s))) \<and>
    list_all (recorded (pool_hist s)) (pool_pcs s)"
proof -
  from pool_reachable_hist [OF assms(3) hist_ok_start] assms(4)
  have run: "dict_run (map fst (pool_hist s)) (srv_dict srv) =
      Inr (map snd (pool_hist s), srv_dict (pool_srv s))"
    and "list_all (recorded (pool_hist s)) (pool_pcs s)"
    by (auto simp: hist_ok_def list_all_iff)
  moreover from dict_run_refines [of "srv_dict srv" "map fst (pool_hist s)"] run assms(1,2)
  have "spec_run (map fst (pool_hist s)) (dict_abs (srv_dict srv)) =
      (map snd (pool_hist s), dict_abs (srv_dict (pool_srv s)))"
    by (auto simp: server_ok_def)
  ultimately show ?thesis by blast
qed

definition after_get :: "unit pool" where
  "after_get = one_get\<lparr> pool_pcs := [Get_result empty_payload False ''NOT_FOUND''],
     pool_hist := [(Op_get [], (False, ''NOT_FOUND''))] \<rparr>"

lemma after_get_reachable: "pool_reachable (pool_start new_server 1) after_get"
proof -
  have "pool_step one_get after_get"
    using pool_step.work [of 0 one_get "pool_srv one_get" "Get_result empty_payload False ''NOT_FOUND''"]
      dict_get_plain [of "new_dictionary :: unit dictionary" "[]" "[]"]
    by (simp add: one_get_def after_get_def new_server_def new_dictionary_def empty_payload_def get_str_def
        spec_get_def dict_abs_def del: rbind_Inr_iff)
  with one_get_reachable show ?thesis by (blast intro: pool_next)
qed

theorem concurrent_requests_linearize_witness:
  "dict_run [Op_get []] (new_dictionary :: unit dictionary) =
     Inr ([(False, ''NOT_FOUND'')], srv_dict (pool_srv after_get))"
  using concurrent_requests_linearize [OF new_server_ok after_get_reachable]
  by (simp add: after_get_def one_get_def new_server_def new_dictionary_def dict_size_abs dict_abs_def max_dict_size_def)

text \<open>A STAT request reads the three counters one after the other without the lock, so its answer need
  not be a state of the counters: here it reports no request and one failure.\<close>

definition can_be :: "'d server \<Rightarrow> nat \<Rightarrow> 'd server \<Rightarrow> req_pc list \<Rightarrow> bool" where
  "can_be srv0 n srv pcs \<longleftrightarrow>
     (\<exists>s. pool_reachable (pool_start srv0 n) s \<and> pool_srv s = srv \<and> pool_pcs s = pcs)"

lemma can_be_next:
  "can_be srv0 n srv pcs \<Longrightarrow>
   (\<And>h. \<exists>h'. pool_step \<lparr>pool_srv = srv, pool_pcs = pcs, pool_hist = h\<rparr>
     \<lparr>pool_srv = srv', pool_pcs = pcs', pool_hist = h'\<rparr>) \<Longrightarrow> can_be srv0 n srv' pcs'"
  unfolding can_be_def by (metis pool.surjective pool.select_convs pool_next unit.exhaust)

lemma can_be_work:
  assumes "can_be srv0 n srv pcs" and "i < length pcs" and "worker_step srv (pcs ! i) = Inr (srv', pc')"
  shows "can_be srv0 n srv' (pcs[i := pc'])"
proof (rule can_be_next [OF assms(1)])
  fix h
  show "\<exists>h'. pool_step \<lparr>pool_srv = srv, pool_pcs = pcs, pool_hist = h\<rparr>
      \<lparr>pool_srv = srv', pool_pcs = pcs[i := pc'], pool_hist = h'\<rparr>"
    using pool_step.work [of i "\<lparr>pool_srv = srv, pool_pcs = pcs, pool_hist = h\<rparr>" srv' pc'] assms(2,3)
    by auto
qed

lemma can_be_arrive:
  assumes "can_be srv0 n srv pcs" and "i < length pcs" and "pcs ! i = Req_done q"
  shows "can_be srv0 n srv (pcs[i := Req_start t p])"
proof (rule can_be_next [OF assms(1)])
  fix h
  show "\<exists>h'. pool_step \<lparr>pool_srv = srv, pool_pcs = pcs, pool_hist = h\<rparr>
      \<lparr>pool_srv = srv, pool_pcs = pcs[i := Req_start t p], pool_hist = h'\<rparr>"
    using pool_step.arrive [of i "\<lparr>pool_srv = srv, pool_pcs = pcs, pool_hist = h\<rparr>" q t p] assms(2,3)
    by auto
qed

lemma stat_answer_torn:
  "\<exists>p. can_be (new_server :: unit server) 2
      (new_server\<lparr>srv_stats := incrGetReqFail (incrGetReq new_stats)\<rparr>)
      [Req_done p, Req_done (empty_payload\<lparr>pb_reason := Some ''NOT_FOUND''\<rparr>)] \<and>
    pb_stats p = Some \<lparr> numgetreq = Some 0, numsuccgetreq = Some 0, numfailgetreq = Some 1 \<rparr>"
proof -
  let ?e = empty_payload and ?n = "new_server :: unit server"
  let ?c1 = "?n\<lparr>srv_stats := incrGetReq new_stats\<rparr>"
  let ?c2 = "?n\<lparr>srv_stats := incrGetReqFail (incrGetReq new_stats)\<rparr>"
  let ?a = "?e\<lparr>pb_reason := Some ''NOT_FOUND''\<rparr>"
  let ?q = "?e\<lparr>pb_stats := Some \<lparr> numgetreq = Some 0, numsuccgetreq = None, numfailgetreq = None \<rparr>\<rparr>"
  let ?r = "?e\<lparr>pb_stats := Some \<lparr> numgetreq = Some 0, numsuccgetreq = Some 0, numfailgetreq = None \<rparr>\<rparr>"
  let ?t = "?e\<lparr>pb_stats := Some \<lparr> numgetreq = Some 0, numsuccgetreq = Some 0, numfailgetreq = Some 1 \<rparr>\<rparr>"
  note defs = with_stats_def mutable_stats_def empty_stat_def empty_payload_def new_server_def stats_defs
  have "can_be ?n 2 ?n [Req_done ?e, Req_done ?e]"
    by (auto simp: can_be_def pool_start_def numeral_2_eq_2 intro!: exI pool_refl)
  from can_be_arrive [OF this, of 0 ?e STAT ?e]
  have "can_be ?n 2 ?n [Req_start STAT ?e, Req_done ?e]" by simp
  from can_be_work [OF this, of 0 ?n "Stat_second ?q"]
  have "can_be ?n 2 ?n [Stat_second ?q, Req_done ?e]" by (simp add: defs)
  from can_be_arrive [OF this, of 1 ?e GET ?e]
  have "can_be ?n 2 ?n [Stat_second ?q, Req_start GET ?e]" by simp
  from can_be_work [OF this, of 1 ?c1 "Get_counted ?e"]
  have "can_be ?n 2 ?c1 [Stat_second ?q, Get_counted ?e]" by (simp add: new_server_def)
  from can_be_work [OF this, of 1 ?c1 "Get_result ?e False ''NOT_FOUND''"]
  have "can_be ?n 2 ?c1 [Stat_second ?q, Get_result ?e False ''NOT_FOUND'']"
    by (simp add: dict_get_def new_server_def new_dictionary_def)
  from can_be_work [OF this, of 1 ?c2 "Req_done ?a"]
  have "can_be ?n 2 ?c2 [Stat_second ?q, Req_done ?a]" by (simp add: get_step_def)
  from can_be_work [OF this, of 0 ?c2 "Stat_third ?r"]
  have "can_be ?n 2 ?c2 [Stat_third ?r, Req_done ?a]" by (simp add: defs)
  from can_be_work [OF this, of 0 ?c2 "Req_done ?t"]
  have "can_be ?n 2 ?c2 [Req_done ?t, Req_done ?a]" by (simp add: defs)
  then show ?thesis by (intro exI [of _ ?t]) simp
qed

end
