(* ===== verification/EventImpl.thy ===== *)
theory EventImpl
  imports Prelude
begin

text \<open>
  \<open>EventImpl\<close> (\<open>util/src/EventImpl.cpp\<close>, \<open>util/include/EventImpl.h\<close>), the only user of libevent. The
  library is not part of the repository: its calls are the values of \<open>ev_call\<close>, its results are
  arguments (\<open>event_base_new\<close>, \<open>evsignal_new\<close>), and the only thing used of it is that it calls back
  the events that have been added and not been freed, which \<open>armed\<close> records for signal events.
  Events, bases, callbacks and heap blocks are named by numbers.
\<close>

datatype ev_flag = Flag_read | Flag_persist

datatype ev_call =
    Event_base_free nat
  | Event_base_dispatch "nat option"
  | Event_assign nat "nat option" fd "ev_flag list" nat "nat option"
  | Event_add nat "(nat \<times> nat) option"
  | Event_del nat
  | Event_base_loopexit "nat option" "nat \<times> nat"
  | Event_free nat
  | Callback nat int "nat option"

text \<open>\<open>struct _context\<close>, what a signal handler is called with.\<close>

record sig_context =
  ctx_cbk :: "nat option"
  ctx_cookie :: "nat option"
  ctx_event :: "nat option"

definition new_context :: sig_context where
  "new_context = \<lparr> ctx_cbk = None, ctx_cookie = None, ctx_event = None \<rparr>"

definition context_destroy :: "sig_context \<Rightarrow> ev_call list" where
  "context_destroy c = (case ctx_event c of None \<Rightarrow> [] | Some e \<Rightarrow> [Event_free e])"

record event_impl =
  m_pevbase :: "nat option"
  contexts :: "nat \<rightharpoonup> sig_context"
  armed :: "nat \<rightharpoonup> int \<times> nat"

definition new_event_impl :: event_impl where
  "new_event_impl = \<lparr> m_pevbase = None, contexts = Map.empty, armed = Map.empty \<rparr>"

definition event_impl_destroy :: "event_impl \<Rightarrow> ev_call list" where
  "event_impl_destroy E = (case m_pevbase E of None \<Rightarrow> [] | Some b \<Rightarrow> [Event_base_free b])"

definition initEv :: "nat option \<Rightarrow> event_impl \<Rightarrow> bool \<times> event_impl" where
  "initEv base_new E = (let E' = E\<lparr>m_pevbase := base_new\<rparr> in (m_pevbase E' \<noteq> None, E'))"

definition dispatchEvloop :: "event_impl \<Rightarrow> ev_call list" where
  "dispatchEvloop E = [Event_base_dispatch (m_pevbase E)]"

definition attachFdtoEv :: "event_impl \<Rightarrow> nat \<Rightarrow> fd \<Rightarrow> nat \<Rightarrow> nat option \<Rightarrow> ev_call list" where
  "attachFdtoEv E ev d cb cookie = [Event_assign ev (m_pevbase E) d [Flag_read, Flag_persist] cb cookie]"

definition addToEv :: "nat \<Rightarrow> ev_call list" where
  "addToEv ev = [Event_add ev None]"

definition addToEv_interval :: "nat \<Rightarrow> nat \<times> nat \<Rightarrow> ev_call list" where
  "addToEv_interval ev t_intvl = [Event_add ev (Some t_intvl)]"

definition removeFromEv :: "nat \<Rightarrow> ev_call list" where
  "removeFromEv ev = [Event_del ev]"

definition exitLoop :: "event_impl \<Rightarrow> ev_call list" where
  "exitLoop E = [Event_base_loopexit (m_pevbase E) (2, 0)]"

text \<open>\<open>addSignal\<close>: \<open>c\<close> is the block that \<open>new\<close> returns, \<open>signal_new\<close> what \<open>evsignal_new\<close> does.\<close>

definition addSignal ::
    "(nat option \<Rightarrow> int \<Rightarrow> nat \<Rightarrow> nat option) \<Rightarrow> nat \<Rightarrow> event_impl \<Rightarrow> int \<Rightarrow> nat option \<Rightarrow> nat option \<Rightarrow>
     bool \<times> event_impl \<times> ev_call list" where
  "addSignal signal_new c E signum cbk cookie =
     (let ctx = new_context\<lparr>ctx_cbk := cbk, ctx_cookie := cookie,
                  ctx_event := signal_new (m_pevbase E) signum c\<rparr>;
          E1 = E\<lparr>contexts := (contexts E)(c \<mapsto> ctx)\<rparr>
      in case ctx_event ctx of
           Some e \<Rightarrow> (True, E1\<lparr>armed := (armed E1)(e \<mapsto> (signum, c))\<rparr>, [Event_add e None])
         | None \<Rightarrow> (False, E1, []))"

text \<open>\<open>delete ctx\<close> ends the context, and with it the event, which libevent then forgets.\<close>

definition delete_context :: "event_impl \<Rightarrow> nat \<Rightarrow> sig_context \<Rightarrow> event_impl" where
  "delete_context E c ctx =
     E\<lparr>contexts := (contexts E)(c := None),
       armed := (case ctx_event ctx of None \<Rightarrow> armed E | Some e \<Rightarrow> (armed E)(e := None))\<rparr>"

definition signalCbk :: "event_impl \<Rightarrow> int \<Rightarrow> nat option \<Rightarrow> (event_impl \<times> ev_call list) res" where
  "signalCbk E events user_data =
     (case user_data of
        None \<Rightarrow> Inr (E, [])
      | Some c \<Rightarrow>
          (case contexts E c of
             None \<Rightarrow> Inl Use_after_free
           | Some ctx \<Rightarrow>
               (case ctx_cbk ctx of
                  None \<Rightarrow> Inr (E, [])
                | Some f \<Rightarrow> Inr (delete_context E c ctx,
                    Callback f events (ctx_cookie ctx) # context_destroy ctx))))"

section \<open>Signals over the life of the object\<close>

text \<open>\<open>new\<close> returns a block that is not in use, \<open>evsignal_new\<close> an event that is not in use.\<close>

inductive sig_step :: "event_impl \<Rightarrow> event_impl \<Rightarrow> bool" where
  sig_add: "contexts E c = None \<Longrightarrow>
    (\<forall>e b. signal_new (m_pevbase E) signum c = Some e \<longrightarrow> Option.bind (contexts E b) ctx_event \<noteq> Some e) \<Longrightarrow>
    addSignal signal_new c E signum cbk cookie = (ok, E', calls) \<Longrightarrow> sig_step E E'"
| sig_deliver: "armed E e = Some (signum, c) \<Longrightarrow> signalCbk E events (Some c) = Inr (E', calls) \<Longrightarrow>
    sig_step E E'"

inductive sig_reachable :: "event_impl \<Rightarrow> bool" where
  sig_init: "sig_reachable (snd (initEv b new_event_impl))"
| sig_next: "sig_reachable E \<Longrightarrow> sig_step E E' \<Longrightarrow> sig_reachable E'"

text \<open>Every armed event belongs to the live context that it will be called with, and no other.\<close>

definition handler_of :: "event_impl \<Rightarrow> nat \<Rightarrow> nat option" where
  "handler_of E e = map_option snd (armed E e)"

definition event_of :: "event_impl \<Rightarrow> nat \<Rightarrow> nat option" where
  "event_of E c = Option.bind (contexts E c) ctx_event"

definition signals_ok :: "event_impl \<Rightarrow> bool" where
  "signals_ok E \<longleftrightarrow> (\<forall>e c. handler_of E e = Some c \<longleftrightarrow> event_of E c = Some e)"

lemma signals_ok_init: "signals_ok (snd (initEv b new_event_impl))"
  by (simp add: signals_ok_def handler_of_def event_of_def initEv_def new_event_impl_def)

lemma addSignal_ok:
  assumes "signals_ok E" and "contexts E c = None"
    and new: "\<And>e b. signal_new (m_pevbase E) signum c = Some e \<Longrightarrow> event_of E b \<noteq> Some e"
    and add: "addSignal signal_new c E signum cbk cookie = (ok, E', calls)"
  shows "signals_ok E'"
proof (cases "signal_new (m_pevbase E) signum c")
  case None
  with add have "handler_of E' = handler_of E" "event_of E' = (event_of E)(c := None)"
    by (auto simp: addSignal_def new_context_def Let_def handler_of_def event_of_def fun_eq_iff)
  moreover have "event_of E c = None" using assms(2) by (simp add: event_of_def)
  ultimately show ?thesis using assms(1) by (simp add: signals_ok_def)
next
  case (Some e)
  with add have "handler_of E' = (handler_of E)(e \<mapsto> c)" "event_of E' = (event_of E)(c \<mapsto> e)"
    by (auto simp: addSignal_def new_context_def Let_def handler_of_def event_of_def fun_eq_iff)
  moreover have "event_of E c = None" using assms(2) by (simp add: event_of_def)
  moreover have "event_of E b \<noteq> Some e" for b by (rule new [OF Some])
  ultimately show ?thesis using assms(1) by (auto simp: signals_ok_def)
qed

lemma delete_context_ok:
  assumes "signals_ok E" and "contexts E c = Some ctx"
  shows "signals_ok (delete_context E c ctx)"
proof -
  have "event_of E c = ctx_event ctx" using assms(2) by (simp add: event_of_def)
  moreover have "event_of (delete_context E c ctx) = (event_of E)(c := None)"
    by (auto simp: event_of_def delete_context_def fun_eq_iff)
  moreover have "handler_of (delete_context E c ctx) =
      (case ctx_event ctx of None \<Rightarrow> handler_of E | Some e \<Rightarrow> (handler_of E)(e := None))"
    by (auto simp: handler_of_def delete_context_def fun_eq_iff split: option.splits)
  ultimately show ?thesis
    using assms(1) by (auto simp: signals_ok_def split: option.splits) (metis option.inject)
qed

lemma signalCbk_ok:
  "signals_ok E \<Longrightarrow> signalCbk E events d = Inr (E', calls) \<Longrightarrow> signals_ok E'"
  by (auto simp: signalCbk_def delete_context_ok split: option.splits)

lemma sig_reachable_ok: "sig_reachable E \<Longrightarrow> signals_ok E"
proof (induction rule: sig_reachable.induct)
  case (sig_init b)
  show ?case by (rule signals_ok_init)
next
  case (sig_next E E')
  from sig_next.hyps(2) show ?case
  proof (cases rule: sig_step.cases)
    case (sig_add c signal_new signum cbk cookie ok calls)
    then show ?thesis by (intro addSignal_ok [OF sig_next.IH]) (auto simp: event_of_def)
  next
    case (sig_deliver e signum c events calls)
    then show ?thesis using signalCbk_ok [OF sig_next.IH] by blast
  qed
qed

text \<open>A signal that arrives for a registered handler finds the handler's context alive in every
  reachable state, so nothing is used after it has been freed; its callback is called once with its
  cookie, and then the context and the event are gone, so the next signal is not handled.\<close>

theorem signal_handled_once:
  assumes "sig_reachable E" and "armed E e = Some (signum, c)"
  shows "\<exists>ctx. contexts E c = Some ctx \<and> ctx_event ctx = Some e \<and>
    (case ctx_cbk ctx of
       None \<Rightarrow> signalCbk E events (Some c) = Inr (E, [])
     | Some f \<Rightarrow> (\<exists>E'. signalCbk E events (Some c) = Inr (E', [Callback f events (ctx_cookie ctx), Event_free e]) \<and>
         sig_reachable E' \<and> armed E' e = None \<and> contexts E' c = None \<and>
         signalCbk E' events (Some c) = Inl Use_after_free))"
proof -
  have "handler_of E e = Some c" using assms(2) by (simp add: handler_of_def)
  with sig_reachable_ok [OF assms(1)] have "event_of E c = Some e" by (simp add: signals_ok_def)
  then obtain ctx where ctx: "contexts E c = Some ctx" "ctx_event ctx = Some e"
    by (auto simp: event_of_def split: Option.bind_splits)
  show ?thesis
  proof (cases "ctx_cbk ctx")
    case None
    with ctx show ?thesis by (simp add: signalCbk_def)
  next
    case (Some f)
    let ?E = "delete_context E c ctx"
    have call: "signalCbk E events (Some c) = Inr (?E, [Callback f events (ctx_cookie ctx), Event_free e])"
      using ctx Some by (simp add: signalCbk_def context_destroy_def)
    moreover have "sig_reachable ?E"
      using sig_deliver [OF assms(2) call] assms(1) by (rule sig_next [rotated])
    moreover have "armed ?E e = None" "contexts ?E c = None"
      using ctx by (simp_all add: delete_context_def)
    ultimately show ?thesis using ctx Some by (simp add: signalCbk_def)
  qed
qed

definition sample_signal :: event_impl where
  "sample_signal = fst (snd (addSignal (\<lambda>_ _ _. Some 7) 4 (snd (initEv (Some 1) new_event_impl)) 2 (Some 9) None))"

lemma sample_signal_reachable: "sig_reachable sample_signal"
proof -
  let ?E = "snd (initEv (Some 1) new_event_impl)"
  have "sig_step ?E sample_signal"
    by (rule sig_add [of ?E 4 "\<lambda>_ _ _. Some 7" 2 "Some 9" None])
       (auto simp: sample_signal_def initEv_def new_event_impl_def addSignal_def Let_def new_context_def)
  then show ?thesis by (rule sig_next [OF sig_init])
qed

theorem signal_handled_once_witness:
  "\<exists>E'. signalCbk sample_signal 8 (Some 4) = Inr (E', [Callback 9 8 None, Event_free 7]) \<and> armed E' 7 = None"
proof -
  have "armed sample_signal 7 = Some (2, 4)"
    by (simp add: sample_signal_def addSignal_def new_context_def Let_def)
  from signal_handled_once [OF sample_signal_reachable this, of 8] show ?thesis
    by (auto simp: sample_signal_def addSignal_def new_context_def Let_def)
qed

text \<open>A refused registration leaves its context behind: no event refers to it.\<close>

lemma failed_registration_leaks:
  assumes "signal_new (m_pevbase E) signum c = None"
  shows "\<exists>E' ctx. addSignal signal_new c E signum cbk cookie = (False, E', []) \<and>
    contexts E' c = Some ctx \<and> ctx_event ctx = None \<and> armed E' = armed E"
  using assms by (simp add: addSignal_def new_context_def Let_def)

end
