(* ===== verification/Helper.thy ===== *)
theory Helper
  imports Prelude
begin

text \<open>
  The functions of the namespace \<open>Helper\<close> (\<open>util/include/Helper.h\<close>): trimming of strings, and the call
  that makes a descriptor non-blocking.
\<close>

section \<open>Trimming\<close>

definition WHITESPACE :: string where
  "WHITESPACE = [CHR '' '', CHR 0x0A, CHR 0x0D, CHR 0x09, CHR 0x0C, CHR 0x0B]"

text \<open>\<open>find_first_not_of\<close> and \<open>find_last_not_of\<close> of a string; \<open>None\<close> is \<open>npos\<close>.\<close>

definition find_first_not_of :: "string \<Rightarrow> string \<Rightarrow> nat option" where
  "find_first_not_of cs s =
     (let n = length (takeWhile (\<lambda>c. c \<in> set cs) s) in if n = length s then None else Some n)"

definition find_last_not_of :: "string \<Rightarrow> string \<Rightarrow> nat option" where
  "find_last_not_of cs s =
     (let n = length (takeWhile (\<lambda>c. c \<in> set cs) (rev s)) in
      if n = length s then None else Some (length s - 1 - n))"

definition ltrim :: "string \<Rightarrow> string" where
  "ltrim s = (case find_first_not_of WHITESPACE s of None \<Rightarrow> [] | Some i \<Rightarrow> drop i s)"

definition rtrim :: "string \<Rightarrow> string" where
  "rtrim s = (case find_last_not_of WHITESPACE s of None \<Rightarrow> [] | Some i \<Rightarrow> take (i + 1) s)"

definition trim :: "string \<Rightarrow> string" where
  "trim s = rtrim (ltrim s)"

abbreviation blank :: "char \<Rightarrow> bool" where
  "blank c \<equiv> c \<in> set WHITESPACE"

lemma ltrim_dropWhile: "ltrim s = dropWhile blank s"
proof -
  have "takeWhile blank s @ dropWhile blank s = s" by simp
  then show ?thesis
    by (cases "length (takeWhile blank s) = length s")
      (auto simp: ltrim_def find_first_not_of_def Let_def dropWhile_eq_drop
        dest: arg_cong [where f = length])
qed

lemma rtrim_dropWhile: "rtrim s = rev (dropWhile blank (rev s))"
proof -
  let ?n = "length (takeWhile blank (rev s))"
  have le: "?n \<le> length s" using length_takeWhile_le [of blank "rev s"] by simp
  have "rev (dropWhile blank (rev s)) = rev (drop ?n (rev s))"
    by (simp add: dropWhile_eq_drop)
  also have "\<dots> = take (length s - ?n) s" by (simp add: rev_drop)
  finally have eq: "rev (dropWhile blank (rev s)) = take (length s - ?n) s" .
  show ?thesis
  proof (cases "?n = length s")
    case True
    then show ?thesis by (simp add: rtrim_def find_last_not_of_def Let_def eq)
  next
    case False
    with le have "length s - 1 - ?n + 1 = length s - ?n" by linarith
    with False show ?thesis by (simp add: rtrim_def find_last_not_of_def Let_def eq)
  qed
qed

lemma trim_dropWhile: "trim s = rev (dropWhile blank (rev (dropWhile blank s)))"
  by (simp add: trim_def ltrim_dropWhile rtrim_dropWhile)

lemma trim_id:
  assumes "s \<noteq> []" and "\<not> blank (hd s)" and "\<not> blank (last s)"
  shows "trim s = s"
proof -
  have "dropWhile blank s = s" using assms by (cases s) simp_all
  moreover have "dropWhile blank (rev s) = rev s" using assms by (cases s rule: rev_cases) simp_all
  ultimately show ?thesis by (simp add: trim_dropWhile)
qed

lemma trim_parts:
  "\<exists>l r. s = l @ trim s @ r \<and> (\<forall>c \<in> set l \<union> set r. blank c) \<and>
    (trim s = [] \<or> (\<not> blank (hd (trim s)) \<and> \<not> blank (last (trim s))))"
proof -
  define t where "t = dropWhile blank s"
  define u where "u = dropWhile blank (rev t)"
  have s: "s = takeWhile blank s @ t" by (simp add: t_def)
  have "rev t = takeWhile blank (rev t) @ u" by (simp add: u_def)
  then have t: "t = rev u @ rev (takeWhile blank (rev t))" by (metis rev_append rev_rev_ident)
  have tr: "trim s = rev u" by (simp add: trim_dropWhile t_def u_def)
  have "\<not> blank (hd u)" if "u \<noteq> []" using that hd_dropWhile unfolding u_def by blast
  moreover have "\<not> blank (hd t)" if "t \<noteq> []" using that hd_dropWhile unfolding t_def by blast
  moreover have "hd t = hd (rev u)" if "u \<noteq> []" using that by (subst t) simp
  moreover have "t \<noteq> []" if "u \<noteq> []" using that by (subst t) simp
  ultimately have "u = [] \<or> (\<not> blank (hd (rev u)) \<and> \<not> blank (last (rev u)))"
    by (auto simp: last_rev)
  moreover have "s = takeWhile blank s @ rev u @ rev (takeWhile blank (rev t))"
    using s t by simp
  moreover have "\<forall>c \<in> set (takeWhile blank s) \<union> set (rev (takeWhile blank (rev t))). blank c"
    by (auto dest: set_takeWhileD)
  ultimately show ?thesis unfolding tr by (metis rev_is_Nil_conv)
qed

section \<open>Non-blocking descriptors\<close>

definition O_NONBLOCK :: u32 where
  "O_NONBLOCK = 2048"

text \<open>
  \<open>getfl\<close> is the result of \<open>F_GETFL\<close>, \<open>setfl\<close> that of \<open>F_SETFL\<close>; besides the returned value the flags
  passed to \<open>F_SETFL\<close> are given.
\<close>

definition setnonblock :: "int \<Rightarrow> (u32 \<Rightarrow> int) \<Rightarrow> int \<times> u32 option" where
  "setnonblock getfl setfl =
     (if getfl < 0 then (getfl, None)
      else let flags = word_of_int getfl OR O_NONBLOCK in
        if setfl flags < 0 then (-1, Some flags) else (0, Some flags))"

lemma setnonblock_success:
  "fst (setnonblock getfl setfl) \<ge> 0 \<longleftrightarrow> getfl \<ge> 0 \<and> setfl (word_of_int getfl OR O_NONBLOCK) \<ge> 0"
  by (auto simp: setnonblock_def Let_def)

section \<open>Properties\<close>

text \<open>Trimming removes white space at both ends and nothing else: what is left is a middle part of
  the string, it neither begins nor ends with white space, and trimming it again changes nothing.\<close>

theorem trim_correct:
  "(\<exists>l r. s = l @ trim s @ r \<and> (\<forall>c \<in> set l \<union> set r. blank c)) \<and>
    (trim s = [] \<or> (\<not> blank (hd (trim s)) \<and> \<not> blank (last (trim s)))) \<and> trim (trim s) = trim s"
proof -
  have "trim (trim s) = trim s"
  proof (cases "trim s = []")
    case True
    then show ?thesis by (simp add: trim_dropWhile [of "[]"])
  next
    case False
    then show ?thesis using trim_parts [of s] by (intro trim_id) auto
  qed
  then show ?thesis using trim_parts [of s] by blast
qed

theorem trim_correct_witness: "trim (''  key'' @ [CHR 0x0A]) = ''key'' \<and> trim (trim ''  key '') = trim ''  key ''"
  using trim_correct [of "''  key ''"] by (simp add: trim_dropWhile WHITESPACE_def)

end
