(* ===== verification/Options.thy ===== *)
theory Options
  imports Helper
begin

text \<open>
  Command line options, as the \<open>main\<close> functions of the server and of the client see them: the results of
  \<open>getopt_long\<close> and the conversion of their arguments by \<open>atoi\<close>.
\<close>

text \<open>What \<open>getopt_long\<close> returns: the letter of an option and its argument.\<close>

datatype option_result = Opt char string

text \<open>\<open>atoi\<close> of a decimal number; the value must fit an \<open>int\<close>.\<close>

definition is_digit :: "char \<Rightarrow> bool" where
  "is_digit c \<longleftrightarrow> 48 \<le> (of_char c :: nat) \<and> (of_char c :: nat) \<le> 57"

definition digits_value :: "string \<Rightarrow> nat" where
  "digits_value s = foldl (\<lambda>v c. 10 * v + (of_char c - 48)) 0 (takeWhile is_digit s)"

definition fits_int :: "int \<Rightarrow> int res" where
  "fits_int i = (if - (2 ^ 31) \<le> i \<and> i < 2 ^ 31 then Inr i else Inl Bad_conversion)"

definition atoi :: "string \<Rightarrow> int res" where
  "atoi s =
     (case dropWhile blank s of
        [] \<Rightarrow> Inr 0
      | c # s' \<Rightarrow>
          if c = CHR ''-'' then fits_int (- int (digits_value s'))
          else if c = CHR ''+'' then fits_int (int (digits_value s'))
          else fits_int (int (digits_value (c # s'))))"

end
