(* ===== verification/Listener.thy ===== *)
theory Listener
  imports WorkerManager Helper
begin

text \<open>
  The class \<open>Listener\<close> (\<open>server/src/Listener.cpp\<close>): a service thread whose event is the listening
  socket. What the kernel returns is the record \<open>listen_env\<close>; the callback that gets an accepted descriptor is an
  argument.
\<close>

section \<open>State and operations\<close>

text \<open>\<open>notif_event\<close> is the descriptor that \<open>m_notifEvent\<close> is registered for.\<close>

record listener =
  ip_addr :: string
  port :: u16
  file_descriptor :: fd
  notif_event :: "fd option"
  listener_closed :: "fd list"

definition new_listener :: "string \<Rightarrow> u16 \<Rightarrow> listener" where
  "new_listener ip p =
     \<lparr> ip_addr = ip, port = p, file_descriptor = -1, notif_event = None, listener_closed = [] \<rparr>"

record listen_env =
  l_socket :: fd
  l_setsockopt :: int
  l_bind :: "string \<Rightarrow> u16 \<Rightarrow> int"
  l_listen :: int
  l_getfl :: int
  l_setfl :: "u32 \<Rightarrow> int"

definition prepareTcpSvr :: "listen_env \<Rightarrow> listener \<Rightarrow> int \<times> listener" where
  "prepareTcpSvr env l =
     (let l1 = l\<lparr>file_descriptor := l_socket env\<rparr> in
      if file_descriptor l1 < 0 then (-1, l1)
      else if l_setsockopt env = -1 then (-1, l1)
      else if l_bind env (ip_addr l1) (port l1) < 0 then (-1, l1)
      else if l_listen env < 0 then (-1, l1)
      else if fst (setnonblock (l_getfl env) (l_setfl env)) < 0 then (-1, l1)
      else (0, l1))"

text \<open>\<open>initApp\<close>: \<open>None\<close> is the exception it throws.\<close>

definition listener_initApp :: "listen_env \<Rightarrow> listener \<Rightarrow> listener option" where
  "listener_initApp env l =
     (case prepareTcpSvr env l of (r, l1) \<Rightarrow>
        if r \<noteq> 0 then None else Some (l1\<lparr>notif_event := Some (file_descriptor l1)\<rparr>))"

text \<open>An accept: the result of \<open>accept\<close>, and of the two calls of \<open>setnonblock\<close> on the new descriptor.\<close>

record accept_env =
  a_accept :: fd
  a_getfl :: int
  a_setfl :: "u32 \<Rightarrow> int"

definition onAccept :: "(fd \<Rightarrow> 'm \<Rightarrow> 'm res) \<Rightarrow> event_kind \<Rightarrow> accept_env \<Rightarrow> 'm \<Rightarrow> 'm res" where
  "onAccept callback ev env m =
     (if ev \<noteq> EV_READ then Inr m
      else
        (let client_fd = a_accept env in
         if client_fd = -1 then Inr m
         else if fst (setnonblock (a_getfl env) (a_setfl env)) < 0 then Inr m
         else callback client_fd m))"

definition listener_cleanState :: "listener \<Rightarrow> listener" where
  "listener_cleanState l =
     l\<lparr>notif_event := None, listener_closed := listener_closed l @ [file_descriptor l]\<rparr>"

text \<open>The accepts of a listener one after the other.\<close>

fun accept_all :: "(fd \<Rightarrow> 'm \<Rightarrow> 'm res) \<Rightarrow> accept_env list \<Rightarrow> 'm \<Rightarrow> 'm res" where
  "accept_all callback [] m = Inr m"
| "accept_all callback (env # envs) m =
     rbind (onAccept callback EV_READ env m) (accept_all callback envs)"

section \<open>Lemmas\<close>

definition env_good :: "listen_env \<Rightarrow> listener \<Rightarrow> bool" where
  "env_good env l \<longleftrightarrow> 0 \<le> l_socket env \<and> l_setsockopt env \<noteq> -1 \<and> 0 \<le> l_bind env (ip_addr l) (port l) \<and>
     0 \<le> l_listen env \<and> 0 \<le> l_getfl env \<and> 0 \<le> l_setfl env (word_of_int (l_getfl env) OR O_NONBLOCK)"

lemma prepareTcpSvr_result:
  "prepareTcpSvr env l = (if env_good env l then 0 else -1, l\<lparr>file_descriptor := l_socket env\<rparr>)"
  using setnonblock_success [of "l_getfl env" "l_setfl env"]
  by (auto simp: prepareTcpSvr_def env_good_def Let_def)

lemma listener_initApp_result:
  "listener_initApp env l = (if env_good env l
     then Some (l\<lparr>file_descriptor := l_socket env, notif_event := Some (l_socket env)\<rparr>) else None)"
  by (simp add: listener_initApp_def prepareTcpSvr_result)

definition accepted :: "accept_env list \<Rightarrow> fd list" where
  "accepted envs = map a_accept (filter (\<lambda>e. a_accept e \<noteq> -1 \<and>
     0 \<le> a_getfl e \<and> 0 \<le> a_setfl e (word_of_int (a_getfl e) OR O_NONBLOCK)) envs)"

lemma accept_all_dispatch:
  "accept_all (dispatchFd True) envs m = dispatch_all (accepted envs) m"
proof (induction envs arbitrary: m)
  case Nil
  then show ?case by (simp add: accepted_def)
next
  case (Cons e envs)
  show ?case
    using setnonblock_success [of "a_getfl e" "a_setfl e"] Cons.IH
    by (cases "dispatchFd True (a_accept e) m") (auto simp: onAccept_def accepted_def Let_def not_le)
qed

section \<open>Properties\<close>

text \<open>The listener starts exactly when every system call succeeds, and then listens on the new socket
  with the given address; when one fails, the exception leaves the thread function, which ends the process, and
  the socket is not closed.\<close>

theorem listener_start:
  "run_start True True True (listener_initApp env) t =
    (if env_good env (derived t)
     then Run_looping (t\<lparr>derived := (derived t)\<lparr>file_descriptor := l_socket env, notif_event := Some (l_socket env)\<rparr>\<rparr>)
     else Process_terminated) \<and>
   listener_closed (snd (prepareTcpSvr env l)) = listener_closed l"
  by (simp add: run_start_def listener_initApp_result prepareTcpSvr_result)

text \<open>The connections that are accepted and made non-blocking, and only those, are dealt to the workers
  in the order of the accepts; the \<open>k\<close>-th of them goes to the worker that follows the last one by \<open>k\<close>.\<close>

theorem accepted_connections_dealt:
  assumes "pool_ok wm" and "dist_type wm = ROUND_ROBIN" and "j < length (workers wm)"
  shows "\<exists>wm'. accept_all (dispatchFd True) envs wm = Inr wm' \<and>
    fd_queue (workers wm' ! j) = fd_queue (workers wm ! j) @
      map snd (filter (\<lambda>(k, _). (unat (rr_index wm) + k) mod length (workers wm) = j) (enumerate 1 (accepted envs)))"
proof -
  obtain wm' where "dispatch_all (accepted envs) wm = Inr wm'"
      "workers wm' = sink.deal (unat (rr_index wm)) (accepted envs) (workers wm)"
    using dispatch_all_deal [OF assms(1,2)] by blast
  with sink.deal_backlog [OF assms(3), of "unat (rr_index wm)" "accepted envs"] show ?thesis
    by (simp add: accept_all_dispatch sink.share_def)
qed

definition sample_accept :: "fd \<Rightarrow> accept_env" where
  "sample_accept fd = \<lparr>a_accept = fd, a_getfl = 2, a_setfl = (\<lambda>flags. if flags = 2050 then 0 else -1)\<rparr>"

theorem accepted_connections_dealt_witness:
  "\<exists>wm'. accept_all (dispatchFd True) [sample_accept 10, sample_accept (-1), sample_accept 11]
      (initWorkers () (new_worker_manager 1 ROUND_ROBIN)) = Inr wm' \<and> fd_queue (workers wm' ! 0) = [10, 11]"
proof -
  let ?wm = "initWorkers () (new_worker_manager 1 ROUND_ROBIN)"
  have "pool_ok ?wm" by (rule initWorkers_pool_ok) (simp_all add: int_max_def)
  moreover have w: "workers ?wm = [new_service_thread ()]" "rr_index ?wm = 0" "dist_type ?wm = ROUND_ROBIN"
    by (simp_all add: initWorkers_def new_worker_manager_def)
  moreover have "accepted [sample_accept 10, sample_accept (-1), sample_accept 11] = [10, 11]"
    by (simp add: accepted_def sample_accept_def O_NONBLOCK_def) 
  ultimately show ?thesis
    using accepted_connections_dealt [of ?wm 0 "[sample_accept 10, sample_accept (-1), sample_accept 11]"]
    by (simp add: new_service_thread_def del: accept_all.simps)
qed

end
