(* ===== verification/TcpServer.thy ===== *)
theory TcpServer
  imports Listener Options
begin

text \<open>
  The class \<open>TcpServer\<close> (\<open>server/src/TcpServer.cpp\<close>), which ties the listener, the workers and the
  dictionary together, and the \<open>main\<close> function of the server (\<open>server/src/main.cpp\<close>) with its options and its
  signal handler.
\<close>

section \<open>The server\<close>

record tcp_server =
  m_numWorker :: u16
  m_ipAddr :: string
  m_port :: u16
  m_bloomFilterEnable :: bool
  event_dispatcher :: "worker worker_manager option"
  tcp_listener :: "listener service_thread option"

definition new_tcp_server :: "u16 \<Rightarrow> string \<Rightarrow> u16 \<Rightarrow> bool \<Rightarrow> tcp_server" where
  "new_tcp_server num_workers ip p b_enable =
     \<lparr> m_numWorker = num_workers, m_ipAddr = ip, m_port = p, m_bloomFilterEnable = b_enable,
       event_dispatcher = None, tcp_listener = None \<rparr>"

definition initWorkerManager :: "tcp_server \<Rightarrow> tcp_server" where
  "initWorkerManager s =
     s\<lparr>event_dispatcher := Some (initWorkers new_worker (new_worker_manager (uint (m_numWorker s)) ROUND_ROBIN))\<rparr>"

text \<open>
  \<open>start\<close>: \<open>thread_ok\<close> says whether the listener's thread can be created; otherwise the exception is
  caught and the dictionary is left as it is. The filter is switched on after the listener has been started.
\<close>

definition server_start ::
  "'d fpu \<Rightarrow> (u32 \<Rightarrow> nat \<Rightarrow> u32) \<Rightarrow> bool \<Rightarrow> tcp_server \<Rightarrow> 'd dictionary \<Rightarrow> (tcp_server \<times> 'd dictionary) res" where
  "server_start F srand thread_ok s d =
     (let s1 = initWorkerManager s;
          s2 = s1\<lparr>tcp_listener := Some (new_service_thread (new_listener (m_ipAddr s1) (m_port s1)))\<rparr>
      in if \<not> thread_ok then Inr (s2, d)
         else rbind (enableBloomFilter F srand d (m_bloomFilterEnable s2)) (\<lambda>d'. Inr (s2, d')))"

definition ServerCallback :: "bool \<Rightarrow> fd \<Rightarrow> tcp_server \<Rightarrow> tcp_server res" where
  "ServerCallback write_ok cfd s =
     (case event_dispatcher s of
        None \<Rightarrow> Inl Null_deref
      | Some wm \<Rightarrow> rbind (dispatchFd write_ok cfd wm) (\<lambda>wm'. Inr (s\<lparr>event_dispatcher := Some wm'\<rparr>)))"

text \<open>
  \<open>shutdown\<close>: the stop requests to the listener and then to the workers, which are dropped from the pool;
  \<open>listener_ok\<close> and \<open>write_ok i\<close> say whether the bytes can be written.
\<close>

definition server_shutdown ::
  "bool \<Rightarrow> (nat \<Rightarrow> bool) \<Rightarrow> tcp_server \<Rightarrow> worker service_thread list \<times> tcp_server" where
  "server_shutdown listener_ok write_ok s =
     (let s1 = (case tcp_listener s of
            None \<Rightarrow> s
          | Some t \<Rightarrow> s\<lparr>tcp_listener := Some (snd (stop_request listener_ok t))\<rparr>)
      in case event_dispatcher s1 of
           None \<Rightarrow> ([], s1)
         | Some wm \<Rightarrow> (case stopWorkers write_ok wm of (stopped, wm') \<Rightarrow>
             (stopped, s1\<lparr>event_dispatcher := Some wm'\<rparr>)))"

section \<open>The main function\<close>

record server_config =
  cfg_host :: string
  cfg_port :: int
  cfg_num_thread :: int
  cfg_bloom :: int

definition empty_config :: server_config where
  "empty_config = \<lparr> cfg_host = [], cfg_port = 0, cfg_num_thread = 0, cfg_bloom = 0 \<rparr>"

text \<open>The loop over the options; \<open>None\<close> is the early return after an unknown one.\<close>

fun option_loop :: "option_result list \<Rightarrow> server_config \<Rightarrow> server_config option res" where
  "option_loop [] cfg = Inr (Some cfg)"
| "option_loop (Opt c arg # os) cfg =
     (if c = CHR ''h'' then option_loop os cfg
      else if c = CHR ''t'' then rbind (atoi arg) (\<lambda>n. option_loop os (cfg\<lparr>cfg_num_thread := n\<rparr>))
      else if c = CHR ''i'' then option_loop os (cfg\<lparr>cfg_host := arg\<rparr>)
      else if c = CHR ''p'' then rbind (atoi arg) (\<lambda>n. option_loop os (cfg\<lparr>cfg_port := n\<rparr>))
      else if c = CHR ''b'' then rbind (atoi arg) (\<lambda>n. option_loop os (cfg\<lparr>cfg_bloom := n\<rparr>))
      else Inr None)"

text \<open>The server that \<open>main\<close> creates; \<open>None\<close> is the return with status 1.\<close>

definition main_server :: "nat \<Rightarrow> option_result list \<Rightarrow> tcp_server option res" where
  "main_server argc opts =
     rbind (option_loop opts empty_config) (\<lambda>r.
       case r of
         None \<Rightarrow> Inr None
       | Some cfg \<Rightarrow>
           if argc < 7 then Inr None
           else Inr (Some (new_tcp_server (word_of_int (cfg_num_thread cfg)) (cfg_host cfg)
             (word_of_int (cfg_port cfg)) (0 < cfg_bloom cfg))))"

definition SIGINT :: int where
  "SIGINT = 2"

definition SIGTERM :: int where
  "SIGTERM = 15"

definition sighandler :: "int \<Rightarrow> int \<Rightarrow> int" where
  "sighandler signo done_flag = (if signo = SIGTERM \<or> signo = SIGINT then 1 else done_flag)"

text \<open>The waiting loop, given the signals that arrive during each second.\<close>

fun wait_loop :: "int list list \<Rightarrow> int \<Rightarrow> nat option" where
  "wait_loop secs done_flag =
     (if done_flag \<noteq> 0 then Some 0
      else case secs of
        [] \<Rightarrow> None
      | sigs # rest \<Rightarrow> map_option Suc (wait_loop rest (fold sighandler sigs done_flag)))"

text \<open>
  The whole \<open>main\<close>: the exit status, and what a shutdown gives. \<open>early\<close> are the signals that arrive during the start
  and the two seconds after it; \<open>serve\<close> is what the other threads make of the server until the shutdown.
\<close>

definition server_main ::
  "'d fpu \<Rightarrow> (u32 \<Rightarrow> nat \<Rightarrow> u32) \<Rightarrow> bool \<Rightarrow> (tcp_server \<Rightarrow> tcp_server) \<Rightarrow> bool \<Rightarrow> (nat \<Rightarrow> bool) \<Rightarrow> nat \<Rightarrow>
   option_result list \<Rightarrow> int list \<Rightarrow> int list list \<Rightarrow> 'd dictionary \<Rightarrow>
   (int \<times> (worker service_thread list \<times> tcp_server) option) res" where
  "server_main F srand thread_ok serve listener_ok write_ok argc opts early secs d =
     rbind (main_server argc opts) (\<lambda>r.
       case r of
         None \<Rightarrow> Inr (1, None)
       | Some s \<Rightarrow> rbind (server_start F srand thread_ok s d) (\<lambda>(s1, d1).
           case wait_loop secs (fold sighandler early 0) of
             None \<Rightarrow> Inl Diverges
           | Some n \<Rightarrow> Inr (0, Some (server_shutdown listener_ok write_ok (serve s1)))))"

section \<open>Lemmas\<close>

text \<open>The waiting loop ends exactly when one of the two signals arrives; other signals are ignored.\<close>

definition stop_signal :: "int \<Rightarrow> bool" where
  "stop_signal signo \<longleftrightarrow> signo = SIGTERM \<or> signo = SIGINT"

lemma fold_sighandler: "fold sighandler sigs f = (if list_ex stop_signal sigs then 1 else f)"
  by (induction sigs arbitrary: f) (auto simp: sighandler_def stop_signal_def)

lemma wait_loop_ends:
  "wait_loop secs 0 = (if list_ex (list_ex stop_signal) secs
     then Some (Suc (length (takeWhile (\<lambda>sigs. \<not> list_ex stop_signal sigs) secs))) else None)"
proof (induction secs)
  case Nil
  show ?case by simp
next
  case (Cons sigs secs)
  have "wait_loop xs 1 = Some 0" for xs by (subst wait_loop.simps) simp
  with Cons.IH show ?case
    by (subst wait_loop.simps) (simp add: fold_sighandler)
qed

lemma server_start_dispatcher:
  assumes "server_start F srand thread_ok s d = Inr (s', d')"
  shows "event_dispatcher s' = Some (initWorkers new_worker (new_worker_manager (uint (m_numWorker s)) ROUND_ROBIN))"
  using assms by (auto simp: server_start_def initWorkerManager_def Let_def split: if_splits)

text \<open>\<open>main\<close> returns 1 for options that it refuses; otherwise it serves until one of the two signals arrives, and then
  shuts the server down and returns 0.\<close>

lemma server_main_refuses:
  "main_server argc opts = Inr None \<Longrightarrow>
    server_main F srand thread_ok serve listener_ok write_ok argc opts early secs d = Inr (1, None)"
  by (simp add: server_main_def del: rbind_Inr_iff)

lemma server_main_runs:
  assumes "main_server argc opts = Inr (Some s)" and "server_start F srand thread_ok s d = Inr (s1, d1)"
  shows "server_main F srand thread_ok serve listener_ok write_ok argc opts early secs d =
    (if list_ex stop_signal early \<or> list_ex (list_ex stop_signal) secs
     then Inr (0, Some (server_shutdown listener_ok write_ok (serve s1))) else Inl Diverges)"
proof -
  have "wait_loop xs 1 = Some 0" for xs by (subst wait_loop.simps) simp
  then show ?thesis
    using assms wait_loop_ends [of secs] by (simp add: server_main_def fold_sighandler del: rbind_Inr_iff rbind_Inl_iff)
qed

lemma initWorkers_none: "initWorkers d (new_worker_manager 0 policy) = new_worker_manager 0 policy"
  by (simp add: initWorkers_def new_worker_manager_def)

section \<open>Properties\<close>

text \<open>C37: the number of threads is cut to 16 bits: a multiple of 65536, like 0, is accepted by \<open>main\<close>, and
  the started server divides by zero when the first client connects.\<close>

theorem zero_workers_fault:
  assumes "main_server argc opts = Inr (Some s)"
    and "option_loop opts empty_config = Inr (Some cfg)" and "cfg_num_thread cfg mod 65536 = 0"
    and "server_start F srand thread_ok s d = Inr (s', d')"
  shows "ServerCallback write_ok fd s' = Inl Div_by_zero"
proof -
  from assms(1,2) have s: "s = new_tcp_server (word_of_int (cfg_num_thread cfg)) (cfg_host cfg)
      (word_of_int (cfg_port cfg)) (0 < cfg_bloom cfg)"
    by (auto simp: main_server_def split: if_splits)
  have "uint (word_of_int (cfg_num_thread cfg) :: u16) = cfg_num_thread cfg mod 65536"
    by (simp add: uint_word_of_int)
  then have "event_dispatcher s' = Some (new_worker_manager 0 ROUND_ROBIN)"
    using server_start_dispatcher [OF assms(4)] assms(3)
    by (simp add: s new_tcp_server_def initWorkers_none)
  then show ?thesis
    by (simp add: ServerCallback_def dispatchFd_def loadbalanceFd_def getWorkerIndex_def new_worker_manager_def
        del: rbind_Inl_iff)
qed

definition sample_options :: "option_result list" where
  "sample_options = [Opt CHR ''t'' ''65536'', Opt CHR ''i'' ''0.0.0.0'', Opt CHR ''p'' ''6000'']"

lemma sample_options_loop:
  "option_loop sample_options empty_config = Inr (Some
    \<lparr>cfg_host = ''0.0.0.0'', cfg_port = 6000, cfg_num_thread = 65536, cfg_bloom = 0\<rparr>)"
proof -
  have "atoi ''65536'' = Inr 65536" "atoi ''6000'' = Inr 6000"
    by (simp_all add: atoi_def digits_value_def is_digit_def fits_int_def WHITESPACE_def of_char_def)
  then show ?thesis by (simp add: sample_options_def empty_config_def del: rbind_Inr_iff)
qed

theorem zero_workers_fault_witness:
  "\<exists>s s' d'. main_server 7 sample_options = Inr (Some s) \<and>
    server_start const_fpu (\<lambda>_ _. 7) True s new_dictionary = Inr (s', d') \<and>
    ServerCallback True 5 s' = Inl Div_by_zero"
proof -
  have m: "main_server 7 sample_options = Inr (Some (new_tcp_server 65536 ''0.0.0.0'' 6000 False))"
    by (simp add: main_server_def sample_options_loop del: rbind_Inr_iff)
  moreover obtain s' d' where s: "server_start const_fpu (\<lambda>_ _. 7) True (new_tcp_server 65536 ''0.0.0.0'' 6000 False)
      (new_dictionary :: real option dictionary) = Inr (s', d')"
    by (simp add: server_start_def initWorkerManager_def enableBloomFilter_def new_tcp_server_def Let_def)
  ultimately show ?thesis
    using zero_workers_fault [OF m sample_options_loop _ s, of True 5] by auto
qed

text \<open>Between the two steps of \<open>enableBloomFilter\<close>, when the flag is set and the filter is not yet
  there, every GET, and every SET that passes the size test, uses a null pointer. The server opens its port before
  it switches the filter on.\<close>

theorem enabling_races_with_requests:
  assumes "bloom d = None" and "\<not> set_is_full d"
  shows "enableBloomFilter F srand d True = initBloomFilters F srand (d\<lparr>bloom_enabled := True\<rparr>) \<and>
    dict_get (d\<lparr>bloom_enabled := True\<rparr>) k v0 = Inl Null_deref \<and>
    dict_set (d\<lparr>bloom_enabled := True\<rparr>) k v = Inl Null_deref"
  using assms
  by (simp add: enableBloomFilter_def dict_get_def dict_set_def set_locked_def set_is_full_def dict_size_def Let_def
      del: rbind_Inl_iff)

theorem enabling_races_with_requests_witness:
  "dict_get ((new_dictionary :: unit dictionary)\<lparr>bloom_enabled := True\<rparr>) ''k'' [] = Inl Null_deref"
proof -
  have "bloom (new_dictionary :: unit dictionary) = None" "\<not> set_is_full (new_dictionary :: unit dictionary)"
    using new_dictionary_ok
    by (simp_all add: new_dictionary_def set_is_full_def dict_size_abs dict_abs_def max_dict_size_def)
  then show ?thesis using enabling_races_with_requests by blast
qed

text \<open>A shutdown sends every worker the byte that ends its loop, marks it as exiting, and empties the
  pool; a connection that is dispatched afterwards finds no worker.\<close>

theorem shutdown_reaches_workers:
  assumes "event_dispatcher s = Some wm" and "tcp_listener s = Some t"
  shows "case server_shutdown True (\<lambda>_. True) s of (stopped, s') \<Rightarrow>
    length stopped = length (workers wm) \<and>
    (\<forall>i < length stopped. process_exiting (stopped ! i) \<and>
      pipe_bytes (stopped ! i) = pipe_bytes (workers wm ! i) @ ''e'' \<and>
      fd_queue (stopped ! i) = fd_queue (workers wm ! i)) \<and>
    (\<exists>t'. tcp_listener s' = Some t' \<and> process_exiting t' \<and> pipe_bytes t' = pipe_bytes t @ ''e'') \<and>
    event_dispatcher s' = Some (wm\<lparr>workers := []\<rparr>)"
  using assms by (simp add: server_shutdown_def stopWorkers_def stop_request_def Let_def)

definition sample_server :: tcp_server where
  "sample_server = (initWorkerManager (new_tcp_server 2 ''h'' 1 False))
     \<lparr>tcp_listener := Some (new_service_thread (new_listener ''h'' 1))\<rparr>"

theorem shutdown_reaches_workers_witness:
  "length (fst (server_shutdown True (\<lambda>_. True) sample_server)) = 2"
proof -
  obtain wm where wm: "event_dispatcher sample_server = Some wm" "length (workers wm) = 2"
    by (simp add: sample_server_def initWorkerManager_def initWorkers_def new_worker_manager_def new_tcp_server_def)
  have "tcp_listener sample_server = Some (new_service_thread (new_listener ''h'' 1))"
    by (simp add: sample_server_def)
  from shutdown_reaches_workers [OF wm(1) this] wm(2) show ?thesis by (auto split: prod.splits)
qed

end
