(* ===== verification/ServerSystem.thy ===== *)
theory ServerSystem
  imports TcpServer Wire "HOL-Library.Multiset"
begin

text \<open>
  The running server as a whole: the \<open>TcpServer\<close> with its workers, the \<open>Dictionary\<close> and the \<open>Stats\<close>, driven
  by what the kernel reports: a connection to accept, a wake-up of a worker, a read event on a connection.
  The event loops run one handler at a time for each thread; here the handlers of all threads take turns
  as wholes, their finer interleavings are in \<open>ServiceThread\<close> and \<open>Requests\<close>. The invariant of this
  composition holds whatever the clients send. At the end, what a shutdown of that server leaves behind.
\<close>

section \<open>State and steps\<close>

text \<open>\<open>sys_accepted\<close> records the descriptors that were handed to \<open>ServerCallback\<close>.\<close>

record 'd system =
  sys_srv :: "'d server"
  sys_tcp :: tcp_server
  sys_accepted :: "fd list"

definition pool_of :: "'d system \<Rightarrow> worker service_thread list" where
  "pool_of s = (case event_dispatcher (sys_tcp s) of None \<Rightarrow> [] | Some wm \<Rightarrow> workers wm)"

definition put_worker :: "nat \<Rightarrow> worker service_thread \<Rightarrow> 'd system \<Rightarrow> 'd system" where
  "put_worker i t s = s\<lparr>sys_tcp := (sys_tcp s)
     \<lparr>event_dispatcher := map_option (\<lambda>wm. wm\<lparr>workers := (workers wm)[i := t]\<rparr>) (event_dispatcher (sys_tcp s))\<rparr>\<rparr>"

text \<open>
  \<open>Accept\<close>: the listener's event, with whether the wake-up byte can be written; \<open>Wake\<close>: the event of a worker's socket
  pair, with the addresses that \<open>new\<close> yields; \<open>Data\<close>: an event that worker \<open>i\<close> has registered, with what the
  reads and writes give.
\<close>

datatype action =
    Accept bool accept_env
  | Wake nat "(string \<times> tcp_flow) list \<Rightarrow> nat"
  | Data nat "fd \<times> string" event_kind "read_result list" "nat \<Rightarrow> write_result"

fun enabled :: "'d system \<Rightarrow> action \<Rightarrow> bool" where
  "enabled s (Accept ok env) \<longleftrightarrow> True"
| "enabled s (Wake i np) \<longleftrightarrow> i < length (pool_of s) \<and> flow_allocator np"
| "enabled s (Data i e ev rs w) \<longleftrightarrow> i < length (pool_of s) \<and> e \<in> set (watched (derived (pool_of s ! i)))"

text \<open>The result of a step: the next state and the bytes that go to the connection.\<close>

fun perform ::
  "(payload \<Rightarrow> byte list) \<Rightarrow> (byte list \<Rightarrow> bool \<times> payload) \<Rightarrow> (u32 \<Rightarrow> bool) \<Rightarrow> action \<Rightarrow> 'd system \<Rightarrow>
   ('d system \<times> byte list) res" where
  "perform ser par alloc_ok (Accept ok env) s =
     rbind (onAccept (ServerCallback ok) EV_READ env (sys_tcp s)) (\<lambda>tcp.
       Inr (s\<lparr>sys_tcp := tcp, sys_accepted := sys_accepted s @ accepted [env]\<rparr>, []))"
| "perform ser par alloc_ok (Wake i np) s =
     rbind (elem_at (pool_of s) i) (\<lambda>t.
       Inr (put_worker i (onEvent (worker_processEvent np) worker_cleanState t) s, []))"
| "perform ser par alloc_ok (Data i e ev rs w) s =
     rbind (elem_at (pool_of s) i) (\<lambda>t.
     rbind (worker_event ser par alloc_ok w e ev rs (sys_srv s) (derived t)) (\<lambda>(srv', wk', out).
       Inr ((put_worker i (t\<lparr>derived := wk'\<rparr>) s)\<lparr>sys_srv := srv'\<rparr>, out)))"

inductive sys_run ::
  "(payload \<Rightarrow> byte list) \<Rightarrow> (byte list \<Rightarrow> bool \<times> payload) \<Rightarrow> (u32 \<Rightarrow> bool) \<Rightarrow> 'd system \<Rightarrow> 'd system \<Rightarrow> bool"
  for ser par alloc_ok s0 where
  sys_start: "sys_run ser par alloc_ok s0 s0"
| sys_step: "sys_run ser par alloc_ok s0 s \<Longrightarrow> enabled s a \<Longrightarrow> perform ser par alloc_ok a s = Inr (s', out) \<Longrightarrow>
    sys_run ser par alloc_ok s0 s'"

text \<open>The server that \<open>TcpServer::start\<close> has set up.\<close>

definition started :: "tcp_server \<Rightarrow> 'd dictionary \<Rightarrow> 'd system" where
  "started tcp d = \<lparr> sys_srv = \<lparr>srv_dict = d, srv_stats = new_stats\<rparr>, sys_tcp = tcp, sys_accepted = [] \<rparr>"

lemma put_worker_simps [simp]:
  "sys_srv (put_worker i t s) = sys_srv s" "sys_accepted (put_worker i t s) = sys_accepted s"
  "pool_of (put_worker i t s) = (pool_of s)[i := t]"
  "event_dispatcher (sys_tcp (put_worker i t s)) =
     map_option (\<lambda>wm. wm\<lparr>workers := (workers wm)[i := t]\<rparr>) (event_dispatcher (sys_tcp s))"
  by (simp_all add: put_worker_def pool_of_def split: option.splits)

lemma pool_of_update [simp]:
  "pool_of (s\<lparr>sys_srv := srv\<rparr>) = pool_of s" "pool_of (s\<lparr>sys_accepted := fds\<rparr>) = pool_of s"
  by (simp_all add: pool_of_def)

section \<open>Where the descriptors are\<close>

text \<open>
  The descriptors of a thread: waiting in its queue, registered with its event loop, or closed. The order in a list does
  not matter, so they are counted as multisets.
\<close>

definition live_fds :: "worker service_thread \<Rightarrow> fd list" where
  "live_fds t = fd_queue t @ map fst (watched (derived t))"

definition held_fds :: "worker service_thread \<Rightarrow> fd multiset" where
  "held_fds t = mset (live_fds t) + mset (closed_fds t) + mset (closed_socks (derived t))"

text \<open>What the event loop of a thread that has not been asked to stop relies on.\<close>

definition thread_ok :: "worker service_thread \<Rightarrow> bool" where
  "thread_ok t \<longleftrightarrow> worker_ok (derived t) \<and> \<not> process_exiting t \<and> set (pipe_bytes t) \<subseteq> {CHR ''c''} \<and>
     (fd_queue t \<noteq> [] \<longrightarrow> pipe_bytes t \<noteq> [])"

lemma new_thread_ok: "thread_ok (new_service_thread new_worker)"
  and held_new_thread [simp]: "held_fds (new_service_thread new_worker) = {#}"
  by (simp_all add: thread_ok_def new_service_thread_def new_worker_ok held_fds_def live_fds_def)
     (simp_all add: new_worker_def)

lemma addFd_thread:
  assumes "thread_ok t"
  shows "thread_ok (snd (addFdToEvLoop ok fd t))" and "held_fds (snd (addFdToEvLoop ok fd t)) = add_mset fd (held_fds t)"
  using assms by (auto simp: thread_ok_def addFdToEvLoop_def held_fds_def live_fds_def)

lemma drain_closed:
  "closed_socks (drain_queue (worker_processEvent np) ex q wk) = closed_socks wk"
  by (induction q arbitrary: wk) (simp_all add: worker_processEvent_def Let_def)

lemma wake_empty: "pipe_bytes t = [] \<Longrightarrow> onEvent pe cs t = t"
  by (simp add: onEvent_def)

text \<open>A thread whose pending bytes are all wake-ups, whether or not there is one for each queued descriptor.\<close>

definition calm :: "worker service_thread \<Rightarrow> bool" where
  "calm t \<longleftrightarrow> worker_ok (derived t) \<and> \<not> process_exiting t \<and> set (pipe_bytes t) \<subseteq> {CHR ''c''}"

lemma thread_ok_calm: "thread_ok t \<longleftrightarrow> calm t \<and> (fd_queue t \<noteq> [] \<longrightarrow> pipe_bytes t \<noteq> [])"
  by (auto simp: thread_ok_def calm_def)

lemma calm_drains:
  assumes "calm t" and "pipe_bytes t = b # p"
  shows "onEvent pe cs t = t\<lparr>pipe_bytes := p, fd_queue := [], derived := drain_queue pe False (fd_queue t) (derived t)\<rparr>"
  using assms by (auto simp: calm_def onEvent_def)

lemma wake_drains:
  assumes "thread_ok t" and "pipe_bytes t = b # p"
  shows "onEvent pe cs t = t\<lparr>pipe_bytes := p, fd_queue := [], derived := drain_queue pe False (fd_queue t) (derived t)\<rparr>"
  using assms calm_drains by (simp add: thread_ok_calm)

lemma calm_wake:
  assumes "calm t" and "flow_allocator np"
  shows "calm (onEvent (worker_processEvent np) worker_cleanState t)" (is "calm ?t")
    and "held_fds (onEvent (worker_processEvent np) worker_cleanState t) = held_fds t"
    and "mset (live_fds (onEvent (worker_processEvent np) worker_cleanState t)) = mset (live_fds t)"
    and "fd_queue t = [] \<or> pipe_bytes t \<noteq> [] \<Longrightarrow> fd_queue (onEvent (worker_processEvent np) worker_cleanState t) = []"
    and "loop_exit (onEvent (worker_processEvent np) worker_cleanState t) = loop_exit t"
proof -
  have "calm ?t \<and> held_fds ?t = held_fds t \<and> mset (live_fds ?t) = mset (live_fds t) \<and>
      (fd_queue t = [] \<or> pipe_bytes t \<noteq> [] \<longrightarrow> fd_queue ?t = []) \<and> loop_exit ?t = loop_exit t"
  proof (cases "pipe_bytes t")
    case Nil
    then show ?thesis using assms(1) by (simp add: wake_empty)
  next
    case (Cons b p)
    note w = calm_drains [OF assms(1) Cons]
    have "worker_ok (drain_queue (worker_processEvent np) False (fd_queue t) (derived t))"
      using service_hooks.drain_inv [OF worker_hooks [OF assms(2)]] assms(1) by (simp add: calm_def)
    moreover have "map fst (watched (drain_queue (worker_processEvent np) False (fd_queue t) (derived t))) =
        map fst (watched (derived t)) @ fd_queue t"
      by (rule flow_allocator.drain_watched [OF assms(2)])
    moreover have "set p \<subseteq> {CHR ''c''}" "\<not> process_exiting t"
      using assms(1) Cons by (simp_all add: calm_def)
    ultimately show ?thesis
      unfolding w by (simp add: calm_def held_fds_def live_fds_def drain_closed)
  qed
  then show "calm ?t" "held_fds ?t = held_fds t" "mset (live_fds ?t) = mset (live_fds t)"
      "loop_exit ?t = loop_exit t" by blast+
  from \<open>calm ?t \<and> _\<close> show "fd_queue ?t = []" if "fd_queue t = [] \<or> pipe_bytes t \<noteq> []" using that by blast
qed

lemma wake_thread:
  assumes "thread_ok t" and "flow_allocator np"
  shows "thread_ok (onEvent (worker_processEvent np) worker_cleanState t)"
    and "held_fds (onEvent (worker_processEvent np) worker_cleanState t) = held_fds t"
    and "mset (live_fds (onEvent (worker_processEvent np) worker_cleanState t)) = mset (live_fds t)"
  using calm_wake [OF _ assms(2), of t] assms(1) by (auto simp: thread_ok_calm)

text \<open>A flow that is deleted gives its descriptor from the registered ones to the closed ones.\<close>

lemma filter_key:
  "distinct (map f xs) \<Longrightarrow> x \<in> set xs \<Longrightarrow> filter (\<lambda>y. f y = f x) xs = [x]"
  by (induction xs) (auto simp: filter_empty_conv image_iff)

lemma mset_remove_key:
  assumes "distinct (map f xs)" and "x \<in> set xs"
  shows "mset xs = add_mset x (mset (filter (\<lambda>y. f y \<noteq> f x) xs))"
proof -
  have "mset xs = mset (filter (\<lambda>y. f y = f x) xs) + mset (filter (\<lambda>y. f y \<noteq> f x) xs)"
    using multiset_partition [of "mset xs" "\<lambda>y. f y = f x"] by (simp only: mset_filter)
  with filter_key [OF assms] show ?thesis by simp
qed

lemma event_thread:
  assumes "worker_ok wk" and "e \<in> set (watched wk)"
    and "worker_event ser par alloc_ok w e ev rs srv wk = Inr (srv', wk', out)"
  shows "worker_ok wk'"
    and "mset (map fst (watched wk')) + mset (closed_socks wk') = mset (map fst (watched wk)) + mset (closed_socks wk)"
    and "set (watched wk') \<subseteq> set (watched wk)"
proof -
  show "worker_ok wk'" by (rule worker_event_ok [OF assms(1,3)])
  obtain f where f: "map_of (sessions wk) (snd e) = Some f"
    using watched_live [OF assms(1,2)] by blast
  obtain fo where fo: "flow_data ser par alloc_ok w (fst e) ev rs srv f = Inr (srv', fo, out)"
    using assms(3) f by (auto simp: worker_event_def split: option.splits)
  have "mset (map fst (watched wk')) + mset (closed_socks wk') = mset (map fst (watched wk)) + mset (closed_socks wk)
      \<and> set (watched wk') \<subseteq> set (watched wk)"
  proof (cases fo)
    case (Some f')
    with assms(3) f fo have "wk' = set_session (snd e) f' wk" by (simp add: worker_event_def)
    then show ?thesis by (simp add: set_session_def)
  next
    case None
    let ?f = "f\<lparr>client_fd := fst e\<rparr>" and ?wk = "set_session (snd e) (f\<lparr>client_fd := fst e\<rparr>) wk"
    from None assms(3) f fo have wk': "wk' = deleteTcpFlow (snd e) ?wk" by (simp add: worker_event_eq [OF assms(1)])
    have d: "distinct (map snd (watched wk))" "distinct (map fst (sessions ?wk))"
      using assms(1) by (simp_all add: worker_ok_def)
    note del = deleteTcpFlow_eq [OF linked_session [OF assms(1)]]
    have "(snd e, ?f) \<in> set (sessions ?wk)"
      using map_of_SomeD [OF f] by (force simp: set_session_def)
    from filter_key [OF d(2) this] have "filter (\<lambda>(a, _). a = snd e) (sessions ?wk) = [(snd e, ?f)]"
      by (simp add: case_prod_unfold)
    then have "closed_socks wk' = closed_socks wk @ [fst e]"
      unfolding wk' del by (simp add: getClientFd_def) (simp add: set_session_def)
    moreover have "watched wk' = filter (\<lambda>y. snd y \<noteq> snd e) (watched wk)"
      unfolding wk' del by (simp add: case_prod_unfold)
    moreover have "mset (map fst (watched wk)) =
        add_mset (fst e) (mset (map fst (filter (\<lambda>y. snd y \<noteq> snd e) (watched wk))))"
      using mset_remove_key [OF d(1) assms(2)] by (metis image_mset_add_mset mset_map)
    ultimately show ?thesis by auto
  qed
  then show "mset (map fst (watched wk')) + mset (closed_socks wk') = mset (map fst (watched wk)) + mset (closed_socks wk)"
    and "set (watched wk') \<subseteq> set (watched wk)" by blast+
qed

section \<open>The invariant of the running server\<close>

definition sys_ok :: "'d system \<Rightarrow> bool" where
  "sys_ok s \<longleftrightarrow>
     (\<exists>wm. event_dispatcher (sys_tcp s) = Some wm \<and> pool_ok wm \<and> dist_type wm = ROUND_ROBIN) \<and>
     server_ok (sys_srv s) \<and> list_all thread_ok (pool_of s) \<and>
     mset (sys_accepted s) = (\<Sum>t\<leftarrow>pool_of s. held_fds t)"

lemma sum_list_update_add:
  fixes f :: "'a \<Rightarrow> 'b :: comm_monoid_add"
  shows "i < length xs \<Longrightarrow> sum_list (map f (xs[i := x])) + f (xs ! i) = sum_list (map f xs) + f x"
proof (induction xs arbitrary: i)
  case Nil
  then show ?case by simp
next
  case (Cons y ys)
  show ?case
  proof (cases i)
    case 0
    then show ?thesis by (simp add: ac_simps)
  next
    case (Suc j)
    with Cons have "sum_list (map f (ys[j := x])) + f (ys ! j) = sum_list (map f ys) + f x" by simp
    then show ?thesis by (simp add: Suc add.assoc)
  qed
qed

lemma sum_held_update:
  fixes f :: "'a \<Rightarrow> 'b multiset"
  assumes "i < length xs" and "f x = f (xs ! i) + m"
  shows "sum_list (map f (xs[i := x])) = sum_list (map f xs) + m"
  using sum_list_update_add [OF assms(1), of f x] assms(2) by (simp add: ac_simps)

lemma list_all_update: "list_all P xs \<Longrightarrow> P x \<Longrightarrow> list_all P (xs[i := x])"
  by (auto simp: list_all_iff dest: in_set_update)

lemma pool_ok_put: "pool_ok wm \<Longrightarrow> pool_ok (wm\<lparr>workers := (workers wm)[i := t]\<rparr>)"
  by (simp add: pool_ok_def)

text \<open>A worker is replaced by one that holds the same descriptors.\<close>

lemma put_worker_ok:
  assumes "sys_ok s" and "i < length (pool_of s)" and "thread_ok t" and "held_fds t = held_fds (pool_of s ! i)"
  shows "sys_ok (put_worker i t s)"
proof -
  have "(\<Sum>t\<leftarrow>(pool_of s)[i := t]. held_fds t) = (\<Sum>t\<leftarrow>pool_of s. held_fds t)"
    using sum_held_update [OF assms(2), of held_fds t "{#}"] assms(4) by simp
  then show ?thesis
    using assms(1,3) by (auto simp: sys_ok_def list_all_update pool_ok_put)
qed

lemma onAccept_accepted:
  "onAccept cb EV_READ env m = (if accepted [env] = [] then Inr m else cb (a_accept env) m)"
  "accepted [env] = [] \<or> accepted [env] = [a_accept env]"
  using setnonblock_success [of "a_getfl env" "a_setfl env"]
  by (auto simp: onAccept_def accepted_def Let_def not_le)

lemma ServerCallback_dispatch:
  assumes "event_dispatcher tcp = Some wm" and "pool_ok wm" and "dist_type wm = ROUND_ROBIN"
  shows "\<exists>wm' j. ServerCallback ok fd tcp = Inr (tcp\<lparr>event_dispatcher := Some wm'\<rparr>) \<and> pool_ok wm' \<and>
    dist_type wm' = ROUND_ROBIN \<and> j < length (workers wm) \<and>
    workers wm' = (workers wm)[j := snd (addFdToEvLoop ok fd (workers wm ! j))]"
proof -
  obtain wm' where wm': "dispatchFd ok fd wm = Inr wm'" "pool_ok wm'" "dist_type wm' = ROUND_ROBIN"
      "unat (rr_index wm') = Suc (unat (rr_index wm)) mod length (workers wm)"
      "workers wm' = (workers wm)[unat (rr_index wm') := snd (addFdToEvLoop ok fd (workers wm ! unat (rr_index wm')))]"
    using dispatchFd_round_robin [OF assms(2,3)] by blast
  have "0 < length (workers wm)" using assms(2) by (auto simp: pool_ok_def)
  then have "unat (rr_index wm') < length (workers wm)" by (simp add: wm'(4))
  with wm' show ?thesis
    by (intro exI [of _ wm'] exI [of _ "unat (rr_index wm')"]) (simp add: ServerCallback_def assms(1))
qed

text \<open>An accept of the running server never faults: it is ignored, or a worker gets the new descriptor.\<close>

lemma accept_result:
  assumes "sys_ok s"
  shows "accepted [env] = [] \<Longrightarrow> perform ser par alloc_ok (Accept ok env) s = Inr (s, [])"
    and "accepted [env] \<noteq> [] \<Longrightarrow> \<exists>s' j. perform ser par alloc_ok (Accept ok env) s = Inr (s', []) \<and>
      j < length (pool_of s) \<and> pool_of s' = (pool_of s)[j := snd (addFdToEvLoop ok (a_accept env) (pool_of s ! j))] \<and>
      sys_srv s' = sys_srv s \<and> sys_accepted s' = sys_accepted s @ [a_accept env] \<and>
      (\<exists>wm. event_dispatcher (sys_tcp s') = Some wm \<and> pool_ok wm \<and> dist_type wm = ROUND_ROBIN)"
proof -
  show "perform ser par alloc_ok (Accept ok env) s = Inr (s, [])" if "accepted [env] = []"
    by (simp add: onAccept_accepted(1) that)
  from assms obtain wm where wm: "event_dispatcher (sys_tcp s) = Some wm" "pool_ok wm" "dist_type wm = ROUND_ROBIN"
    by (auto simp: sys_ok_def)
  obtain wm' j where d: "ServerCallback ok (a_accept env) (sys_tcp s) = Inr ((sys_tcp s)\<lparr>event_dispatcher := Some wm'\<rparr>)"
      "pool_ok wm'" "dist_type wm' = ROUND_ROBIN" "j < length (workers wm)"
      "workers wm' = (workers wm)[j := snd (addFdToEvLoop ok (a_accept env) (workers wm ! j))]"
    using ServerCallback_dispatch [OF wm] by blast
  show "\<exists>s' j. perform ser par alloc_ok (Accept ok env) s = Inr (s', []) \<and>
      j < length (pool_of s) \<and> pool_of s' = (pool_of s)[j := snd (addFdToEvLoop ok (a_accept env) (pool_of s ! j))] \<and>
      sys_srv s' = sys_srv s \<and> sys_accepted s' = sys_accepted s @ [a_accept env] \<and>
      (\<exists>wm. event_dispatcher (sys_tcp s') = Some wm \<and> pool_ok wm \<and> dist_type wm = ROUND_ROBIN)"
    if "accepted [env] \<noteq> []"
    using that onAccept_accepted(2) [of env] wm(1) d
    by (intro exI [of _ "s\<lparr>sys_tcp := (sys_tcp s)\<lparr>event_dispatcher := Some wm'\<rparr>,
          sys_accepted := sys_accepted s @ accepted [env]\<rparr>"] exI [of _ j])
      (simp add: onAccept_accepted(1) pool_of_def del: rbind_Inr_iff)
qed

lemma accept_ok:
  assumes "sys_ok s" and "perform ser par alloc_ok (Accept ok env) s = Inr (s', out)"
  shows "sys_ok s'"
proof (cases "accepted [env] = []")
  case True
  have "s' = s" using assms(2) unfolding accept_result(1) [OF assms(1) True] by simp
  with assms(1) show ?thesis by simp
next
  case False
  with accept_result(2) [OF assms(1) False] assms(2) obtain j where j: "j < length (pool_of s)"
      "pool_of s' = (pool_of s)[j := snd (addFdToEvLoop ok (a_accept env) (pool_of s ! j))]"
      "sys_srv s' = sys_srv s" "sys_accepted s' = sys_accepted s @ [a_accept env]"
      "\<exists>wm. event_dispatcher (sys_tcp s') = Some wm \<and> pool_ok wm \<and> dist_type wm = ROUND_ROBIN"
    by (metis Inr_inject prod.inject)
  have t: "thread_ok (pool_of s ! j)" using assms(1) j(1) by (auto simp: sys_ok_def list_all_length)
  have "(\<Sum>t\<leftarrow>pool_of s'. held_fds t) = (\<Sum>t\<leftarrow>pool_of s. held_fds t) + {#a_accept env#}"
    unfolding j(2) using addFd_thread(2) [OF t] by (intro sum_held_update [OF j(1)]) simp
  then show ?thesis
    using assms(1) j addFd_thread(1) [OF t] by (simp add: sys_ok_def list_all_update)
qed

lemma flow_data_server_ok:
  assumes "flow_data ser par alloc_ok w fd ev rs srv f = Inr (srv', fo, out)" and "server_ok srv"
  shows "server_ok srv'"
proof -
  have "srv' = srv \<or> (\<exists>t p p'. handle_request srv t p = Inr (srv', p'))"
    using assms(1)
    by (auto simp: flow_data_def flow_parse_def Let_def split: if_splits loop_exit.splits option.splits)
  moreover have "handle_request srv t p = Inr (srv', p') \<Longrightarrow> server_ok srv'" for t p p'
    using handle_request_ok [OF assms(2), of t p] by auto
  ultimately show ?thesis using assms(2) by blast
qed

lemma worker_event_server_ok:
  assumes "worker_event ser par alloc_ok w e ev rs srv wk = Inr (srv', wk', out)" and "server_ok srv"
  shows "server_ok srv'"
  using assms(1) flow_data_server_ok [OF _ assms(2)]
  by (auto simp: worker_event_def split: option.splits)

lemma perform_ok:
  assumes "sys_ok s" and "enabled s a" and "perform ser par alloc_ok a s = Inr (s', out)"
  shows "sys_ok s'"
proof (cases a)
  case (Accept ok env)
  with assms accept_ok show ?thesis by blast
next
  case (Wake i np)
  with assms have i: "i < length (pool_of s)" "flow_allocator np" "thread_ok (pool_of s ! i)"
    by (auto simp: sys_ok_def list_all_length)
  from Wake assms(3) have "s' = put_worker i (onEvent (worker_processEvent np) worker_cleanState (pool_of s ! i)) s"
    by simp
  with put_worker_ok [OF assms(1) i(1)] wake_thread(1,2) [OF i(3,2)] show ?thesis by simp
next
  case (Data i e ev rs w)
  with assms have i: "i < length (pool_of s)" "thread_ok (pool_of s ! i)" "server_ok (sys_srv s)"
      and e: "e \<in> set (watched (derived (pool_of s ! i)))"
    by (auto simp: sys_ok_def list_all_length)
  from Data assms(3) obtain srv' wk' where ev: "worker_event ser par alloc_ok w e ev rs (sys_srv s) (derived (pool_of s ! i)) =
      Inr (srv', wk', out)" and s': "s' = (put_worker i ((pool_of s ! i)\<lparr>derived := wk'\<rparr>) s)\<lparr>sys_srv := srv'\<rparr>"
    by auto
  have "worker_ok (derived (pool_of s ! i))" using i(2) by (simp add: thread_ok_def)
  note t = event_thread [OF this e ev]
  have "thread_ok ((pool_of s ! i)\<lparr>derived := wk'\<rparr>)" using i(2) t(1) by (simp add: thread_ok_def)
  moreover have "held_fds ((pool_of s ! i)\<lparr>derived := wk'\<rparr>) = held_fds (pool_of s ! i)"
    using t(2) by (simp add: held_fds_def live_fds_def ac_simps)
  ultimately have "sys_ok (put_worker i ((pool_of s ! i)\<lparr>derived := wk'\<rparr>) s)"
    by (rule put_worker_ok [OF assms(1) i(1)])
  with worker_event_server_ok [OF ev i(3)] show ?thesis by (simp add: sys_ok_def s')
qed

lemma sys_run_ok:
  assumes "sys_run ser par alloc_ok s0 s" and "sys_ok s0"
  shows "sys_ok s"
  using assms by (induction rule: sys_run.induct) (auto intro: perform_ok)

lemma started_ok:
  assumes "server_start F srand thread_ok0 (new_tcp_server n ip p b) d0 = Inr (tcp, d)" and "n \<noteq> 0" and "dict_ok d"
  shows "sys_ok (started tcp d)" and "pool_of (started tcp d) = replicate (unat n) (new_service_thread new_worker)"
proof -
  let ?wm = "initWorkers new_worker (new_worker_manager (uint n) ROUND_ROBIN)"
  have tcp: "event_dispatcher tcp = Some ?wm"
    using server_start_dispatcher [OF assms(1)] by (simp add: new_tcp_server_def)
  have n: "0 < uint n" "uint n \<le> int_max"
    using assms(2) uint_bounded [of n] by (simp_all add: int_max_def word_neq_0_conv word_less_def)
  show pool: "pool_of (started tcp d) = replicate (unat n) (new_service_thread new_worker)"
    by (simp add: pool_of_def started_def tcp initWorkers_def new_worker_manager_def)
  have "sum_list (map held_fds (replicate k (new_service_thread new_worker))) = {#}" for k
    by (induction k) simp_all
  moreover have "list_all thread_ok (replicate k (new_service_thread new_worker))" for k
    by (simp add: list_all_iff new_thread_ok)
  moreover have "dist_type ?wm = ROUND_ROBIN" by (simp add: initWorkers_def new_worker_manager_def)
  ultimately show "sys_ok (started tcp d)"
    using initWorkers_pool_ok [OF n, of new_worker ROUND_ROBIN] tcp assms(3) pool
    by (simp add: sys_ok_def started_def server_ok_def stats_balanced_new)
qed

text \<open>Only the handler of a flow can fail.\<close>

lemma perform_fault:
  assumes "sys_ok s" and "enabled s a" and "perform ser par alloc_ok a s = Inl x"
  shows "\<exists>i e ev rs w f. a = Data i e ev rs w \<and> map_of (sessions (derived (pool_of s ! i))) (snd e) = Some f \<and>
    flow_data ser par alloc_ok w (fst e) ev rs (sys_srv s) f = Inl x"
proof (cases a)
  case (Accept ok env)
  have "\<exists>r. perform ser par alloc_ok a s = Inr r"
    using accept_result [OF assms(1), of env ser par alloc_ok ok] by (cases "accepted [env] = []") (auto simp: Accept)
  with assms(3) show ?thesis by simp
next
  case (Wake i np)
  with assms(2,3) show ?thesis by (simp add: elem_at_def)
next
  case (Data i e ev rs w)
  with assms(1,2) have i: "i < length (pool_of s)" "worker_ok (derived (pool_of s ! i))"
      and e: "e \<in> set (watched (derived (pool_of s ! i)))"
    by (auto simp: sys_ok_def list_all_length thread_ok_def)
  from Data assms(3) i(1) have "worker_event ser par alloc_ok w e ev rs (sys_srv s) (derived (pool_of s ! i)) = Inl x"
    by (auto simp: elem_at_def)
  with worker_event_fault [OF i(2) e this] Data show ?thesis by blast
qed

section \<open>Shutdown\<close>

text \<open>
  \<open>client_fd\<close> of a flow is its descriptor once the handler has run for a read event, and -1 before. It is what the
  destructor closes.
\<close>

definition fds_ok :: "worker \<Rightarrow> bool" where
  "fds_ok wk \<longleftrightarrow> (\<forall>fd a f. (fd, a) \<in> set (watched wk) \<longrightarrow> map_of (sessions wk) a = Some f \<longrightarrow>
     client_fd f = -1 \<or> client_fd f = fd)"

lemma read_loop_fd: "read_loop alloc_ok n rs f = Inr (ex, f', rs') \<Longrightarrow> client_fd f' = client_fd f"
proof (induction alloc_ok n rs f rule: read_loop.induct)
  case (3 alloc_ok n r rs f)
  have "client_fd f1 = client_fd f" if "flow_receive alloc_ok f bs = Inr f1" for f1 bs
    using that by (auto simp: flow_receive_def Let_def split: option.splits if_splits)
  with 3 show ?case by (fastforce split: read_result.splits if_splits)
qed auto

lemma flow_data_fd:
  "flow_data ser par alloc_ok w fd ev rs srv f = Inr (srv', Some f', out) \<Longrightarrow> client_fd f' = client_fd f \<or> client_fd f' = fd"
  by (auto simp: flow_data_def flow_parse_def Let_def split: if_splits loop_exit.splits option.splits
      dest!: read_loop_fd)

lemma fds_processEvent:
  assumes "flow_allocator np" and "fds_ok wk"
  shows "fds_ok (worker_processEvent np False fd wk)"
proof -
  let ?a = "getAddrStr (np (sessions wk))"
  let ?f = "setAddr new_tcp_flow ?a"
  have new: "?a \<notin> fst ` set (sessions wk)" by (rule flow_allocator.new_ptr_fresh [OF assms(1)])
  have *: "client_fd f = -1 \<or> client_fd f = x" if e: "(x, b) \<in> set (watched wk @ [(fd, ?a)])"
      and m: "map_of (sessions wk @ [(?a, ?f)]) b = Some f" for x b f
  proof (cases "map_of (sessions wk) b")
    case None
    with m have "f = ?f" by (simp add: map_add_def split: if_splits)
    then show ?thesis by (simp add: setAddr_def new_tcp_flow_def)
  next
    case (Some g)
    then have "b \<noteq> ?a" using new by (metis fst_conv image_eqI map_of_SomeD)
    with e have "(x, b) \<in> set (watched wk)" by simp
    moreover have "g = f" using m Some by (simp add: map_add_def)
    ultimately show ?thesis using assms(2) Some by (auto simp: fds_ok_def)
  qed
  have "watched (worker_processEvent np False fd wk) = watched wk @ [(fd, ?a)]"
      "sessions (worker_processEvent np False fd wk) = sessions wk @ [(?a, ?f)]"
    using new by (simp_all add: worker_processEvent_def Let_def)
  then show ?thesis unfolding fds_ok_def using * by presburger
qed

lemma fds_drain:
  "flow_allocator np \<Longrightarrow> fds_ok wk \<Longrightarrow> fds_ok (drain_queue (worker_processEvent np) False q wk)"
  by (induction q arbitrary: wk) (auto intro: fds_processEvent)

lemma fds_event:
  assumes "worker_ok wk" and "fds_ok wk" and "e \<in> set (watched wk)"
    and "worker_event ser par alloc_ok w e ev rs srv wk = Inr (srv', wk', out)"
  shows "fds_ok wk'"
proof -
  obtain f where f: "map_of (sessions wk) (snd e) = Some f" using watched_live [OF assms(1,3)] by blast
  obtain fo where fo: "flow_data ser par alloc_ok w (fst e) ev rs srv f = Inr (srv', fo, out)"
    using assms(4) f by (auto simp: worker_event_def split: option.splits)
  have "distinct (map snd (watched wk))" using assms(1) by (simp add: worker_ok_def)
  then have d: "inj_on snd (set (watched wk))" by (simp only: distinct_map)
  have key: "x = fst e" if "(x, snd e) \<in> set (watched wk)" for x
    using inj_onD [OF d _ that assms(3)] by (metis fst_conv snd_conv)
  have cf: "client_fd f = -1 \<or> client_fd f = fst e"
    using assms(2,3) f unfolding fds_ok_def by (metis prod.collapse)
  show ?thesis
  proof (cases fo)
    case (Some f')
    with assms(4) f fo have wk': "wk' = set_session (snd e) f' wk" by (simp add: worker_event_def)
    have "client_fd f' = -1 \<or> client_fd f' = fst e" using flow_data_fd [OF fo [unfolded Some]] cf by auto
    with assms(2) key show ?thesis
      by (auto simp: wk' fds_ok_def map_of_set_session split: if_splits)
  next
    case None
    let ?wk = "set_session (snd e) (f\<lparr>client_fd := fst e\<rparr>) wk"
    from None assms(4) f fo have wk': "wk' = deleteTcpFlow (snd e) ?wk" by (simp add: worker_event_eq [OF assms(1)])
    have "map_of (filter (\<lambda>(b, _). b \<noteq> snd e) ss) a = map_of ss a" if "a \<noteq> snd e" for a and ss :: "(string \<times> tcp_flow) list"
      using that by (induction ss) auto
    with assms(2) show ?thesis
      unfolding wk' deleteTcpFlow_eq [OF linked_session [OF assms(1)]]
      by (auto simp: fds_ok_def map_of_set_session split: if_splits)
  qed
qed

definition pool_fds_ok :: "'d system \<Rightarrow> bool" where
  "pool_fds_ok s \<longleftrightarrow> (\<forall>t \<in> set (pool_of s). fds_ok (derived t))"

lemma pool_fds_put:
  "pool_fds_ok s \<Longrightarrow> fds_ok (derived t) \<Longrightarrow> pool_fds_ok (put_worker i t s)"
  by (auto simp: pool_fds_ok_def dest: in_set_update)

lemma perform_fds:
  assumes "sys_ok s" and "pool_fds_ok s" and "enabled s a" and "perform ser par alloc_ok a s = Inr (s', out)"
  shows "pool_fds_ok s'"
proof (cases a)
  case (Accept ok env)
  show ?thesis
  proof (cases "accepted [env] = []")
    case True
    have "s' = s" using assms(4) unfolding Accept accept_result(1) [OF assms(1) True] by simp
    with assms(2) show ?thesis by simp
  next
    case False
    with accept_result(2) [OF assms(1) False, of ser par alloc_ok ok] assms(4) Accept obtain j where
        j: "j < length (pool_of s)" "pool_of s' = (pool_of s)[j := snd (addFdToEvLoop ok (a_accept env) (pool_of s ! j))]"
      by (metis Inr_inject prod.inject)
    moreover have "derived (snd (addFdToEvLoop ok fd t)) = derived t" for fd and t :: "worker service_thread"
      by (simp add: addFdToEvLoop_def)
    ultimately show ?thesis using assms(2) by (auto simp: pool_fds_ok_def dest!: in_set_update)
  qed
next
  case (Wake i np)
  with assms have i: "i < length (pool_of s)" and np: "flow_allocator np" and t: "thread_ok (pool_of s ! i)"
    by (auto simp: sys_ok_def list_all_length)
  have f: "fds_ok (derived (pool_of s ! i))" using assms(2) i by (simp add: pool_fds_ok_def)
  have "fds_ok (derived (onEvent (worker_processEvent np) worker_cleanState (pool_of s ! i)))"
    using f fds_drain [OF np] wake_drains [OF t] by (cases "pipe_bytes (pool_of s ! i)") (simp_all add: wake_empty)
  moreover have "s' = put_worker i (onEvent (worker_processEvent np) worker_cleanState (pool_of s ! i)) s"
    using Wake assms(4) by simp
  ultimately show ?thesis using pool_fds_put [OF assms(2)] by simp
next
  case (Data i e ev rs w)
  with assms have i: "i < length (pool_of s)" "worker_ok (derived (pool_of s ! i))"
      and e: "e \<in> set (watched (derived (pool_of s ! i)))"
    by (auto simp: sys_ok_def list_all_length thread_ok_def)
  have f: "fds_ok (derived (pool_of s ! i))" using assms(2) i by (simp add: pool_fds_ok_def)
  from Data assms(4) obtain srv' wk' where ev: "worker_event ser par alloc_ok w e ev rs (sys_srv s) (derived (pool_of s ! i)) =
      Inr (srv', wk', out)" and s': "s' = (put_worker i ((pool_of s ! i)\<lparr>derived := wk'\<rparr>) s)\<lparr>sys_srv := srv'\<rparr>"
    by auto
  have "pool_fds_ok (put_worker i ((pool_of s ! i)\<lparr>derived := wk'\<rparr>) s)"
    by (rule pool_fds_put [OF assms(2)]) (simp add: fds_event [OF i(2) f e ev])
  then show ?thesis by (simp add: s' pool_fds_ok_def)
qed

lemma sys_run_fds:
  assumes "sys_run ser par alloc_ok s0 s" and "sys_ok s0" and "pool_fds_ok s0"
  shows "pool_fds_ok s"
  using assms(1)
proof (induction rule: sys_run.induct)
  case sys_start
  show ?case by (rule assms(3))
next
  case (sys_step s a s' out)
  then show ?case using perform_fds sys_run_ok [OF sys_step(1) assms(2)] by blast
qed

text \<open>The wake-ups of a worker that has been asked to stop: the bytes that were under way, and the request.\<close>

lemma drain_while_exiting: "drain_queue (worker_processEvent np) True q wk = wk"
  by (induction q) (simp_all add: worker_processEvent_def)

lemma exiting_wakeups:
  assumes "process_exiting t" and "set p \<subseteq> {CHR ''c''}" and "pipe_bytes t = p @ ''e''"
  shows "(onEvent (worker_processEvent np) worker_cleanState ^^ Suc (length p)) t =
    t\<lparr>pipe_bytes := [], fd_queue := (if p = [] then fd_queue t else []), loop_exit := True,
      derived := worker_cleanState (derived t)\<rparr>"
  using assms
proof (induction p arbitrary: t)
  case Nil
  then show ?case by (simp add: onEvent_def stopThread_def Let_def)
next
  case (Cons b p)
  let ?u = "t\<lparr>pipe_bytes := p @ ''e'', fd_queue := []\<rparr>"
  have "onEvent (worker_processEvent np) worker_cleanState t = ?u"
    using Cons.prems by (simp add: onEvent_def Let_def drain_while_exiting)
  moreover have "(onEvent (worker_processEvent np) worker_cleanState ^^ Suc (length p)) ?u =
      ?u\<lparr>pipe_bytes := [], fd_queue := (if p = [] then fd_queue ?u else []), loop_exit := True,
        derived := worker_cleanState (derived ?u)\<rparr>"
    by (rule Cons.IH) (use Cons.prems in auto)
  ultimately show ?case by (simp add: funpow_swap1)
qed

section \<open>Properties\<close>



text \<open>C34: a shutdown of the running server: every worker that has been asked to stop leaves its event loop after the
  wake-ups that were still under way and the one of the request; no session, registered event or queued
  descriptor is left. What it closes are the \<open>client_fd\<close> of its sessions: the descriptor of a session whose handler
  has run, but -1 for one that never had a read event. The queued descriptors are not closed.\<close>

theorem shutdown_cleans_workers:
  assumes "server_start F srand thread_ok0 (new_tcp_server n ip p b) d0 = Inr (tcp, d)" and "n \<noteq> 0" and "dict_ok d"
    and "sys_run ser par alloc_ok (started tcp d) s" and "server_shutdown True (\<lambda>_. True) (sys_tcp s) = (stopped, tcp')"
    and "i < length (pool_of s)"
  shows "let t = pool_of s ! i;
      t' = (onEvent (worker_processEvent np) worker_cleanState ^^ length (pipe_bytes (stopped ! i))) (stopped ! i)
    in length stopped = length (pool_of s) \<and> loop_exit t' \<and> fd_queue t' = [] \<and> sessions (derived t') = [] \<and>
      watched (derived t') = [] \<and> closed_fds t' = closed_fds t \<and>
      closed_socks (derived t') = closed_socks (derived t) @ map (client_fd \<circ> snd) (sessions (derived t)) \<and>
      (\<forall>fd a f. (fd, a) \<in> set (watched (derived t)) \<longrightarrow> map_of (sessions (derived t)) a = Some f \<longrightarrow>
        client_fd f = -1 \<or> client_fd f = fd)"
proof -
  note st = started_ok [OF assms(1-3)]
  have ok: "sys_ok s" by (rule sys_run_ok [OF assms(4) st(1)])
  have "pool_fds_ok (started tcp d)"
    unfolding pool_fds_ok_def st(2) by (auto simp: fds_ok_def new_service_thread_def new_worker_def)
  from sys_run_fds [OF assms(4) st(1) this] have fds: "fds_ok (derived (pool_of s ! i))"
    using assms(6) by (simp add: pool_fds_ok_def)
  let ?t = "pool_of s ! i"
  have t: "thread_ok ?t" using ok assms(6) by (simp add: sys_ok_def list_all_length)
  obtain wm where wm: "event_dispatcher (sys_tcp s) = Some wm" using ok by (auto simp: sys_ok_def)
  have pool: "pool_of s = workers wm" by (simp add: pool_of_def wm)
  have stopped: "length stopped = length (pool_of s)" "stopped ! i = snd (stop_request True ?t)"
    using assms(5,6) wm by (auto simp: server_shutdown_def stopWorkers_def pool split: option.splits)
  let ?u = "snd (stop_request True ?t)"
  have u: "process_exiting ?u" "pipe_bytes ?u = pipe_bytes ?t @ ''e''" "fd_queue ?u = fd_queue ?t" "derived ?u = derived ?t"
      "closed_fds ?u = closed_fds ?t"
    by (simp_all add: stop_request_def Let_def)
  have p: "set (pipe_bytes ?t) \<subseteq> {CHR ''c''}" "pipe_bytes ?t = [] \<Longrightarrow> fd_queue ?t = []" "worker_ok (derived ?t)"
    using t by (auto simp: thread_ok_def)
  have e: "(onEvent (worker_processEvent np) worker_cleanState ^^ length (pipe_bytes ?u)) ?u =
      ?u\<lparr>pipe_bytes := [], fd_queue := [], loop_exit := True, derived := worker_cleanState (derived ?t)\<rparr>"
    using exiting_wakeups [OF u(1) p(1) u(2), of np] p(2) by (cases "pipe_bytes ?t = []") (simp_all add: u(2-4))
  have w: "watched (worker_cleanState (derived ?t)) = []" by (rule worker_cleanState_ok(2) [OF p(3)])
  have c: "sessions (worker_cleanState (derived ?t)) = []"
      "closed_socks (worker_cleanState (derived ?t)) = closed_socks (derived ?t) @ map (client_fd \<circ> snd) (sessions (derived ?t))"
    by (simp_all add: worker_cleanState_eq getClientFd_def case_prod_unfold comp_def)
  show ?thesis
    unfolding Let_def stopped(2) e using stopped(1) w c u(5) fds by (simp add: fds_ok_def)
qed

text \<open>A worker with a queued descriptor: the descriptor is dropped, and nothing is closed.\<close>

theorem shutdown_cleans_workers_witness:
  "\<exists>tcp (d :: real option dictionary) s stopped tcp' i.
    server_start const_fpu (\<lambda>_ _. 7) True (new_tcp_server 2 ''h'' 1 False) new_dictionary = Inr (tcp, d) \<and>
    sys_run wire_ser wire_par (\<lambda>_. True) (started tcp d) s \<and>
    server_shutdown True (\<lambda>_. True) (sys_tcp s) = (stopped, tcp') \<and> fd_queue (pool_of s ! i) = [10] \<and>
    (let t' = (onEvent (worker_processEvent bump_ptr) worker_cleanState ^^ length (pipe_bytes (stopped ! i))) (stopped ! i)
     in loop_exit t' \<and> fd_queue t' = [] \<and> closed_fds t' = [] \<and> closed_socks (derived t') = [])"
proof -
  obtain tcp and d :: "real option dictionary" where
      s: "server_start const_fpu (\<lambda>_ _. 7) True (new_tcp_server 2 ''h'' 1 False) new_dictionary = Inr (tcp, d)"
      and d: "d = new_dictionary"
    by (simp add: server_start_def initWorkerManager_def enableBloomFilter_def new_tcp_server_def new_dictionary_def
        Let_def)
  then have dict: "dict_ok d" by (simp add: new_dictionary_ok)
  have two: "(2 :: u16) \<noteq> 0" by simp
  have a: "accepted [sample_accept 10] = [10]" "a_accept (sample_accept 10) = 10"
    by (simp_all add: accepted_def sample_accept_def O_NONBLOCK_def)
  obtain s' j where s': "perform wire_ser wire_par (\<lambda>_. True) (Accept True (sample_accept 10)) (started tcp d) = Inr (s', [])"
      "j < length (pool_of (started tcp d))"
      "pool_of s' = (pool_of (started tcp d))[j := snd (addFdToEvLoop True 10 (pool_of (started tcp d) ! j))]"
    using accept_result(2) [OF started_ok(1) [OF s two dict], of "sample_accept 10" wire_ser wire_par "\<lambda>_. True" True] a
    by auto
  have run: "sys_run wire_ser wire_par (\<lambda>_. True) (started tcp d) s'"
    using sys_step [OF sys_start _ s'(1)] by simp
  obtain stopped tcp' where st: "server_shutdown True (\<lambda>_. True) (sys_tcp s') = (stopped, tcp')" by fastforce
  have j: "j < length (pool_of s')" using s'(2,3) by simp
  have t: "pool_of s' ! j = snd (addFdToEvLoop True 10 (new_service_thread new_worker))"
    using s'(2,3) started_ok(2) [OF s two dict] by simp
  then have q: "fd_queue (pool_of s' ! j) = [10]" "closed_fds (pool_of s' ! j) = []"
      "closed_socks (derived (pool_of s' ! j)) = []" "sessions (derived (pool_of s' ! j)) = []"
    by (simp_all add: addFdToEvLoop_def new_service_thread_def new_worker_def)
  from shutdown_cleans_workers [OF s two dict run st j, of bump_ptr] q have
      "let t' = (onEvent (worker_processEvent bump_ptr) worker_cleanState ^^ length (pipe_bytes (stopped ! j))) (stopped ! j)
       in loop_exit t' \<and> fd_queue t' = [] \<and> closed_fds t' = [] \<and> closed_socks (derived t') = []"
    by (simp add: Let_def)
  with s run st q(1) show ?thesis by blast
qed

end
