(* ===== verification/ServerStartup.thy ===== *)
theory ServerStartup
  imports Startup ServerSystem
begin

text \<open>
  The server from the moment in which its workers are created: the worker threads start, each in its own time and
  some of them perhaps in vain, while the listener already dispatches connections and workers that have started
  already serve theirs. As long as no wake-up byte goes astray this is the running server of \<open>ServerSystem\<close>, which takes the
  threads to be in their loops from the beginning; and in any case no descriptor is lost.
\<close>

section \<open>State and steps\<close>

text \<open>The workers of the manager \<open>su_wm\<close> are kept in \<open>su_boots\<close>, with how far they have got.\<close>

record 'd startup =
  su_srv :: "'d server"
  su_wm :: "worker worker_manager"
  su_boots :: "worker boot list"
  su_accepted :: "fd list"

text \<open>\<open>loadbalanceFd\<close> and the call of \<open>addFdToEvLoop\<close> on a worker that may not have started.\<close>

definition boot_dispatch ::
  "bool \<Rightarrow> fd \<Rightarrow> worker worker_manager \<Rightarrow> worker boot list \<Rightarrow> (worker worker_manager \<times> worker boot list) res" where
  "boot_dispatch write_ok fd wm bs =
     rbind (getWorkerIndex (wm\<lparr>workers := map boot_thr bs\<rparr>)) (\<lambda>(r, wm1).
       let index = sint r in
       if index < 0 \<or> thread_count wm1 \<le> index then Inr (wm1, bs)
       else rbind (elem_at bs (nat index)) (\<lambda>b.
         Inr (wm1, bs[nat index := snd (boot_add write_ok fd b)])))"

inductive su_step ::
  "(payload \<Rightarrow> byte list) \<Rightarrow> (byte list \<Rightarrow> bool \<times> payload) \<Rightarrow> (u32 \<Rightarrow> bool) \<Rightarrow> 'd startup \<Rightarrow> 'd startup \<Rightarrow> bool"
  for ser par alloc_ok where
  su_own: "i < length (su_boots s) \<Longrightarrow> flow_allocator np \<Longrightarrow>
    own_step (worker_processEvent np) worker_cleanState Some (su_boots s ! i) b \<Longrightarrow>
    su_step ser par alloc_ok s (s\<lparr>su_boots := (su_boots s)[i := b]\<rparr>)"
| su_refuse: "accepted [env] = [] \<Longrightarrow> su_step ser par alloc_ok s s"
| su_accept: "accepted [env] = [fd] \<Longrightarrow> boot_dispatch write_ok fd (su_wm s) (su_boots s) = Inr (wm, bs) \<Longrightarrow>
    su_step ser par alloc_ok s (s\<lparr>su_wm := wm, su_boots := bs, su_accepted := su_accepted s @ [fd]\<rparr>)"
| su_data: "i < length (su_boots s) \<Longrightarrow> boot_at (su_boots s ! i) = B_loop \<Longrightarrow>
    e \<in> set (watched (derived (boot_thr (su_boots s ! i)))) \<Longrightarrow>
    worker_event ser par alloc_ok w e ev rs (su_srv s) (derived (boot_thr (su_boots s ! i))) = Inr (srv, wk, out) \<Longrightarrow>
    su_step ser par alloc_ok s (s\<lparr>su_srv := srv, su_boots := (su_boots s)
      [i := (su_boots s ! i)\<lparr>boot_thr := (boot_thr (su_boots s ! i))\<lparr>derived := wk\<rparr>\<rparr>]\<rparr>)"

inductive su_run ::
  "(payload \<Rightarrow> byte list) \<Rightarrow> (byte list \<Rightarrow> bool \<times> payload) \<Rightarrow> (u32 \<Rightarrow> bool) \<Rightarrow> 'd startup \<Rightarrow> 'd startup \<Rightarrow> bool"
  for ser par alloc_ok s0 where
  su_begin: "su_run ser par alloc_ok s0 s0"
| su_next: "su_run ser par alloc_ok s0 s \<Longrightarrow> su_step ser par alloc_ok s s' \<Longrightarrow> su_run ser par alloc_ok s0 s'"

text \<open>The workers that \<open>initWorkers\<close> has created, before any of their threads has run.\<close>

definition su_start :: "tcp_server \<Rightarrow> 'd dictionary \<Rightarrow> 'd startup" where
  "su_start tcp d = \<lparr> su_srv = \<lparr>srv_dict = d, srv_stats = new_stats\<rparr>, su_wm = the (event_dispatcher tcp),
     su_boots = map (\<lambda>t. \<lparr>boot_thr = t, boot_at = B_begin, stray = []\<rparr>) (workers (the (event_dispatcher tcp))),
     su_accepted = [] \<rparr>"

text \<open>The running server that this is, when the states of the threads are forgotten.\<close>

definition su_system :: "tcp_server \<Rightarrow> 'd startup \<Rightarrow> 'd system" where
  "su_system tcp s = \<lparr> sys_srv = su_srv s,
     sys_tcp = tcp\<lparr>event_dispatcher := Some ((su_wm s)\<lparr>workers := map boot_thr (su_boots s)\<rparr>)\<rparr>,
     sys_accepted = su_accepted s \<rparr>"

lemma su_system_simps [simp]:
  "sys_srv (su_system tcp s) = su_srv s" "sys_accepted (su_system tcp s) = su_accepted s"
  "pool_of (su_system tcp s) = map boot_thr (su_boots s)"
  by (simp_all add: su_system_def pool_of_def)

lemma su_system_put:
  "su_system tcp (s\<lparr>su_srv := srv, su_boots := (su_boots s)[i := b]\<rparr>) = (put_worker i (boot_thr b) (su_system tcp s))\<lparr>sys_srv := srv\<rparr>"
  "su_system tcp (s\<lparr>su_boots := (su_boots s)[i := b]\<rparr>) = put_worker i (boot_thr b) (su_system tcp s)"
  by (simp_all add: su_system_def put_worker_def map_update)

section \<open>No descriptor is lost\<close>

definition boot_calm :: "worker boot \<Rightarrow> bool" where
  "boot_calm b \<longleftrightarrow> calm (boot_thr b) \<and> \<not> loop_exit (boot_thr b) \<and> boot_ok b"

definition su_ok :: "'d startup \<Rightarrow> bool" where
  "su_ok s \<longleftrightarrow> list_all boot_calm (su_boots s) \<and> mset (su_accepted s) = (\<Sum>b\<leftarrow>su_boots s. held_fds (boot_thr b)) \<and>
     server_ok (su_srv s) \<and> pool_ok ((su_wm s)\<lparr>workers := map boot_thr (su_boots s)\<rparr>) \<and> dist_type (su_wm s) = ROUND_ROBIN"

lemma own_step_calm:
  assumes "own_step (worker_processEvent np) worker_cleanState Some b b'" and "boot_calm b" and "flow_allocator np"
  shows "boot_calm b' \<and> held_fds (boot_thr b') = held_fds (boot_thr b)"
proof -
  have ok: "boot_ok b'" using own_step_ok [OF assms(1)] assms(2) by (simp add: boot_calm_def)
  from assms(1) show ?thesis
  proof cases
    case b_event
    with assms(2) ok calm_wake [OF _ assms(3), of "boot_thr b"] show ?thesis by (simp add: boot_calm_def)
  next
    case (b_init d)
    then have "(boot_thr b)\<lparr>derived := d\<rparr> = boot_thr b" by simp
    with assms(2) ok b_init(1) show ?thesis by (simp add: boot_calm_def)
  qed (use assms(2) ok in \<open>simp_all add: boot_calm_def\<close>)
qed

lemma boot_add_calm:
  assumes "boot_calm b"
  shows "boot_calm (snd (boot_add ok fd b)) \<and> held_fds (boot_thr (snd (boot_add ok fd b))) = add_mset fd (held_fds (boot_thr b))"
  using boot_calls_ok(1) [of b ok fd] assms
  by (auto simp: boot_calm_def calm_def boot_add_def boot_write_def held_fds_def live_fds_def Let_def)

text \<open>The dispatching is that of the manager, but for a byte that goes astray.\<close>

lemma boot_dispatch_put:
  assumes "pool_ok (wm\<lparr>workers := map boot_thr bs\<rparr>)" and "dist_type wm = ROUND_ROBIN"
  shows "\<exists>wm' j. boot_dispatch ok fd wm bs = Inr (wm', bs[j := snd (boot_add ok fd (bs ! j))]) \<and> j < length bs \<and>
    dist_type wm' = ROUND_ROBIN \<and> (\<forall>bs' :: worker boot list. length bs' = length bs \<longrightarrow> pool_ok (wm'\<lparr>workers := map boot_thr bs'\<rparr>)) \<and>
    dispatchFd ok fd (wm\<lparr>workers := map boot_thr bs\<rparr>) =
      Inr (wm'\<lparr>workers := (map boot_thr bs)[j := snd (addFdToEvLoop ok fd (boot_thr (bs ! j)))]\<rparr>)"
proof -
  let ?wm = "wm\<lparr>workers := map boot_thr bs\<rparr>"
  have rr: "dist_type ?wm = ROUND_ROBIN" using assms(2) by simp
  obtain i where i: "getWorkerIndex ?wm = Inr (i, ?wm\<lparr>rr_index := i\<rparr>)"
      "unat i = Suc (unat (rr_index ?wm)) mod length (workers ?wm)" "sint i = int (unat i)"
    using getWorkerIndex_round_robin [OF assms(1) rr] by blast
  have n: "0 < length bs" "thread_count wm = int (length bs)" "int (length bs) \<le> int_max"
    using assms(1) by (auto simp: pool_ok_def)
  then have j: "unat i < length bs" using i(2) by simp
  have idx: "nat (sint i) = unat i" "\<not> (sint i < 0 \<or> thread_count wm \<le> sint i)"
    unfolding i(3) n(2) using j by (simp, linarith)
  have "boot_dispatch ok fd wm bs = Inr (?wm\<lparr>rr_index := i\<rparr>, bs[unat i := snd (boot_add ok fd (bs ! unat i))])"
    using i(1) j idx by (simp add: boot_dispatch_def elem_at_def Let_def)
  moreover have "dispatchFd ok fd ?wm =
      Inr ((?wm\<lparr>rr_index := i\<rparr>)\<lparr>workers := (map boot_thr bs)[unat i := snd (addFdToEvLoop ok fd (boot_thr (bs ! unat i)))]\<rparr>)"
    using i(1) j idx by (simp add: dispatchFd_def loadbalanceFd_def elem_at_def Let_def)
  moreover have "pool_ok ((?wm\<lparr>rr_index := i\<rparr>)\<lparr>workers := map boot_thr bs'\<rparr>)" if "length bs' = length bs" for bs' :: "worker boot list"
    using that n j by (auto simp: pool_ok_def)
  ultimately show ?thesis using j rr
    by (intro exI [of _ "?wm\<lparr>rr_index := i\<rparr>"] exI [of _ "unat i"]) simp
qed

lemma own_keeps_ok:
  assumes "su_ok s" and "i < length (su_boots s)" and "flow_allocator np"
    and "own_step (worker_processEvent np) worker_cleanState Some (su_boots s ! i) b"
  shows "su_ok (s\<lparr>su_boots := (su_boots s)[i := b]\<rparr>)"
proof -
  have "boot_calm (su_boots s ! i)" using assms(1,2) by (simp add: su_ok_def list_all_length)
  from own_step_calm [OF assms(4) this assms(3)] have b: "boot_calm b" "held_fds (boot_thr b) = held_fds (boot_thr (su_boots s ! i))"
    by simp_all
  have "(\<Sum>b\<leftarrow>(su_boots s)[i := b]. held_fds (boot_thr b)) = (\<Sum>b\<leftarrow>su_boots s. held_fds (boot_thr b))"
    using sum_held_update [OF assms(2), of "\<lambda>b. held_fds (boot_thr b)" b "{#}"] b(2) by simp
  with assms(1) b(1) show ?thesis
    by (auto simp: su_ok_def list_all_update map_update pool_ok_def)
qed

lemma accept_keeps_ok:
  assumes "su_ok s" and "boot_dispatch ok fd (su_wm s) (su_boots s) = Inr (wm, bs)"
  shows "su_ok (s\<lparr>su_wm := wm, su_boots := bs, su_accepted := su_accepted s @ [fd]\<rparr>)"
proof -
  from assms(1) have "pool_ok ((su_wm s)\<lparr>workers := map boot_thr (su_boots s)\<rparr>)" "dist_type (su_wm s) = ROUND_ROBIN"
    by (simp_all add: su_ok_def)
  from boot_dispatch_put [OF this, of ok fd, unfolded assms(2)] obtain j where
      j: "bs = (su_boots s)[j := snd (boot_add ok fd (su_boots s ! j))]" "j < length (su_boots s)"
        "dist_type wm = ROUND_ROBIN" "pool_ok (wm\<lparr>workers := map boot_thr bs\<rparr>)"
    by (metis Inr_inject length_list_update prod.inject)
  have "boot_calm (su_boots s ! j)" using assms(1) j(2) by (simp add: su_ok_def list_all_length)
  note b = boot_add_calm [OF this, of ok fd]
  have "(\<Sum>b\<leftarrow>bs. held_fds (boot_thr b)) = (\<Sum>b\<leftarrow>su_boots s. held_fds (boot_thr b)) + {#fd#}"
    unfolding j(1) using b by (intro sum_held_update [OF j(2)]) simp
  moreover have "list_all boot_calm bs" using assms(1) b unfolding j(1) by (simp add: su_ok_def list_all_update)
  ultimately show ?thesis using assms(1) j(3,4) by (simp add: su_ok_def)
qed

lemma data_keeps_ok:
  assumes "su_ok s" and "i < length (su_boots s)" and "e \<in> set (watched (derived (boot_thr (su_boots s ! i))))"
    and "worker_event ser par alloc_ok w e ev rs (su_srv s) (derived (boot_thr (su_boots s ! i))) = Inr (srv, wk, out)"
  shows "su_ok (s\<lparr>su_srv := srv, su_boots := (su_boots s)
    [i := (su_boots s ! i)\<lparr>boot_thr := (boot_thr (su_boots s ! i))\<lparr>derived := wk\<rparr>\<rparr>]\<rparr>)"
proof -
  let ?b = "su_boots s ! i"
  have c: "boot_calm ?b" using assms(1,2) by (simp add: su_ok_def list_all_length)
  then have "worker_ok (derived (boot_thr ?b))" by (simp add: boot_calm_def calm_def)
  note t = event_thread [OF this assms(3,4)]
  have "held_fds ((boot_thr ?b)\<lparr>derived := wk\<rparr>) = held_fds (boot_thr ?b)"
    using t(2) by (simp add: held_fds_def live_fds_def ac_simps)
  then have "(\<Sum>b\<leftarrow>(su_boots s)[i := ?b\<lparr>boot_thr := (boot_thr ?b)\<lparr>derived := wk\<rparr>\<rparr>]. held_fds (boot_thr b)) =
      (\<Sum>b\<leftarrow>su_boots s. held_fds (boot_thr b))"
    using sum_held_update [OF assms(2), of "\<lambda>b. held_fds (boot_thr b)" "?b\<lparr>boot_thr := (boot_thr ?b)\<lparr>derived := wk\<rparr>\<rparr>" "{#}"]
    by simp
  moreover have "boot_calm (?b\<lparr>boot_thr := (boot_thr ?b)\<lparr>derived := wk\<rparr>\<rparr>)"
    using c t(1) by (simp add: boot_calm_def calm_def boot_ok_def)
  moreover have "server_ok srv" using worker_event_server_ok [OF assms(4)] assms(1) by (simp add: su_ok_def)
  ultimately show ?thesis
    using assms(1) by (auto simp: su_ok_def list_all_update map_update pool_ok_def)
qed

lemma su_step_ok: "su_step ser par alloc_ok s s' \<Longrightarrow> su_ok s \<Longrightarrow> su_ok s'"
  by (induction rule: su_step.induct) (auto intro: own_keeps_ok accept_keeps_ok data_keeps_ok)

lemma su_run_ok: "su_run ser par alloc_ok s0 s \<Longrightarrow> su_ok s0 \<Longrightarrow> su_ok s"
  by (induction rule: su_run.induct) (auto intro: su_step_ok)

lemma su_start_ok:
  assumes "server_start F srand True (new_tcp_server n ip p b) d0 = Inr (tcp, d)" and "n \<noteq> 0" and "dict_ok d"
  shows "su_ok (su_start tcp d)" and "su_system tcp (su_start tcp d) = started tcp d"
    and "su_boots (su_start tcp d) = replicate (unat n) (boot_start new_worker)"
proof -
  let ?wm = "initWorkers new_worker (new_worker_manager (uint n) ROUND_ROBIN)"
  have tcp: "event_dispatcher tcp = Some ?wm"
    using server_start_dispatcher [OF assms(1)] by (simp add: new_tcp_server_def)
  have w: "workers ?wm = replicate (unat n) (new_service_thread new_worker)"
    by (simp add: initWorkers_def new_worker_manager_def)
  have n: "0 < uint n" "uint n \<le> int_max"
    using assms(2) uint_bounded [of n] by (simp_all add: int_max_def word_neq_0_conv word_less_def)
  show boots: "su_boots (su_start tcp d) = replicate (unat n) (boot_start new_worker)"
    by (simp add: su_start_def tcp w boot_start_def)
  have m: "map boot_thr (su_boots (su_start tcp d)) = workers ?wm"
    by (simp add: boots w boot_start_def)
  have "pool_ok (?wm\<lparr>workers := workers ?wm\<rparr>)"
    using initWorkers_pool_ok [OF n, of new_worker ROUND_ROBIN] by simp
  then have "pool_ok ((su_wm (su_start tcp d))\<lparr>workers := map boot_thr (su_boots (su_start tcp d))\<rparr>)"
    unfolding m by (simp add: su_start_def tcp)
  moreover have "boot_calm (boot_start new_worker)"
    using new_thread_ok by (simp add: boot_calm_def boot_start_ok thread_ok_calm)
      (simp add: boot_start_def new_service_thread_def thread_ok_calm)
  moreover have "(\<Sum>b\<leftarrow>replicate k (boot_start new_worker). held_fds (boot_thr b)) = {#}" for k
    by (induction k) (simp_all add: boot_start_def)
  moreover have "dist_type ?wm = ROUND_ROBIN" by (simp add: initWorkers_def new_worker_manager_def)
  ultimately show "su_ok (su_start tcp d)"
    using assms(3) boots by (simp add: su_ok_def list_all_iff) (simp add: su_start_def tcp server_ok_def stats_balanced_new)
  have "?wm\<lparr>workers := workers ?wm\<rparr> = ?wm" by simp
  then have "tcp\<lparr>event_dispatcher := Some ((su_wm (su_start tcp d))\<lparr>workers := map boot_thr (su_boots (su_start tcp d))\<rparr>)\<rparr> = tcp"
    unfolding m using tcp by (simp add: su_start_def)
  then show "su_system tcp (su_start tcp d) = started tcp d"
    by (simp add: su_system_def started_def) (simp add: su_start_def)
qed

section \<open>A start without stray bytes\<close>

definition no_stray :: "'d startup \<Rightarrow> bool" where
  "no_stray s \<longleftrightarrow> list_all (\<lambda>b. stray b = []) (su_boots s)"

lemma own_step_stray: "own_step pe cs app b b' \<Longrightarrow> stray b' = stray b"
  by (induction rule: own_step.induct) simp_all

lemma boot_add_stray:
  "stray (snd (boot_add ok fd b)) = [] \<Longrightarrow> stray b = [] \<and> boot_thr (snd (boot_add ok fd b)) = snd (addFdToEvLoop ok fd (boot_thr b))"
  by (auto simp: boot_add_def boot_write_def addFdToEvLoop_def Let_def split: if_splits)

lemma stray_update:
  assumes "list_all (\<lambda>b. stray b = []) (bs[i := b])" and "i < length bs" and "stray b = [] \<Longrightarrow> stray (bs ! i) = []"
  shows "list_all (\<lambda>b. stray b = []) bs"
  unfolding list_all_length
proof (intro allI impI)
  fix j
  assume "j < length bs"
  with assms show "stray (bs ! j) = []"
    by (cases "j = i") (auto simp: list_all_length nth_list_update split: if_splits)
qed

lemma accept_system:
  assumes "su_ok s" and "accepted [env] = [fd]" and "boot_dispatch ok fd (su_wm s) (su_boots s) = Inr (wm, bs)"
    and "list_all (\<lambda>b. stray b = []) bs"
  shows "no_stray s" and "perform ser par alloc_ok (Accept ok env) (su_system tcp s) =
    Inr (su_system tcp (s\<lparr>su_wm := wm, su_boots := bs, su_accepted := su_accepted s @ [fd]\<rparr>), [])"
proof -
  from assms(1) have p: "pool_ok ((su_wm s)\<lparr>workers := map boot_thr (su_boots s)\<rparr>)" "dist_type (su_wm s) = ROUND_ROBIN"
    by (simp_all add: su_ok_def)
  obtain j where j: "bs = (su_boots s)[j := snd (boot_add ok fd (su_boots s ! j))]" "j < length (su_boots s)"
        "dispatchFd ok fd ((su_wm s)\<lparr>workers := map boot_thr (su_boots s)\<rparr>) = Inr (wm\<lparr>workers :=
          (map boot_thr (su_boots s))[j := snd (addFdToEvLoop ok fd (boot_thr (su_boots s ! j)))]\<rparr>)"
    using boot_dispatch_put [OF p, of ok fd, unfolded assms(3)] by (metis Inr_inject prod.inject)
  have "stray (snd (boot_add ok fd (su_boots s ! j))) = []"
    using set_update_memI [OF j(2)] assms(4) unfolding j(1) list_all_iff by blast
  note b = boot_add_stray [OF this]
  show "no_stray s"
    using stray_update [OF assms(4) [unfolded j(1)] j(2)] b by (simp add: no_stray_def)
  have "map boot_thr bs = (map boot_thr (su_boots s))[j := snd (addFdToEvLoop ok fd (boot_thr (su_boots s ! j)))]"
    using b by (simp add: j(1) map_update)
  then show "perform ser par alloc_ok (Accept ok env) (su_system tcp s) =
      Inr (su_system tcp (s\<lparr>su_wm := wm, su_boots := bs, su_accepted := su_accepted s @ [fd]\<rparr>), [])"
    using j(3) assms(2) onAccept_accepted(2) [of env]
    by (simp add: onAccept_accepted(1) ServerCallback_def su_system_def del: rbind_Inr_iff)
qed

text \<open>Each step is then a step of the running server, or one that it does not see.\<close>

lemma su_step_system:
  assumes "su_step ser par alloc_ok s s'" and "su_ok s" and "no_stray s'"
  shows "no_stray s \<and> (su_system tcp s' = su_system tcp s \<or>
    (\<exists>a out. enabled (su_system tcp s) a \<and> perform ser par alloc_ok a (su_system tcp s) = Inr (su_system tcp s', out)))"
  using assms(1)
proof cases
  case (su_own i np b)
  let ?b = "su_boots s ! i"
  have st: "stray b = stray ?b" by (rule own_step_stray [OF su_own(4)])
  have "no_stray s"
    using assms(3) su_own(1) st by (intro stray_update [OF _ su_own(2), of b, folded no_stray_def]) (simp_all add: no_stray_def)
  moreover have c: "\<not> loop_exit (boot_thr ?b)"
    using assms(2) su_own(2) by (simp add: su_ok_def list_all_length boot_calm_def)
  have "boot_thr b = boot_thr ?b \<or> boot_thr b = onEvent (worker_processEvent np) worker_cleanState (boot_thr ?b)"
    using su_own(4) c by cases auto
  then have "su_system tcp s' = su_system tcp s \<or>
      perform ser par alloc_ok (Wake i np) (su_system tcp s) = Inr (su_system tcp s', [])"
  proof
    assume "boot_thr b = boot_thr ?b"
    then have "map boot_thr ((su_boots s)[i := b]) = map boot_thr (su_boots s)"
      by (metis list_update_id map_update)
    then show ?thesis by (simp add: su_own(1) su_system_def)
  next
    assume "boot_thr b = onEvent (worker_processEvent np) worker_cleanState (boot_thr ?b)"
    then show ?thesis using su_own(2) by (simp add: su_own(1) su_system_put elem_at_def)
  qed
  moreover have "enabled (su_system tcp s) (Wake i np)" using su_own(2,3) by simp
  ultimately show ?thesis by blast
next
  case (su_refuse env)
  with assms(3) show ?thesis by simp
next
  case (su_accept env fd ok wm bs)
  have "list_all (\<lambda>b. stray b = []) bs" using assms(3) su_accept(1) by (simp add: no_stray_def)
  note a = accept_system(1) [OF assms(2) su_accept(2,3) this]
    accept_system(2) [where ser = ser and par = par and alloc_ok = alloc_ok and tcp = tcp, OF assms(2) su_accept(2,3) this]
  then have "perform ser par alloc_ok (Accept ok env) (su_system tcp s) = Inr (su_system tcp s', [])"
    by (simp only: su_accept(1))
  with a(1) show ?thesis by (metis enabled.simps(1))
next
  case (su_data i e w ev rs srv wk out)
  let ?b = "su_boots s ! i"
  define b where "b = ?b\<lparr>boot_thr := (boot_thr ?b)\<lparr>derived := wk\<rparr>\<rparr>"
  have b: "stray b = stray ?b" "boot_thr b = (boot_thr ?b)\<lparr>derived := wk\<rparr>" by (simp_all add: b_def)
  have s': "s' = s\<lparr>su_srv := srv, su_boots := (su_boots s)[i := b]\<rparr>" by (simp add: su_data(1) b_def)
  have "no_stray s"
    using assms(3) s' b(1) by (intro stray_update [OF _ su_data(2), of b, folded no_stray_def]) (simp_all add: no_stray_def)
  moreover have "perform ser par alloc_ok (Data i e ev rs w) (su_system tcp s) = Inr (su_system tcp s', out)"
    using su_data(2,5) b(2) by (simp add: s' su_system_put elem_at_def)
  moreover have "enabled (su_system tcp s) (Data i e ev rs w)" using su_data(2,4) by simp
  ultimately show ?thesis by blast
qed

lemma su_run_system:
  assumes "su_run ser par alloc_ok s0 s" and "su_ok s0" and "no_stray s"
  shows "sys_run ser par alloc_ok (su_system tcp s0) (su_system tcp s)"
  using assms
proof (induction rule: su_run.induct)
  case su_begin
  then show ?case by (simp add: sys_start)
next
  case (su_next s s')
  note st = su_step_system [OF su_next.hyps(2) su_run_ok [OF su_next.hyps(1) su_next.prems(1)] su_next.prems(2), of tcp]
  then have "sys_run ser par alloc_ok (su_system tcp s0) (su_system tcp s)"
    using su_next.IH su_next.prems(1) by blast
  with st show ?case by (metis sys_step)
qed

section \<open>Every run of the running server\<close>

text \<open>A server all of whose workers are in their loops does every step of the running server.\<close>

definition all_looping :: "'d startup \<Rightarrow> bool" where
  "all_looping s \<longleftrightarrow> list_all (\<lambda>b. boot_at b = B_loop \<and> stray b = []) (su_boots s)"

lemma all_looping_put:
  "all_looping s \<Longrightarrow> boot_at b = B_loop \<Longrightarrow> stray b = [] \<Longrightarrow> list_all (\<lambda>b. boot_at b = B_loop \<and> stray b = []) ((su_boots s)[i := b])"
  unfolding all_looping_def by (rule list_all_update) simp_all

lemma accept_su:
  assumes "su_ok s" and "all_looping s" and "enabled (su_system tcp s) (Accept ok env)"
    and "perform ser par alloc_ok (Accept ok env) (su_system tcp s) = Inr (x, out)"
  shows "\<exists>s'. (s' = s \<or> su_step ser par alloc_ok s s') \<and> all_looping s' \<and> su_system tcp s' = x"
proof -
  show ?thesis
  proof (cases "accepted [env] = []")
    case True
    with assms(4) have "x = su_system tcp s" by (simp add: onAccept_accepted(1) su_system_def)
    with assms(2) show ?thesis by blast
  next
    case False
    then have fd: "accepted [env] = [a_accept env]" using onAccept_accepted(2) [of env] by simp
    from assms(1) have p: "pool_ok ((su_wm s)\<lparr>workers := map boot_thr (su_boots s)\<rparr>)" "dist_type (su_wm s) = ROUND_ROBIN"
      by (simp_all add: su_ok_def)
    obtain wm j where d: "boot_dispatch ok (a_accept env) (su_wm s) (su_boots s) =
        Inr (wm, (su_boots s)[j := snd (boot_add ok (a_accept env) (su_boots s ! j))])" "j < length (su_boots s)"
      using boot_dispatch_put [OF p] by blast
    let ?bs = "(su_boots s)[j := snd (boot_add ok (a_accept env) (su_boots s ! j))]"
    let ?s = "s\<lparr>su_wm := wm, su_boots := ?bs, su_accepted := su_accepted s @ [a_accept env]\<rparr>"
    have "boot_at (su_boots s ! j) = B_loop" "stray (su_boots s ! j) = []"
      using assms(2) d(2) by (simp_all add: all_looping_def list_all_length)
    then have l: "all_looping ?s"
      using all_looping_put [OF assms(2), of "snd (boot_add ok (a_accept env) (su_boots s ! j))" j]
      by (simp add: all_looping_def boot_add_def boot_write_def has_pair_def Let_def)
    then have "list_all (\<lambda>b. stray b = []) ?bs" by (simp add: all_looping_def list_all_iff)
    from accept_system(2) [OF assms(1) fd d(1) this, of ser par alloc_ok tcp] assms(4) have "x = su_system tcp ?s"
      by (simp del: perform.simps)
    with su_accept [OF fd d(1), of ser par alloc_ok] l show ?thesis by blast
  qed
qed

lemma wake_su:
  assumes "su_ok s" and "all_looping s" and "enabled (su_system tcp s) (Wake i np)"
    and "perform ser par alloc_ok (Wake i np) (su_system tcp s) = Inr (x, out)"
  shows "\<exists>s'. (s' = s \<or> su_step ser par alloc_ok s s') \<and> all_looping s' \<and> su_system tcp s' = x"
proof -
  have i: "i < length (su_boots s)" "flow_allocator np" using assms(3) by simp_all
  let ?b = "su_boots s ! i"
  let ?c = "?b\<lparr>boot_thr := onEvent (worker_processEvent np) worker_cleanState (boot_thr ?b)\<rparr>"
  have b: "boot_at ?b = B_loop" "stray ?b = []"
    using assms(2) i(1) by (simp_all add: all_looping_def list_all_length)
  have x: "x = su_system tcp (s\<lparr>su_boots := (su_boots s)[i := ?c]\<rparr>)"
    using assms(4) i(1) by (simp add: su_system_put elem_at_def)
  show ?thesis
  proof (cases "pipe_bytes (boot_thr ?b)")
    case Nil
    then have "?c = ?b" by (simp add: wake_empty)
    then have "x = su_system tcp s" by (simp add: x)
    with assms(2) show ?thesis by blast
  next
    case Cons
    then have "own_step (worker_processEvent np) worker_cleanState Some ?b ?c" by (intro b_event [OF b(1)]) simp
    from su_own [OF i this] all_looping_put [OF assms(2), of ?c i] b x show ?thesis
      by (intro exI [of _ "s\<lparr>su_boots := (su_boots s)[i := ?c]\<rparr>"]) (simp add: all_looping_def)
  qed
qed

lemma data_su:
  assumes "su_ok s" and "all_looping s" and "enabled (su_system tcp s) (Data i e ev rs w)"
    and "perform ser par alloc_ok (Data i e ev rs w) (su_system tcp s) = Inr (x, out)"
  shows "\<exists>s'. (s' = s \<or> su_step ser par alloc_ok s s') \<and> all_looping s' \<and> su_system tcp s' = x"
proof -
  have i: "i < length (su_boots s)" "e \<in> set (watched (derived (boot_thr (su_boots s ! i))))"
    using assms(3) by (auto simp: nth_map)
  let ?b = "su_boots s ! i"
  have b: "boot_at ?b = B_loop" "stray ?b = []"
    using assms(2) i(1) by (simp_all add: all_looping_def list_all_length)
  obtain srv wk where e: "worker_event ser par alloc_ok w e ev rs (su_srv s) (derived (boot_thr ?b)) = Inr (srv, wk, out)"
      "x = (put_worker i ((boot_thr ?b)\<lparr>derived := wk\<rparr>) (su_system tcp s))\<lparr>sys_srv := srv\<rparr>"
    using assms(4) i(1) by (auto simp: elem_at_def)
  let ?c = "?b\<lparr>boot_thr := (boot_thr ?b)\<lparr>derived := wk\<rparr>\<rparr>"
  have "x = su_system tcp (s\<lparr>su_srv := srv, su_boots := (su_boots s)[i := ?c]\<rparr>)"
    using e(2) by (simp add: su_system_put)
  with su_data [OF i(1) b(1) i(2) e(1)] all_looping_put [OF assms(2), of ?c i] b show ?thesis
    by (intro exI [of _ "s\<lparr>su_srv := srv, su_boots := (su_boots s)[i := ?c]\<rparr>"]) (simp add: all_looping_def)
qed

lemma system_step_su:
  assumes "su_ok s" and "all_looping s" and "enabled (su_system tcp s) a"
    and "perform ser par alloc_ok a (su_system tcp s) = Inr (x, out)"
  shows "\<exists>s'. (s' = s \<or> su_step ser par alloc_ok s s') \<and> all_looping s' \<and> su_system tcp s' = x"
proof (cases a)
  case (Accept ok env)
  show ?thesis by (rule accept_su [OF assms(1,2) assms(3,4) [unfolded Accept]])
next
  case (Wake i np)
  show ?thesis by (rule wake_su [OF assms(1,2) assms(3,4) [unfolded Wake]])
next
  case (Data i e ev rs w)
  show ?thesis by (rule data_su [OF assms(1,2) assms(3,4) [unfolded Data]])
qed

lemma system_run_su:
  assumes "sys_run ser par alloc_ok (su_system tcp s1) x" and "su_run ser par alloc_ok s0 s1" and "su_ok s0" and "all_looping s1"
  shows "\<exists>s. su_run ser par alloc_ok s0 s \<and> all_looping s \<and> su_system tcp s = x"
  using assms(1)
proof (induction rule: sys_run.induct)
  case sys_start
  with assms(2,4) show ?case by blast
next
  case (sys_step x a x' out)
  then obtain s where s: "su_run ser par alloc_ok s0 s" "all_looping s" "su_system tcp s = x" by blast
  from system_step_su [OF su_run_ok [OF s(1) assms(3)] s(2), of tcp a ser par alloc_ok x' out] sys_step.hyps(2,3) s
  show ?case by (metis su_next)
qed

text \<open>All workers can start, one after the other.\<close>

lemma su_boot_worker:
  assumes "i < length (su_boots s)" and "boot_at (su_boots s ! i) = B_begin"
  shows "(su_step ser par alloc_ok)\<^sup>*\<^sup>* s (s\<lparr>su_boots := (su_boots s)[i := (su_boots s ! i)\<lparr>boot_at := B_loop\<rparr>]\<rparr>)"
proof -
  let ?R = "own_step (worker_processEvent bump_ptr) worker_cleanState Some"
  have lift: "?R\<^sup>*\<^sup>* (su_boots s ! i) b \<Longrightarrow> (su_step ser par alloc_ok)\<^sup>*\<^sup>* s (s\<lparr>su_boots := (su_boots s)[i := b]\<rparr>)" for b
  proof (induction rule: rtranclp_induct)
    case base
    then show ?case by simp
  next
    case (step b c)
    have "su_step ser par alloc_ok (s\<lparr>su_boots := (su_boots s)[i := b]\<rparr>)
        ((s\<lparr>su_boots := (su_boots s)[i := b]\<rparr>)\<lparr>su_boots := (su_boots (s\<lparr>su_boots := (su_boots s)[i := b]\<rparr>))[i := c]\<rparr>)"
      using step.hyps(2) assms(1) by (intro su_own [where np = bump_ptr]) (simp_all add: bump.flow_allocator_axioms)
    with step.IH show ?case by (simp add: rtranclp.rtrancl_into_rtrancl)
  qed
  from run_start_steps [where new_ok = True and ev_ok = True and pair_ok = True and initApp = Some and
      processEvent = "worker_processEvent bump_ptr" and cleanState = worker_cleanState, OF assms(2)]
  have "?R\<^sup>*\<^sup>* (su_boots s ! i) ((su_boots s ! i)\<lparr>boot_at := B_loop\<rparr>)" by (simp add: run_start_def)
  then show ?thesis by (rule lift)
qed

lemma su_boot_all:
  assumes "list_all (\<lambda>b. boot_at b = B_begin \<and> stray b = []) (su_boots s)"
  shows "\<exists>s'. (su_step ser par alloc_ok)\<^sup>*\<^sup>* s s' \<and> all_looping s' \<and> su_system tcp s' = su_system tcp s"
proof -
  let ?f = "\<lambda>b :: worker boot. b\<lparr>boot_at := B_loop\<rparr>" and ?n = "length (su_boots s)"
  let ?g = "\<lambda>k. map ?f (take k (su_boots s)) @ drop k (su_boots s)"
  have "k \<le> ?n \<Longrightarrow> (su_step ser par alloc_ok)\<^sup>*\<^sup>* s (s\<lparr>su_boots := ?g k\<rparr>)" for k
  proof (induction k)
    case 0
    then show ?case by simp
  next
    case (Suc k)
    then have k: "k < ?n" by simp
    have nth: "?g k ! k = su_boots s ! k" using k by (simp add: nth_append)
    have "(?g k)[k := ?f (su_boots s ! k)] = ?g (Suc k)"
      using k by (simp add: list_update_append take_Suc_conv_app_nth) (metis Cons_nth_drop_Suc list_update_code(2))
    moreover have "boot_at (su_boots s ! k) = B_begin" using assms k by (simp add: list_all_length)
    then have "(su_step ser par alloc_ok)\<^sup>*\<^sup>* (s\<lparr>su_boots := ?g k\<rparr>)
        ((s\<lparr>su_boots := ?g k\<rparr>)\<lparr>su_boots := (?g k)[k := ?f (su_boots s ! k)]\<rparr>)"
      using su_boot_worker [of k "s\<lparr>su_boots := ?g k\<rparr>" ser par alloc_ok] k nth by simp
    ultimately show ?case using Suc by (simp add: rtranclp_trans)
  qed
  from this [of ?n] have "(su_step ser par alloc_ok)\<^sup>*\<^sup>* s (s\<lparr>su_boots := map ?f (su_boots s)\<rparr>)" by simp
  moreover have "all_looping (s\<lparr>su_boots := map ?f (su_boots s)\<rparr>)"
    using assms by (simp add: all_looping_def list_all_iff)
  ultimately show ?thesis by (intro exI [of _ "s\<lparr>su_boots := map ?f (su_boots s)\<rparr>"]) (simp add: su_system_def)
qed

lemma su_run_steps: "(su_step ser par alloc_ok)\<^sup>*\<^sup>* s s' \<Longrightarrow> su_run ser par alloc_ok s0 s \<Longrightarrow> su_run ser par alloc_ok s0 s'"
  by (induction rule: rtranclp_induct) (auto intro: su_next)

section \<open>Properties\<close>

text \<open>C33: a start in which no wake-up byte goes astray is the running server from its beginning: the states that are
  reached, whenever the threads of the workers get ready and whether or not all of them do, are exactly those of the
  system that takes all workers to be in their loops before the first connection comes.\<close>

theorem startup_is_running_server:
  assumes "server_start F srand True (new_tcp_server n ip p b) d0 = Inr (tcp, d)" and "n \<noteq> 0" and "dict_ok d"
  shows "sys_run ser par alloc_ok (started tcp d) x \<longleftrightarrow>
    (\<exists>s. su_run ser par alloc_ok (su_start tcp d) s \<and> (\<forall>b \<in> set (su_boots s). stray b = []) \<and> su_system tcp s = x)"
proof
  note st = su_start_ok [OF assms]
  assume x: "sys_run ser par alloc_ok (started tcp d) x"
  have "list_all (\<lambda>b. boot_at b = B_begin \<and> stray b = []) (su_boots (su_start tcp d))"
    by (simp add: st(3) list_all_iff boot_start_def)
  from su_boot_all [OF this, of ser par alloc_ok tcp] obtain s1 where
      s1: "(su_step ser par alloc_ok)\<^sup>*\<^sup>* (su_start tcp d) s1" "all_looping s1" "su_system tcp s1 = started tcp d"
    unfolding st(2) by blast
  have r: "su_run ser par alloc_ok (su_start tcp d) s1" by (rule su_run_steps [OF s1(1) su_begin])
  from system_run_su [OF _ r st(1) s1(2), of tcp x] x s1(3)
  show "\<exists>s. su_run ser par alloc_ok (su_start tcp d) s \<and> (\<forall>b \<in> set (su_boots s). stray b = []) \<and> su_system tcp s = x"
    by (auto simp: all_looping_def list_all_iff)
next
  note st = su_start_ok [OF assms]
  assume "\<exists>s. su_run ser par alloc_ok (su_start tcp d) s \<and> (\<forall>b \<in> set (su_boots s). stray b = []) \<and> su_system tcp s = x"
  then obtain s where s: "su_run ser par alloc_ok (su_start tcp d) s" "\<forall>b \<in> set (su_boots s). stray b = []" "su_system tcp s = x"
    by blast
  have "no_stray s" using s(2) by (simp add: no_stray_def list_all_iff)
  from su_run_system [OF s(1) st(1) this, of tcp] s(3) show "sys_run ser par alloc_ok (started tcp d) x"
    by (simp add: st(2))
qed

text \<open>Stray bytes or not, no descriptor is lost: each that has been accepted is queued, registered or closed, once; and a
  queued one without a wake-up byte in the socket pair has one among the stray ones.\<close>

theorem no_descriptor_lost_at_start:
  assumes "server_start F srand True (new_tcp_server n ip p b) d0 = Inr (tcp, d)" and "n \<noteq> 0" and "dict_ok d"
    and "su_run ser par alloc_ok (su_start tcp d) s"
  shows "mset (su_accepted s) = (\<Sum>b\<leftarrow>su_boots s. held_fds (boot_thr b)) \<and>
    (\<forall>b \<in> set (su_boots s). fd_queue (boot_thr b) \<noteq> [] \<longrightarrow> pipe_bytes (boot_thr b) \<noteq> [] \<or> CHR ''c'' \<in> set (stray b))"
proof -
  have "su_ok s" by (rule su_run_ok [OF assms(4) su_start_ok(1) [OF assms(1-3)]])
  then show ?thesis by (fastforce simp: su_ok_def list_all_iff boot_calm_def boot_ok_def)
qed

theorem startup_is_running_server_witness:
  "\<exists>tcp (d :: real option dictionary) s.
    server_start const_fpu (\<lambda>_ _. 7) True (new_tcp_server 2 ''h'' 1 False) new_dictionary = Inr (tcp, d) \<and>
    su_run wire_ser wire_par (\<lambda>_. True) (su_start tcp d) s \<and> su_accepted s = [10] \<and> (\<forall>b \<in> set (su_boots s). stray b = [])"
proof -
  obtain tcp and d :: "real option dictionary" where
      s: "server_start const_fpu (\<lambda>_ _. 7) True (new_tcp_server 2 ''h'' 1 False) new_dictionary = Inr (tcp, d)"
      and d: "d = new_dictionary"
    by (simp add: server_start_def initWorkerManager_def enableBloomFilter_def new_tcp_server_def new_dictionary_def
        Let_def)
  have two: "(2 :: u16) \<noteq> 0" and dict: "dict_ok d" by (simp_all add: d new_dictionary_ok)
  have a: "accepted [sample_accept 10] = [10]" by (simp add: accepted_def sample_accept_def O_NONBLOCK_def)
  obtain x where x: "perform wire_ser wire_par (\<lambda>_. True) (Accept True (sample_accept 10)) (started tcp d) = Inr (x, [])"
      "sys_accepted x = [10]"
    using accept_result(2) [OF started_ok(1) [OF s two dict], of "sample_accept 10" wire_ser wire_par "\<lambda>_. True" True] a
    by (auto simp: started_def sample_accept_def)
  have "sys_run wire_ser wire_par (\<lambda>_. True) (started tcp d) x"
    using sys_step [OF sys_start _ x(1)] by simp
  then obtain r where "su_run wire_ser wire_par (\<lambda>_. True) (su_start tcp d) r" "\<forall>b \<in> set (su_boots r). stray b = []"
      "su_system tcp r = x"
    unfolding startup_is_running_server [OF s two dict] by blast
  with s x(2) show ?thesis by (metis su_system_simps(2))
qed

theorem no_descriptor_lost_at_start_witness:
  "\<exists>tcp (d :: real option dictionary) s.
    server_start const_fpu (\<lambda>_ _. 7) True (new_tcp_server 2 ''h'' 1 False) new_dictionary = Inr (tcp, d) \<and>
    su_run wire_ser wire_par (\<lambda>_. True) (su_start tcp d) s \<and> {#10#} = (\<Sum>b\<leftarrow>su_boots s. held_fds (boot_thr b)) \<and>
    (\<forall>b \<in> set (su_boots s). boot_at b = B_begin)"
proof -
  obtain tcp and d :: "real option dictionary" where
      s: "server_start const_fpu (\<lambda>_ _. 7) True (new_tcp_server 2 ''h'' 1 False) new_dictionary = Inr (tcp, d)"
      and d: "d = new_dictionary"
    by (simp add: server_start_def initWorkerManager_def enableBloomFilter_def new_tcp_server_def new_dictionary_def
        Let_def)
  have two: "(2 :: u16) \<noteq> 0" and dict: "dict_ok d" by (simp_all add: d new_dictionary_ok)
  note st = su_start_ok [OF s two dict]
  have a: "accepted [sample_accept 10] = [10]" by (simp add: accepted_def sample_accept_def O_NONBLOCK_def)
  obtain wm j where j: "boot_dispatch True 10 (su_wm (su_start tcp d)) (su_boots (su_start tcp d)) =
      Inr (wm, (su_boots (su_start tcp d))[j := snd (boot_add True 10 (su_boots (su_start tcp d) ! j))])"
      "j < length (su_boots (su_start tcp d))"
    using boot_dispatch_put [where wm = "su_wm (su_start tcp d)" and bs = "su_boots (su_start tcp d)" and ok = True and fd = 10]
      st(1) unfolding su_ok_def by blast
  note step = su_accept [OF a j(1), of wire_ser wire_par "\<lambda>_. True"]
  define r where "r = (su_start tcp d)\<lparr>su_wm := wm, su_boots := (su_boots (su_start tcp d))
      [j := snd (boot_add True 10 (su_boots (su_start tcp d) ! j))], su_accepted := su_accepted (su_start tcp d) @ [10]\<rparr>"
  have run: "su_run wire_ser wire_par (\<lambda>_. True) (su_start tcp d) r"
    using su_next [OF su_begin step] by (simp add: r_def)
  have "su_accepted r = [10]" by (simp add: r_def su_start_def)
  then have "{#10#} = (\<Sum>b\<leftarrow>su_boots r. held_fds (boot_thr b))"
    using no_descriptor_lost_at_start [OF s two dict run] by simp
  moreover have "\<forall>b \<in> set (su_boots r). boot_at b = B_begin"
    using j(2) by (auto simp: r_def st(3) boot_start_def dest!: set_update_subset_insert [THEN subsetD])
  ultimately show ?thesis using s run by blast
qed

end
