(* ===== verification/Network.thy ===== *)
theory Network
  imports ServerSystem
begin

text \<open>
  The running server with clients that send one request each: a specification in which a request is executed at
  once, when its last byte arrives, and the proof that the server with its workers, queues, sessions and
  reassembly buffers implements it. A client may connect at any time, its request arrives in pieces that the
  handler can deal with, and it may close its connection at any time; further bytes after the request are not
  considered here (they are in \<open>TcpFlow\<close>).
\<close>

section \<open>Clients that send one request each\<close>

text \<open>
  A connection and what has arrived on it: the first \<open>k\<close> bytes of the frame of its request, or all of it, so that
  it has been answered. The log has the answered requests in the order in which they were completed, with the
  bytes sent.
\<close>

datatype phase = Receiving nat | Answered

record 'd net =
  net_sys :: "'d system"
  net_conns :: "fd \<rightharpoonup> payload \<times> phase"
  net_log :: "(fd \<times> payload \<times> byte list) list"

definition servable :: "(payload \<Rightarrow> byte list) \<Rightarrow> (u32 \<Rightarrow> bool) \<Rightarrow> payload \<Rightarrow> bool" where
  "servable ser alloc_ok q \<longleftrightarrow> pb_requesttype q \<noteq> None \<and> fits (ser q) \<and> alloc_ok (word_of_nat (length (ser q)))"

text \<open>
  A piece of the frame that the flow can deal with: at most \<open>NUM_READ_TRY\<close> chunks, the first one of the connection longer
  than the header, and either all that is missing or leaving more than the last four bytes missing.
\<close>

definition good_piece :: "byte list \<Rightarrow> nat \<Rightarrow> byte list list \<Rightarrow> byte list \<Rightarrow> bool" where
  "good_piece msg k cs rest \<longleftrightarrow> drop k (frame msg) = concat cs @ rest \<and> length cs \<le> num_read_try \<and>
     starts_well k cs \<and> (rest = [] \<or> k + length (concat cs) < length msg)"

inductive net_step ::
  "(payload \<Rightarrow> byte list) \<Rightarrow> (byte list \<Rightarrow> bool \<times> payload) \<Rightarrow> (u32 \<Rightarrow> bool) \<Rightarrow> 'd net \<Rightarrow> 'd net \<Rightarrow> bool"
  for ser par alloc_ok where
  net_accept: "accepted [env] = [fd] \<Longrightarrow> net_conns N fd = None \<Longrightarrow> servable ser alloc_ok q \<Longrightarrow>
    perform ser par alloc_ok (Accept True env) (net_sys N) = Inr (s', out) \<Longrightarrow>
    net_step ser par alloc_ok N (N\<lparr>net_sys := s', net_conns := (net_conns N)(fd \<mapsto> (q, Receiving 0))\<rparr>)"
| net_refuse: "accepted [env] = [] \<Longrightarrow>
    perform ser par alloc_ok (Accept True env) (net_sys N) = Inr (s', out) \<Longrightarrow>
    net_step ser par alloc_ok N (N\<lparr>net_sys := s'\<rparr>)"
| net_wake: "enabled (net_sys N) (Wake i np) \<Longrightarrow>
    perform ser par alloc_ok (Wake i np) (net_sys N) = Inr (s', out) \<Longrightarrow>
    net_step ser par alloc_ok N (N\<lparr>net_sys := s'\<rparr>)"
| net_piece: "enabled (net_sys N) (Data i (fd, a) EV_READ (map Read_data cs) w) \<Longrightarrow>
    net_conns N fd = Some (q, Receiving k) \<Longrightarrow> good_piece (ser q) k cs rest \<Longrightarrow> rest \<noteq> [] \<Longrightarrow> writable w \<Longrightarrow>
    perform ser par alloc_ok (Data i (fd, a) EV_READ (map Read_data cs) w) (net_sys N) = Inr (s', out) \<Longrightarrow>
    net_step ser par alloc_ok N
      (N\<lparr>net_sys := s', net_conns := (net_conns N)(fd \<mapsto> (q, Receiving (k + length (concat cs))))\<rparr>)"
| net_last: "enabled (net_sys N) (Data i (fd, a) EV_READ (map Read_data cs) w) \<Longrightarrow>
    net_conns N fd = Some (q, Receiving k) \<Longrightarrow> good_piece (ser q) k cs [] \<Longrightarrow> writable w \<Longrightarrow>
    perform ser par alloc_ok (Data i (fd, a) EV_READ (map Read_data cs) w) (net_sys N) = Inr (s', out) \<Longrightarrow>
    net_step ser par alloc_ok N (N\<lparr>net_sys := s', net_conns := (net_conns N)(fd \<mapsto> (q, Answered)),
      net_log := net_log N @ [(fd, q, out)]\<rparr>)"
| net_end: "enabled (net_sys N) (Data i (fd, a) EV_READ [r] w) \<Longrightarrow> r = Read_eof \<or> r = Read_err x \<and> x \<noteq> EAGAIN \<Longrightarrow>
    perform ser par alloc_ok (Data i (fd, a) EV_READ [r] w) (net_sys N) = Inr (s', out) \<Longrightarrow>
    net_step ser par alloc_ok N (N\<lparr>net_sys := s', net_conns := (net_conns N)(fd := None)\<rparr>)"

inductive net_run ::
  "(payload \<Rightarrow> byte list) \<Rightarrow> (byte list \<Rightarrow> bool \<times> payload) \<Rightarrow> (u32 \<Rightarrow> bool) \<Rightarrow> 'd system \<Rightarrow> 'd net \<Rightarrow> bool"
  for ser par alloc_ok s0 where
  net_start: "net_run ser par alloc_ok s0 \<lparr> net_sys = s0, net_conns = Map.empty, net_log = [] \<rparr>"
| net_next: "net_run ser par alloc_ok s0 N \<Longrightarrow> net_step ser par alloc_ok N M \<Longrightarrow> net_run ser par alloc_ok s0 M"

text \<open>The specification: the requests one after the other on the map and the counters.\<close>

fun spec_requests :: "payload list \<Rightarrow> store \<times> stats \<Rightarrow> (store \<times> stats) \<times> payload list" where
  "spec_requests [] st = (st, [])"
| "spec_requests (q # qs) st =
     (let (st1, p) = spec_request (the (pb_requesttype q)) q st; (st2, ps) = spec_requests qs st1
      in (st2, p # ps))"

lemma spec_requests_snoc:
  "spec_requests qs st = (st1, ps) \<Longrightarrow> spec_request (the (pb_requesttype q)) q st1 = (st2, p) \<Longrightarrow>
     spec_requests (qs @ [q]) st = (st2, ps @ [p])"
  by (induction qs arbitrary: st ps) (auto simp: Let_def split: prod.splits)

text \<open>The same for a server of either mode.\<close>

inductive spec_answers :: "bool \<Rightarrow> store \<times> stats \<Rightarrow> payload list \<Rightarrow> store \<times> stats \<Rightarrow> payload list \<Rightarrow> bool"
  for on st0 where
  answers_none: "spec_answers on st0 [] st0 []"
| answers_next: "spec_answers on st0 qs st ps \<Longrightarrow> spec_answer on (the (pb_requesttype q)) q st (st', p) \<Longrightarrow>
    spec_answers on st0 (qs @ [q]) st' (ps @ [p])"

lemma answers_off: "spec_answers False st0 qs st ps \<Longrightarrow> spec_requests qs st0 = (st, ps)"
  by (induction rule: spec_answers.induct) (simp_all add: spec_requests_snoc)

lemma answers_length: "spec_answers on st0 qs st ps \<Longrightarrow> length ps = length qs"
  by (induction rule: spec_answers.induct) simp_all

text \<open>With the filter on, no GET ever succeeds: its answer has no value of the server's, but a reason of failure; and
  every STAT reports that no GET has succeeded.\<close>

definition get_failed :: "payload \<Rightarrow> payload \<Rightarrow> bool" where
  "get_failed q p \<longleftrightarrow> (case pb_requesttype q of
       Some GET \<Rightarrow> pb_value p = pb_value q \<and> pb_reason p \<noteq> None
     | Some STAT \<Rightarrow> (case pb_stats p of Some m \<Rightarrow> numsuccgetreq m = Some 0 | None \<Rightarrow> False)
     | _ \<Rightarrow> True)"

lemma spec_answer_failed:
  assumes "spec_answer True (the (pb_requesttype q)) q st (st', p)" and "num_get_req_succ (snd st) = 0"
  shows "num_get_req_succ (snd st') = 0" and "get_failed q p"
proof -
  obtain m sts where st: "st = (m, sts)" by (cases st)
  have *: "num_get_req_succ (snd st') = 0 \<and> get_failed q p"
  proof (cases "pb_requesttype q")
    case None
    with assms show ?thesis
      by (cases "the (pb_requesttype q)")
        (auto simp: st spec_answer_def get_failed_def incrGetReq_def incrGetReqFail_def split: prod.splits)
  next
    case (Some t)
    with assms show ?thesis
      by (cases t) (auto simp: st spec_answer_def get_failed_def incrGetReq_def incrGetReqFail_def split: prod.splits)
  qed
  then show "num_get_req_succ (snd st') = 0" and "get_failed q p" by simp_all
qed

lemma answers_failed:
  "spec_answers True st0 qs st ps \<Longrightarrow> num_get_req_succ (snd st0) = 0 \<Longrightarrow>
    num_get_req_succ (snd st) = 0 \<and> list_all2 get_failed qs ps"
  by (induction rule: spec_answers.induct) (auto dest: spec_answer_failed intro!: list_all2_appendI)

section \<open>The descriptors in use\<close>

text \<open>No descriptor is in two places: in the queue of one worker, or registered by one worker, once.\<close>

definition in_use :: "worker service_thread list \<Rightarrow> fd multiset" where
  "in_use ts = (\<Sum>t\<leftarrow>ts. mset (live_fds t))"

definition no_sharing :: "worker service_thread list \<Rightarrow> bool" where
  "no_sharing ts \<longleftrightarrow> (\<forall>fd. count (in_use ts) fd \<le> 1)"

lemma in_use_update:
  "i < length ts \<Longrightarrow> in_use (ts[i := t]) + mset (live_fds (ts ! i)) = in_use ts + mset (live_fds t)"
  unfolding in_use_def by (rule sum_list_update_add)

lemma live_in_use: "i < length ts \<Longrightarrow> mset (live_fds (ts ! i)) \<subseteq># in_use ts"
proof (induction ts arbitrary: i)
  case Nil
  then show ?case by simp
next
  case (Cons t ts)
  then show ?case
    by (cases i) (auto simp: in_use_def subset_mset.add_increasing)
qed

lemma no_sharing_shrink:
  assumes "no_sharing ts" and "i < length ts" and "mset (live_fds t) \<subseteq># mset (live_fds (ts ! i))"
  shows "no_sharing (ts[i := t])"
  unfolding no_sharing_def
proof
  fix fd
  have "count (in_use (ts[i := t])) fd + count (mset (live_fds (ts ! i))) fd =
      count (in_use ts) fd + count (mset (live_fds t)) fd"
    using arg_cong [OF in_use_update [OF assms(2), of t], of "\<lambda>m. count m fd"] by simp
  moreover have "count (mset (live_fds t)) fd \<le> count (mset (live_fds (ts ! i))) fd"
    by (rule mset_subset_eq_count [OF assms(3)])
  moreover have "count (in_use ts) fd \<le> 1" using assms(1) by (simp add: no_sharing_def)
  ultimately show "count (in_use (ts[i := t])) fd \<le> 1" by linarith
qed

lemma no_sharing_grow:
  assumes "no_sharing ts" and "i < length ts" and "mset (live_fds t) = add_mset fd (mset (live_fds (ts ! i)))"
    and "fd \<notin># in_use ts"
  shows "no_sharing (ts[i := t])"
proof -
  have "in_use (ts[i := t]) = add_mset fd (in_use ts)"
    using in_use_update [OF assms(2), of t] assms(3) by simp
  with assms(1,4) show ?thesis by (auto simp: no_sharing_def not_in_iff)
qed

lemma no_sharing_owner:
  assumes "no_sharing ts" and "i < length ts" and "j < length ts"
    and "fd \<in> set (live_fds (ts ! i))" and "fd \<in> set (live_fds (ts ! j))"
  shows "i = j"
proof (rule ccontr)
  assume ne: "i \<noteq> j"
  let ?e = "new_service_thread new_worker"
  have "live_fds ?e = []" by (simp add: live_fds_def new_service_thread_def new_worker_def)
  then have "in_use (ts[i := ?e]) + mset (live_fds (ts ! i)) = in_use ts"
    using in_use_update [OF assms(2), of ?e] by simp
  then have "count (in_use ts) fd = count (in_use (ts[i := ?e])) fd + count (mset (live_fds (ts ! i))) fd"
    by (metis count_union)
  moreover have "mset (live_fds (ts ! j)) \<subseteq># in_use (ts[i := ?e])"
    using live_in_use [of j "ts[i := ?e]"] assms(3) ne by simp
  then have "0 < count (in_use (ts[i := ?e])) fd"
    using assms(5) by (meson count_greater_zero_iff mset_subset_eqD set_mset_mset in_multiset_in_set)
  moreover have "0 < count (mset (live_fds (ts ! i))) fd" using assms(4) by simp
  moreover have "count (in_use ts) fd \<le> 1" using assms(1) by (simp add: no_sharing_def)
  ultimately show False by linarith
qed

lemma no_sharing_distinct:
  assumes "no_sharing ts" and "i < length ts"
  shows "distinct (live_fds (ts ! i))"
proof -
  have "count (mset (live_fds (ts ! i))) fd \<le> 1" for fd
    using mset_subset_eq_count [OF live_in_use [OF assms(2)], of fd] assms(1)
    by (metis le_trans no_sharing_def)
  then show ?thesis
    by (metis One_nat_def count_greater_zero_iff distinct_count_atmost_1 le_antisym not_in_iff set_mset_mset
        Suc_leI)
qed

section \<open>The connections of a worker\<close>

text \<open>
  A registered connection has a request that can be served; as long as it is not answered, its flow has received
  what the connection says.
\<close>

definition entry_ok ::
  "(payload \<Rightarrow> byte list) \<Rightarrow> (u32 \<Rightarrow> bool) \<Rightarrow> (string \<times> tcp_flow) list \<Rightarrow> string \<Rightarrow> (payload \<times> phase) option \<Rightarrow> bool" where
  "entry_ok ser alloc_ok ss a c \<longleftrightarrow> (\<exists>q ph. c = Some (q, ph) \<and> servable ser alloc_ok q \<and>
     (\<forall>k. ph = Receiving k \<longrightarrow> (k = 0 \<or> k < length (ser q)) \<and> (\<exists>f. map_of ss a = Some f \<and> conn (ser q) k f)))"

definition watched_conns ::
  "(payload \<Rightarrow> byte list) \<Rightarrow> (u32 \<Rightarrow> bool) \<Rightarrow> (fd \<rightharpoonup> payload \<times> phase) \<Rightarrow> worker \<Rightarrow> bool" where
  "watched_conns ser alloc_ok cs wk \<longleftrightarrow>
     (\<forall>e \<in> set (watched wk). entry_ok ser alloc_ok (sessions wk) (snd e) (cs (fst e)))"

definition thread_conns ::
  "(payload \<Rightarrow> byte list) \<Rightarrow> (u32 \<Rightarrow> bool) \<Rightarrow> (fd \<rightharpoonup> payload \<times> phase) \<Rightarrow> worker service_thread \<Rightarrow> bool" where
  "thread_conns ser alloc_ok cs t \<longleftrightarrow>
     (\<forall>fd \<in> set (fd_queue t). \<exists>q. cs fd = Some (q, Receiving 0) \<and> servable ser alloc_ok q) \<and>
     watched_conns ser alloc_ok cs (derived t)"

definition conns_ok ::
  "(payload \<Rightarrow> byte list) \<Rightarrow> (u32 \<Rightarrow> bool) \<Rightarrow> (fd \<rightharpoonup> payload \<times> phase) \<Rightarrow> worker service_thread list \<Rightarrow> bool" where
  "conns_ok ser alloc_ok cs ts \<longleftrightarrow> no_sharing ts \<and> list_all (thread_conns ser alloc_ok cs) ts \<and>
     (\<forall>fd. cs fd \<noteq> None \<longrightarrow> fd \<in># in_use ts)"

lemma watched_conns_cong:
  "(\<And>fd. fd \<in> fst ` set (watched wk) \<Longrightarrow> cs' fd = cs fd) \<Longrightarrow>
    watched_conns ser alloc_ok cs' wk = watched_conns ser alloc_ok cs wk"
  unfolding watched_conns_def by (intro ball_cong) auto

lemma thread_conns_cong:
  "(\<And>fd. fd \<in> set (live_fds t) \<Longrightarrow> cs' fd = cs fd) \<Longrightarrow>
    thread_conns ser alloc_ok cs' t = thread_conns ser alloc_ok cs t"
  using watched_conns_cong [of "derived t" cs' cs] by (auto simp: thread_conns_def live_fds_def)

lemma live_in_dom:
  assumes "thread_conns ser alloc_ok cs t" and "fd \<in> set (live_fds t)"
  shows "cs fd \<noteq> None"
  using assms by (fastforce simp: thread_conns_def watched_conns_def live_fds_def entry_ok_def)

lemma in_use_live: "fd \<in># in_use ts \<longleftrightarrow> (\<exists>t \<in> set ts. fd \<in> set (live_fds t))"
  by (induction ts) (auto simp: in_use_def)

lemma conns_in_use:
  assumes "conns_ok ser alloc_ok cs ts"
  shows "fd \<in># in_use ts \<longleftrightarrow> cs fd \<noteq> None"
  using assms live_in_dom by (fastforce simp: conns_ok_def in_use_live list_all_iff)

lemma conns_ok_update:
  assumes ok: "conns_ok ser alloc_ok cs ts" and i: "i < length ts" and t: "thread_conns ser alloc_ok cs' t"
    and ns: "no_sharing (ts[i := t])"
    and same: "\<And>j fd. j < length ts \<Longrightarrow> j \<noteq> i \<Longrightarrow> fd \<in> set (live_fds (ts ! j)) \<Longrightarrow> cs' fd = cs fd"
    and dom: "\<And>fd. cs' fd \<noteq> None \<Longrightarrow> fd \<in> set (live_fds t) \<or> cs fd \<noteq> None \<and> fd \<notin> set (live_fds (ts ! i))"
  shows "conns_ok ser alloc_ok cs' (ts[i := t])"
  unfolding conns_ok_def
proof (intro conjI allI impI)
  have "thread_conns ser alloc_ok cs' (ts ! j)" if "j < length ts" "j \<noteq> i" for j
    using thread_conns_cong [OF same [OF that]] ok that(1) by (simp add: conns_ok_def list_all_length)
  then show "list_all (thread_conns ser alloc_ok cs') (ts[i := t])"
    using i t by (auto simp: list_all_length nth_list_update)
  fix fd
  assume "cs' fd \<noteq> None"
  from dom [OF this] show "fd \<in># in_use (ts[i := t])"
  proof
    assume "fd \<in> set (live_fds t)"
    with i show ?thesis unfolding in_use_live by (blast intro: set_update_memI)
  next
    assume *: "cs fd \<noteq> None \<and> fd \<notin> set (live_fds (ts ! i))"
    with conns_in_use [OF ok] have "\<exists>u \<in> set ts. fd \<in> set (live_fds u)" by (simp add: in_use_live)
    then obtain j where "j < length ts" "fd \<in> set (live_fds (ts ! j))" by (metis in_set_conv_nth)
    moreover from this * have "j \<noteq> i" by auto
    ultimately show ?thesis unfolding in_use_live by (metis length_list_update nth_list_update_neq nth_mem)
  qed
qed (rule ns)

text \<open>A worker changes what it does with its own descriptors, of which it may lose some.\<close>

lemma conns_ok_put:
  assumes ok: "conns_ok ser alloc_ok cs ts" and i: "i < length ts" and t: "thread_conns ser alloc_ok cs' t"
    and live: "mset (live_fds t) + m = mset (live_fds (ts ! i))"
    and same: "\<And>fd. fd \<notin> set (live_fds (ts ! i)) \<Longrightarrow> cs' fd = cs fd"
    and lost: "\<And>fd. fd \<in># m \<Longrightarrow> cs' fd = None"
  shows "conns_ok ser alloc_ok cs' (ts[i := t])"
proof (rule conns_ok_update [OF ok i t])
  have ns: "no_sharing ts" using ok by (simp add: conns_ok_def)
  show "no_sharing (ts[i := t])"
    by (rule no_sharing_shrink [OF ns i]) (metis live mset_subset_eq_add_left)
  show "cs' fd = cs fd" if "j < length ts" "j \<noteq> i" "fd \<in> set (live_fds (ts ! j))" for j fd
    using no_sharing_owner [OF ns i that(1) _ that(3)] that(2) same by blast
  show "fd \<in> set (live_fds t) \<or> cs fd \<noteq> None \<and> fd \<notin> set (live_fds (ts ! i))" if "cs' fd \<noteq> None" for fd
  proof (cases "fd \<in> set (live_fds (ts ! i))")
    case True
    then have "fd \<in># mset (live_fds t) + m" unfolding live by simp
    then show ?thesis using lost [of fd] that by auto
  next
    case False
    with same [OF False] that show ?thesis by simp
  qed
qed

lemma conns_ok_queue:
  assumes ok: "conns_ok ser alloc_ok cs ts" and i: "i < length ts" and "cs fd = None" and "servable ser alloc_ok q"
  shows "conns_ok ser alloc_ok (cs(fd \<mapsto> (q, Receiving 0))) (ts[i := snd (addFdToEvLoop True fd (ts ! i))])"
proof (rule conns_ok_update [OF ok i])
  have ns: "no_sharing ts" and ti: "thread_conns ser alloc_ok cs (ts ! i)"
    using ok i by (simp_all add: conns_ok_def list_all_length)
  have out: "fd \<notin># in_use ts" using conns_in_use [OF ok] assms(3) by simp
  then have nfd: "j < length ts \<Longrightarrow> fd \<notin> set (live_fds (ts ! j))" for j
    unfolding in_use_live by (meson nth_mem)
  have live: "mset (live_fds (snd (addFdToEvLoop True fd (ts ! i)))) = add_mset fd (mset (live_fds (ts ! i)))"
    by (simp add: addFdToEvLoop_def live_fds_def)
  show "no_sharing (ts[i := snd (addFdToEvLoop True fd (ts ! i))])"
    by (rule no_sharing_grow [OF ns i live out])
  have "thread_conns ser alloc_ok (cs(fd \<mapsto> (q, Receiving 0))) (ts ! i)"
    using thread_conns_cong [of "ts ! i" "cs(fd \<mapsto> (q, Receiving 0))" cs] nfd [OF i] ti by (metis fun_upd_other)
  then show "thread_conns ser alloc_ok (cs(fd \<mapsto> (q, Receiving 0))) (snd (addFdToEvLoop True fd (ts ! i)))"
    using assms(4) by (auto simp: thread_conns_def addFdToEvLoop_def)
  show "(cs(fd \<mapsto> (q, Receiving 0))) fd' = cs fd'" if "j < length ts" "j \<noteq> i" "fd' \<in> set (live_fds (ts ! j))" for j fd'
    using nfd [OF that(1)] that(3) by auto
  show "fd' \<in> set (live_fds (snd (addFdToEvLoop True fd (ts ! i)))) \<or> cs fd' \<noteq> None \<and> fd' \<notin> set (live_fds (ts ! i))"
    if "(cs(fd \<mapsto> (q, Receiving 0))) fd' \<noteq> None" for fd'
    using that live by (cases "fd' \<in> set (live_fds (ts ! i))")
      (auto split: if_splits simp flip: set_mset_mset)
qed

section \<open>What the handlers do to the connections\<close>

text \<open>A wake-up gives every queued descriptor a fresh flow.\<close>

lemma fresh_entry:
  assumes "servable ser alloc_ok q" and "a \<notin> fst ` set ss"
  shows "entry_ok ser alloc_ok (ss @ [(a, setAddr new_tcp_flow a)]) a (Some (q, Receiving 0))"
proof -
  have "map_of (ss @ [(a, setAddr new_tcp_flow a)]) a = Some (setAddr new_tcp_flow a)"
    using assms(2) by (simp add: map_add_def split: option.splits) (metis image_eqI fst_conv map_of_SomeD)
  then show ?thesis
    using assms(1) by (simp add: entry_ok_def conn_def fresh_def setAddr_def new_tcp_flow_def)
qed

lemma entry_append:
  "entry_ok ser alloc_ok ss a c \<Longrightarrow> entry_ok ser alloc_ok (ss @ ss') a c"
  by (fastforce simp: entry_ok_def)

lemma processEvent_conns:
  assumes "flow_allocator np" and "watched_conns ser alloc_ok cs wk" and "cs fd = Some (q, Receiving 0)"
    and "servable ser alloc_ok q"
  shows "watched_conns ser alloc_ok cs (worker_processEvent np False fd wk)"
proof -
  let ?a = "getAddrStr (np (sessions wk))"
  have new: "?a \<notin> fst ` set (sessions wk)" by (rule flow_allocator.new_ptr_fresh [OF assms(1)])
  then show ?thesis
    using assms(2,3) fresh_entry [OF assms(4) new] entry_append
    by (auto simp: watched_conns_def worker_processEvent_def Let_def)
qed

lemma drain_conns:
  assumes "flow_allocator np"
  shows "watched_conns ser alloc_ok cs wk \<Longrightarrow> \<forall>fd \<in> set fds. \<exists>q. cs fd = Some (q, Receiving 0) \<and> servable ser alloc_ok q \<Longrightarrow>
    watched_conns ser alloc_ok cs (drain_queue (worker_processEvent np) False fds wk)"
  by (induction fds arbitrary: wk) (auto dest: processEvent_conns [OF assms])

lemma wake_conns:
  assumes "thread_ok t" and "flow_allocator np" and "thread_conns ser alloc_ok cs t"
  shows "thread_conns ser alloc_ok cs (onEvent (worker_processEvent np) worker_cleanState t)"
proof (cases "pipe_bytes t")
  case Nil
  then show ?thesis using assms(3) by (simp add: wake_empty)
next
  case (Cons b p)
  show ?thesis
    unfolding wake_drains [OF assms(1) Cons]
    using drain_conns [OF assms(2)] assms(3) by (simp add: thread_conns_def)
qed

text \<open>An event changes the entry of its own descriptor.\<close>

lemma other_entry:
  assumes "distinct (map fst ws)" and "distinct (map snd ws)" and "e \<in> set ws" and "x \<in> set ws" and "x \<noteq> e"
  shows "fst x \<noteq> fst e" and "snd x \<noteq> snd e"
  using assms by (metis eq_key_imp_eq_value prod.collapse prod_eq_iff,
    metis (no_types) distinct_map inj_onD)

lemma watched_conns_set:
  assumes "worker_ok wk" and "distinct (map fst (watched wk))" and "(fd, a) \<in> set (watched wk)"
    and "watched_conns ser alloc_ok cs wk" and "servable ser alloc_ok q"
    and "\<And>k. ph = Receiving k \<Longrightarrow> (k = 0 \<or> k < length (ser q)) \<and> conn (ser q) k f"
  shows "watched_conns ser alloc_ok (cs(fd \<mapsto> (q, ph))) (set_session a f wk)"
  unfolding watched_conns_def
proof
  fix e
  assume "e \<in> set (watched (set_session a f wk))"
  then have e: "e \<in> set (watched wk)" by simp
  show "entry_ok ser alloc_ok (sessions (set_session a f wk)) (snd e) ((cs(fd \<mapsto> (q, ph))) (fst e))"
  proof (cases "e = (fd, a)")
    case True
    with assms(5,6) watched_live [OF assms(1,3)] show ?thesis
      by (auto simp: entry_ok_def map_of_set_session)
  next
    case False
    have "distinct (map snd (watched wk))" using assms(1) by (simp add: worker_ok_def)
    from other_entry [OF assms(2) this assms(3) e False] assms(4) e show ?thesis
      by (auto simp: watched_conns_def entry_ok_def map_of_set_session)
  qed
qed

lemma watched_conns_delete:
  assumes "worker_ok wk" and "distinct (map fst (watched wk))" and "(fd, a) \<in> set (watched wk)"
    and "watched_conns ser alloc_ok cs wk"
  shows "watched_conns ser alloc_ok (cs(fd := None)) (deleteTcpFlow a (set_session a f wk))"
  unfolding watched_conns_def
proof
  fix e
  note del = deleteTcpFlow_eq [OF linked_session [OF assms(1)]]
  assume "e \<in> set (watched (deleteTcpFlow a (set_session a f wk)))"
  then have e: "e \<in> set (watched wk)" "snd e \<noteq> a" by (auto simp: del)
  have "map_of (filter (\<lambda>(b, _). b \<noteq> a) ss) (snd e) = map_of ss (snd e)" for ss :: "(string \<times> tcp_flow) list"
    using e(2) by (induction ss) auto
  then have m: "map_of (sessions (deleteTcpFlow a (set_session a f wk))) (snd e) = map_of (sessions wk) (snd e)"
    using e(2) by (simp add: del map_of_set_session)
  have "distinct (map snd (watched wk))" using assms(1) by (simp add: worker_ok_def)
  moreover have "e \<noteq> (fd, a)" using e(2) by auto
  ultimately have "fst e \<noteq> fd" using other_entry(1) [OF assms(2) _ assms(3) e(1)] by simp
  with assms(4) e(1) m show "entry_ok ser alloc_ok (sessions (deleteTcpFlow a (set_session a f wk))) (snd e)
      ((cs(fd := None)) (fst e))"
    by (simp add: watched_conns_def entry_ok_def)
qed

text \<open>The handler of a registered connection, for a piece of the request, for its last piece, and at the end.\<close>

lemma registered_flow:
  assumes "watched_conns ser alloc_ok cs wk" and "(fd, a) \<in> set (watched wk)" and "cs fd = Some (q, Receiving k)"
  shows "servable ser alloc_ok q" and "k = 0 \<or> k < length (ser q)"
    and "\<exists>f. map_of (sessions wk) a = Some f \<and> conn (ser q) k f"
  using assms by (fastforce simp: watched_conns_def entry_ok_def)+

lemma event_piece:
  assumes "watched_conns ser alloc_ok cs wk" and "(fd, a) \<in> set (watched wk)" and "cs fd = Some (q, Receiving k)"
    and "good_piece (ser q) k ps rest" and "rest \<noteq> []"
  shows "\<exists>f'. worker_event ser par alloc_ok w (fd, a) EV_READ (map Read_data ps) srv wk =
      Inr (srv, set_session a f' wk, []) \<and> conn (ser q) (k + length (concat ps)) f' \<and>
    k + length (concat ps) < length (ser q)"
proof -
  obtain f where f: "map_of (sessions wk) a = Some f" "conn (ser q) k f"
    using registered_flow(3) [OF assms(1-3)] by blast
  have s: "fits (ser q)" "alloc_ok (word_of_nat (length (ser q)))"
    using registered_flow(1) [OF assms(1-3)] by (simp_all add: servable_def)
  have g: "drop k (frame (ser q)) = concat ps @ rest" "length ps \<le> num_read_try" "starts_well k ps"
      "k + length (concat ps) < length (ser q)"
    using assms(4,5) by (simp_all add: good_piece_def)
  from flow_data_partial [where alloc_ok = alloc_ok, OF s(1) f(2) g(1-3) s(2) g(4), of ser par w fd srv] obtain f' where
      "flow_data ser par alloc_ok w fd EV_READ (map Read_data ps) srv f = Inr (srv, Some f', [])"
      "receiving (ser q) (k + length (concat ps)) f'"
    by blast
  with f(1) g(4) show ?thesis by (auto simp: worker_event_def intro: receiving_conn)
qed

lemma event_last:
  assumes "message_codec ser par" and "watched_conns ser alloc_ok cs wk" and "(fd, a) \<in> set (watched wk)"
    and "cs fd = Some (q, Receiving k)" and "good_piece (ser q) k ps []" and "writable w"
    and "server_ok srv" and "bloom_enabled (srv_dict srv) = on"
  shows "\<exists>srv' p f'. worker_event ser par alloc_ok w (fd, a) EV_READ (map Read_data ps) srv wk =
      Inr (srv', set_session a f' wk, response_bytes ser p) \<and> bloom_enabled (srv_dict srv') = on \<and>
    spec_answer on (the (pb_requesttype q)) q (srv_abs srv) (srv_abs srv', p) \<and> snd (par (response_bytes ser p)) = p"
proof -
  obtain f where f: "map_of (sessions wk) a = Some f" "conn (ser q) k f"
    using registered_flow(3) [OF assms(2-4)] by blast
  have s: "fits (ser q)" "alloc_ok (word_of_nat (length (ser q)))" "k \<le> length (ser q) + 4"
    using registered_flow(1,2) [OF assms(2-4)] by (auto simp: servable_def)
  obtain t where t: "pb_requesttype q = Some t"
    using registered_flow(1) [OF assms(2-4)] by (auto simp: servable_def)
  have g: "drop k (frame (ser q)) = concat ps" "length ps \<le> num_read_try" "starts_well k ps"
    using assms(5) by (simp_all add: good_piece_def)
  obtain srv' p where 1: "handle_request srv t q = Inr (srv', p)" "bloom_enabled (srv_dict srv') = on"
      "spec_answer on t q (srv_abs srv) (srv_abs srv', p)" "pb_requesttype p = pb_requesttype q"
    using handle_request_answer [OF assms(7), of t q] assms(8) by blast
  have par: "snd (par (ser q)) = q"
    using message_codec.par_ser [OF assms(1), of q] t by (simp add: initialized_def)
  from flow_data_complete [where alloc_ok = alloc_ok and par = par, OF s(1) f(2) g s(2,3) par t 1(1) assms(6), of ser fd]
  obtain f' where "flow_data ser par alloc_ok w fd EV_READ (map Read_data ps) srv f = Inr (srv', Some f', response_bytes ser p)"
    by blast
  moreover have "snd (par (response_bytes ser p)) = p"
    using message_codec.par_ser_zero [OF assms(1), of p] 1(4) t by (simp add: response_bytes_def initialized_def)
  ultimately show ?thesis
    using f(1) 1(2,3) t by (auto simp: worker_event_def)
qed

lemma event_end:
  assumes "worker_ok wk" and "map_of (sessions wk) a = Some f" and "r = Read_eof \<or> r = Read_err x \<and> x \<noteq> EAGAIN"
  shows "worker_event ser par alloc_ok w (fd, a) EV_READ [r] srv wk =
    Inr (srv, deleteTcpFlow a (set_session a (f\<lparr>client_fd := fd\<rparr>) wk), [])"
  using assms(2,3) by (auto simp: worker_event_eq [OF assms(1)] flow_data_def read_loop_pos simp del: rbind_Inr_iff)

section \<open>The invariant\<close>

lemma worker_state:
  assumes "sys_ok s" and "conns_ok ser alloc_ok cs (pool_of s)" and "i < length (pool_of s)"
    and "(fd, a) \<in> set (watched (derived (pool_of s ! i)))"
  shows "worker_ok (derived (pool_of s ! i))" and "distinct (map fst (watched (derived (pool_of s ! i))))"
    and "fd \<notin> set (fd_queue (pool_of s ! i))" and "fd \<in> set (live_fds (pool_of s ! i))"
    and "thread_conns ser alloc_ok cs (pool_of s ! i)" and "watched_conns ser alloc_ok cs (derived (pool_of s ! i))"
proof -
  show "worker_ok (derived (pool_of s ! i))"
    using assms(1,3) by (simp add: sys_ok_def list_all_length thread_ok_def)
  have "distinct (live_fds (pool_of s ! i))"
    using no_sharing_distinct assms(2,3) by (simp add: conns_ok_def)
  with assms(4) show "distinct (map fst (watched (derived (pool_of s ! i))))"
      "fd \<notin> set (fd_queue (pool_of s ! i))" "fd \<in> set (live_fds (pool_of s ! i))"
    by (force simp: live_fds_def)+
  show "thread_conns ser alloc_ok cs (pool_of s ! i)"
    using assms(2,3) by (simp add: conns_ok_def list_all_length)
  then show "watched_conns ser alloc_ok cs (derived (pool_of s ! i))" by (simp add: thread_conns_def)
qed

lemma conns_ok_data:
  assumes "sys_ok s" and "conns_ok ser alloc_ok cs (pool_of s)" and "i < length (pool_of s)"
    and "(fd, a) \<in> set (watched (derived (pool_of s ! i)))" and "servable ser alloc_ok q"
    and "\<And>k. ph = Receiving k \<Longrightarrow> (k = 0 \<or> k < length (ser q)) \<and> conn (ser q) k f"
  shows "conns_ok ser alloc_ok (cs(fd \<mapsto> (q, ph)))
    ((pool_of s)[i := (pool_of s ! i)\<lparr>derived := set_session a f (derived (pool_of s ! i))\<rparr>])"
proof (rule conns_ok_put [OF assms(2,3), where m = "{#}"])
  note w = worker_state [OF assms(1-4)]
  show "thread_conns ser alloc_ok (cs(fd \<mapsto> (q, ph)))
      ((pool_of s ! i)\<lparr>derived := set_session a f (derived (pool_of s ! i))\<rparr>)"
    using watched_conns_set [OF w(1,2) assms(4) w(6) assms(5,6)] w(3,5) by (auto simp: thread_conns_def)
  show "(cs(fd \<mapsto> (q, ph))) fd' = cs fd'" if "fd' \<notin> set (live_fds (pool_of s ! i))" for fd'
    using that w(4) by auto
qed (simp_all add: live_fds_def)

lemma conns_ok_end:
  assumes "sys_ok s" and "conns_ok ser alloc_ok cs (pool_of s)" and "i < length (pool_of s)"
    and "(fd, a) \<in> set (watched (derived (pool_of s ! i)))"
  shows "conns_ok ser alloc_ok (cs(fd := None))
    ((pool_of s)[i := (pool_of s ! i)\<lparr>derived := deleteTcpFlow a (set_session a f (derived (pool_of s ! i)))\<rparr>])"
proof (rule conns_ok_put [OF assms(2,3), where m = "{#fd#}"])
  note w = worker_state [OF assms(1-4)]
  let ?wk = "derived (pool_of s ! i)"
  show "thread_conns ser alloc_ok (cs(fd := None)) ((pool_of s ! i)\<lparr>derived := deleteTcpFlow a (set_session a f ?wk)\<rparr>)"
    using watched_conns_delete [OF w(1,2) assms(4) w(6)] w(3,5) by (auto simp: thread_conns_def)
  have "distinct (map snd (watched ?wk))" using w(1) by (simp add: worker_ok_def)
  from mset_remove_key [OF this assms(4)]
  show "mset (live_fds ((pool_of s ! i)\<lparr>derived := deleteTcpFlow a (set_session a f ?wk)\<rparr>)) + {#fd#} =
      mset (live_fds (pool_of s ! i))"
    by (simp add: live_fds_def deleteTcpFlow_eq [OF linked_session [OF w(1)]] case_prod_unfold) (metis fst_conv image_mset_add_mset)
  show "(cs(fd := None)) fd' = cs fd'" if "fd' \<notin> set (live_fds (pool_of s ! i))" for fd'
    using that w(4) by auto
qed simp

text \<open>The server agrees with the specification of the answered requests.\<close>

definition log_ok ::
  "(payload \<Rightarrow> byte list) \<Rightarrow> (byte list \<Rightarrow> bool \<times> payload) \<Rightarrow> bool \<Rightarrow> store \<times> stats \<Rightarrow> (fd \<times> payload \<times> byte list) list \<Rightarrow> store \<times> stats \<Rightarrow> bool" where
  "log_ok ser par on st0 lg st \<longleftrightarrow> (\<exists>ps. spec_answers on st0 (map (fst \<circ> snd) lg) st ps \<and>
     map (snd \<circ> snd) lg = map (response_bytes ser) ps \<and> list_all (\<lambda>p. snd (par (response_bytes ser p)) = p) ps)"

lemma log_ok_snoc:
  assumes "log_ok ser par on st0 lg st" and "spec_answer on (the (pb_requesttype q)) q st (st', p)"
    and "snd (par (response_bytes ser p)) = p"
  shows "log_ok ser par on st0 (lg @ [(fd, q, response_bytes ser p)]) st'"
proof -
  obtain ps where "spec_answers on st0 (map (fst \<circ> snd) lg) st ps"
      "map (snd \<circ> snd) lg = map (response_bytes ser) ps" "list_all (\<lambda>p. snd (par (response_bytes ser p)) = p) ps"
    using assms(1) by (auto simp: log_ok_def)
  with answers_next [OF this(1) assms(2)] assms(3) show ?thesis
    unfolding log_ok_def by (intro exI [of _ "ps @ [p]"]) simp
qed

definition answers_logged :: "(fd \<rightharpoonup> payload \<times> phase) \<Rightarrow> (fd \<times> payload \<times> byte list) list \<Rightarrow> bool" where
  "answers_logged cs lg \<longleftrightarrow> (\<forall>fd q. cs fd = Some (q, Answered) \<longrightarrow> (\<exists>out. (fd, q, out) \<in> set lg))"

definition net_ok ::
  "(payload \<Rightarrow> byte list) \<Rightarrow> (byte list \<Rightarrow> bool \<times> payload) \<Rightarrow> (u32 \<Rightarrow> bool) \<Rightarrow> bool \<Rightarrow> store \<times> stats \<Rightarrow> 'd net \<Rightarrow> bool" where
  "net_ok ser par alloc_ok on st0 N \<longleftrightarrow> sys_ok (net_sys N) \<and> bloom_enabled (srv_dict (sys_srv (net_sys N))) = on \<and>
     conns_ok ser alloc_ok (net_conns N) (pool_of (net_sys N)) \<and>
     log_ok ser par on st0 (net_log N) (srv_abs (sys_srv (net_sys N))) \<and> answers_logged (net_conns N) (net_log N)"

text \<open>The steps of a connection succeed, and what they lead to.\<close>

lemma perform_data:
  assumes "i < length (pool_of s)"
    and "worker_event ser par alloc_ok w (fd, a) ev rs (sys_srv s) (derived (pool_of s ! i)) = Inr (srv', wk', out)"
  shows "\<exists>s'. perform ser par alloc_ok (Data i (fd, a) ev rs w) s = Inr (s', out) \<and> sys_srv s' = srv' \<and>
    pool_of s' = (pool_of s)[i := (pool_of s ! i)\<lparr>derived := wk'\<rparr>]"
  using assms by auto

lemma piece_result:
  assumes "net_ok ser par alloc_ok on st0 N" and "enabled (net_sys N) (Data i (fd, a) EV_READ (map Read_data cs) w)"
    and "net_conns N fd = Some (q, Receiving k)" and "good_piece (ser q) k cs rest" and "rest \<noteq> []"
  shows "\<exists>s'. perform ser par alloc_ok (Data i (fd, a) EV_READ (map Read_data cs) w) (net_sys N) = Inr (s', []) \<and>
    sys_srv s' = sys_srv (net_sys N) \<and>
    conns_ok ser alloc_ok ((net_conns N)(fd \<mapsto> (q, Receiving (k + length (concat cs))))) (pool_of s')"
proof -
  from assms(1,2) have i: "i < length (pool_of (net_sys N))" "(fd, a) \<in> set (watched (derived (pool_of (net_sys N) ! i)))"
      and ok: "sys_ok (net_sys N)" "conns_ok ser alloc_ok (net_conns N) (pool_of (net_sys N))"
    by (simp_all add: net_ok_def)
  note w = worker_state [OF ok i]
  obtain f' where f': "worker_event ser par alloc_ok w (fd, a) EV_READ (map Read_data cs) (sys_srv (net_sys N))
      (derived (pool_of (net_sys N) ! i)) = Inr (sys_srv (net_sys N), set_session a f' (derived (pool_of (net_sys N) ! i)), [])"
      "conn (ser q) (k + length (concat cs)) f'" "k + length (concat cs) < length (ser q)"
    using event_piece [OF w(6) i(2) assms(3-5)] by blast
  have "servable ser alloc_ok q" by (rule registered_flow(1) [OF w(6) i(2) assms(3)])
  then have "conns_ok ser alloc_ok ((net_conns N)(fd \<mapsto> (q, Receiving (k + length (concat cs)))))
      ((pool_of (net_sys N))[i := (pool_of (net_sys N) ! i)
        \<lparr>derived := set_session a f' (derived (pool_of (net_sys N) ! i))\<rparr>])"
    by (rule conns_ok_data [OF ok i]) (use f'(2,3) in auto)
  with perform_data [OF i(1) f'(1)] show ?thesis by metis
qed

lemma last_result:
  assumes "message_codec ser par" and "net_ok ser par alloc_ok on st0 N"
    and "enabled (net_sys N) (Data i (fd, a) EV_READ (map Read_data cs) w)"
    and "net_conns N fd = Some (q, Receiving k)" and "good_piece (ser q) k cs []" and "writable w"
  shows "\<exists>s' p. perform ser par alloc_ok (Data i (fd, a) EV_READ (map Read_data cs) w) (net_sys N) =
      Inr (s', response_bytes ser p) \<and> bloom_enabled (srv_dict (sys_srv s')) = on \<and>
    spec_answer on (the (pb_requesttype q)) q (srv_abs (sys_srv (net_sys N))) (srv_abs (sys_srv s'), p) \<and>
    snd (par (response_bytes ser p)) = p \<and> conns_ok ser alloc_ok ((net_conns N)(fd \<mapsto> (q, Answered))) (pool_of s')"
proof -
  from assms(2,3) have i: "i < length (pool_of (net_sys N))" "(fd, a) \<in> set (watched (derived (pool_of (net_sys N) ! i)))"
      and ok: "sys_ok (net_sys N)" "conns_ok ser alloc_ok (net_conns N) (pool_of (net_sys N))"
      and srv: "server_ok (sys_srv (net_sys N))" "bloom_enabled (srv_dict (sys_srv (net_sys N))) = on"
    by (simp_all add: net_ok_def sys_ok_def)
  note w = worker_state [OF ok i]
  obtain srv' p f' where f': "worker_event ser par alloc_ok w (fd, a) EV_READ (map Read_data cs) (sys_srv (net_sys N))
      (derived (pool_of (net_sys N) ! i)) = Inr (srv', set_session a f' (derived (pool_of (net_sys N) ! i)), response_bytes ser p)"
      "bloom_enabled (srv_dict srv') = on"
      "spec_answer on (the (pb_requesttype q)) q (srv_abs (sys_srv (net_sys N))) (srv_abs srv', p)"
      "snd (par (response_bytes ser p)) = p"
    using event_last [OF assms(1) w(6) i(2) assms(4-6) srv] by blast
  have "servable ser alloc_ok q" by (rule registered_flow(1) [OF w(6) i(2) assms(4)])
  then have "conns_ok ser alloc_ok ((net_conns N)(fd \<mapsto> (q, Answered))) ((pool_of (net_sys N))[i := (pool_of (net_sys N) ! i)
      \<lparr>derived := set_session a f' (derived (pool_of (net_sys N) ! i))\<rparr>])"
    by (rule conns_ok_data [OF ok i]) simp
  with perform_data [OF i(1) f'(1)] f'(2-4) show ?thesis by metis
qed

lemma end_result:
  assumes "net_ok ser par alloc_ok on st0 N" and "enabled (net_sys N) (Data i (fd, a) EV_READ [r] w)"
    and "r = Read_eof \<or> r = Read_err x \<and> x \<noteq> EAGAIN"
  shows "\<exists>s'. perform ser par alloc_ok (Data i (fd, a) EV_READ [r] w) (net_sys N) = Inr (s', []) \<and>
    sys_srv s' = sys_srv (net_sys N) \<and> conns_ok ser alloc_ok ((net_conns N)(fd := None)) (pool_of s')"
proof -
  from assms(1,2) have i: "i < length (pool_of (net_sys N))" "(fd, a) \<in> set (watched (derived (pool_of (net_sys N) ! i)))"
      and ok: "sys_ok (net_sys N)" "conns_ok ser alloc_ok (net_conns N) (pool_of (net_sys N))"
    by (simp_all add: net_ok_def)
  obtain f where f: "map_of (sessions (derived (pool_of (net_sys N) ! i))) a = Some f"
    using watched_live [OF worker_state(1) [OF ok i] i(2)] by auto
  from perform_data [OF i(1) event_end [OF worker_state(1) [OF ok i] f assms(3)]] conns_ok_end [OF ok i] show ?thesis by metis
qed

lemma wake_result:
  assumes "sys_ok s" and "conns_ok ser alloc_ok cs (pool_of s)" and "enabled s (Wake i np)"
  shows "\<exists>s'. perform ser par alloc_ok (Wake i np) s = Inr (s', []) \<and> sys_srv s' = sys_srv s \<and>
    conns_ok ser alloc_ok cs (pool_of s') \<and>
    pool_of s' = (pool_of s)[i := onEvent (worker_processEvent np) worker_cleanState (pool_of s ! i)]"
proof -
  from assms(3) have i: "i < length (pool_of s)" and np: "flow_allocator np" by simp_all
  with assms(1,2) have t: "thread_ok (pool_of s ! i)" "thread_conns ser alloc_ok cs (pool_of s ! i)"
    by (simp_all add: sys_ok_def conns_ok_def list_all_length)
  have "conns_ok ser alloc_ok cs ((pool_of s)[i := onEvent (worker_processEvent np) worker_cleanState (pool_of s ! i)])"
    by (rule conns_ok_put [OF assms(2) i wake_conns [OF t(1) np t(2)], where m = "{#}"])
      (simp_all add: wake_thread(3) [OF t(1) np])
  with i show ?thesis by simp
qed

lemma net_step_ok:
  assumes "message_codec ser par" and "net_ok ser par alloc_ok on st0 N" and "net_step ser par alloc_ok N M"
  shows "net_ok ser par alloc_ok on st0 M"
  using assms(3)
proof cases
  case (net_accept env fd q s' out)
  have ok: "sys_ok (net_sys N)" "conns_ok ser alloc_ok (net_conns N) (pool_of (net_sys N))"
    using assms(2) by (simp_all add: net_ok_def)
  have "accepted [env] \<noteq> []" "a_accept env = fd"
    using net_accept(2) onAccept_accepted(2) [of env] by simp_all
  with accept_result(2) [OF ok(1), of env ser par alloc_ok True] net_accept(5) obtain j where
      j: "j < length (pool_of (net_sys N))" "sys_srv s' = sys_srv (net_sys N)"
        "pool_of s' = (pool_of (net_sys N))[j := snd (addFdToEvLoop True fd (pool_of (net_sys N) ! j))]"
    by (metis Inr_inject prod.inject)
  have "sys_ok s'" by (rule perform_ok [OF ok(1) _ net_accept(5)]) simp
  moreover have "answers_logged ((net_conns N)(fd \<mapsto> (q, Receiving 0))) (net_log N)"
    using assms(2) by (auto simp: net_ok_def answers_logged_def)
  moreover have "conns_ok ser alloc_ok ((net_conns N)(fd \<mapsto> (q, Receiving 0))) (pool_of s')"
    unfolding j(3) by (rule conns_ok_queue [OF ok(2) j(1) net_accept(3,4)])
  ultimately show ?thesis using assms(2) j(2) net_accept(1) by (simp add: net_ok_def)
next
  case (net_refuse env s' out)
  have "sys_ok (net_sys N)" using assms(2) by (simp add: net_ok_def)
  then have "s' = net_sys N" using net_refuse(3) unfolding accept_result(1) [OF \<open>sys_ok (net_sys N)\<close> net_refuse(2)] by simp
  with net_refuse(1) assms(2) show ?thesis by simp
next
  case (net_wake i np s' out)
  have ok: "sys_ok (net_sys N)" "conns_ok ser alloc_ok (net_conns N) (pool_of (net_sys N))"
    using assms(2) by (simp_all add: net_ok_def)
  have "sys_ok s'" by (rule perform_ok [OF ok(1) net_wake(2,3)])
  with wake_result [OF ok net_wake(2), of par] net_wake(1,3) assms(2) show ?thesis
    by (auto simp: net_ok_def)
next
  case (net_piece i fd a cs w q k rest s' out)
  have "sys_ok s'" by (rule perform_ok [OF _ net_piece(2,7)]) (use assms(2) in \<open>simp add: net_ok_def\<close>)
  moreover have "sys_srv s' = sys_srv (net_sys N)"
      "conns_ok ser alloc_ok ((net_conns N)(fd \<mapsto> (q, Receiving (k + length (concat cs))))) (pool_of s')"
    using piece_result [OF assms(2) net_piece(2-5)] net_piece(7) by (metis Inr_inject prod.inject)+
  moreover have "answers_logged ((net_conns N)(fd \<mapsto> (q, Receiving (k + length (concat cs))))) (net_log N)"
    using assms(2) by (auto simp: net_ok_def answers_logged_def)
  ultimately show ?thesis using assms(2) net_piece(1) by (simp add: net_ok_def)
next
  case (net_last i fd a cs w q k s' out)
  have "sys_ok s'" by (rule perform_ok [OF _ net_last(2,6)]) (use assms(2) in \<open>simp add: net_ok_def\<close>)
  moreover obtain p where p: "out = response_bytes ser p" "bloom_enabled (srv_dict (sys_srv s')) = on"
      "spec_answer on (the (pb_requesttype q)) q (srv_abs (sys_srv (net_sys N))) (srv_abs (sys_srv s'), p)"
      "conns_ok ser alloc_ok ((net_conns N)(fd \<mapsto> (q, Answered))) (pool_of s')" "snd (par (response_bytes ser p)) = p"
    using last_result [OF assms(1,2) net_last(2-5)] net_last(6) by auto
  moreover have "log_ok ser par on st0 (net_log N @ [(fd, q, out)]) (srv_abs (sys_srv s'))"
    unfolding p(1) by (rule log_ok_snoc [where par = par, OF _ p(3,5)]) (use assms(2) in \<open>simp add: net_ok_def\<close>)
  moreover have "answers_logged ((net_conns N)(fd \<mapsto> (q, Answered))) (net_log N @ [(fd, q, out)])"
    using assms(2) by (auto simp: net_ok_def answers_logged_def)
  ultimately show ?thesis using net_last(1) by (simp add: net_ok_def)
next
  case (net_end i fd a r w x s' out)
  have "sys_ok s'" by (rule perform_ok [OF _ net_end(2,4)]) (use assms(2) in \<open>simp add: net_ok_def\<close>)
  moreover have "sys_srv s' = sys_srv (net_sys N)" "conns_ok ser alloc_ok ((net_conns N)(fd := None)) (pool_of s')"
    using end_result [OF assms(2) net_end(2,3)] net_end(4) by (metis Inr_inject prod.inject)+
  moreover have "answers_logged ((net_conns N)(fd := None)) (net_log N)"
    using assms(2) by (auto simp: net_ok_def answers_logged_def)
  ultimately show ?thesis using assms(2) net_end(1) by (simp add: net_ok_def)
qed

lemma net_run_ok:
  assumes "message_codec ser par" and "net_run ser par alloc_ok s0 N"
    and "net_ok ser par alloc_ok on st0 \<lparr> net_sys = s0, net_conns = Map.empty, net_log = [] \<rparr>"
  shows "net_ok ser par alloc_ok on st0 N"
  using assms(2,3) by (induction rule: net_run.induct) (auto intro: net_step_ok [OF assms(1)])

text \<open>The server as \<open>start\<close> sets it up, without the filter and with it.\<close>

lemma started_net:
  assumes "server_start F srand True (new_tcp_server n ip p b) d0 = Inr (tcp, d)" and "n \<noteq> 0" and "dict_ok d"
    and "dict_abs d = Map.empty"
  shows "net_ok ser par alloc_ok (bloom_enabled d) (Map.empty, new_stats)
    \<lparr> net_sys = started tcp d, net_conns = Map.empty, net_log = [] \<rparr>"
proof -
  note ok = started_ok [OF assms(1-3)]
  have "live_fds (new_service_thread new_worker) = []"
    by (simp add: live_fds_def new_service_thread_def new_worker_def)
  then have "in_use (replicate m (new_service_thread new_worker)) = {#}" for m
    by (induction m) (simp_all add: in_use_def)
  then have "conns_ok ser alloc_ok Map.empty (pool_of (started tcp d))"
    unfolding ok(2)
    by (simp add: conns_ok_def no_sharing_def list_all_iff thread_conns_def watched_conns_def)
      (simp add: new_service_thread_def new_worker_def)
  moreover have "log_ok ser par (bloom_enabled d) (Map.empty, new_stats) [] (Map.empty, new_stats)"
    unfolding log_ok_def using answers_none by (intro exI [of _ "[]"]) simp
  ultimately show ?thesis
    using ok(1) assms(4) by (simp add: net_ok_def answers_logged_def started_def srv_abs_def)
qed

lemma new_dictionary_abs: "dict_abs new_dictionary = Map.empty"
  by (simp add: dict_abs_def new_dictionary_def fun_eq_iff)

lemma started_net_ok:
  assumes "server_start F srand True (new_tcp_server n ip p False) new_dictionary = Inr (tcp, d)" and "n \<noteq> 0"
  shows "net_ok ser par alloc_ok False (Map.empty, new_stats) \<lparr> net_sys = started tcp d, net_conns = Map.empty, net_log = [] \<rparr>"
proof -
  have d: "d = new_dictionary"
    using assms(1) by (auto simp: server_start_def initWorkerManager_def enableBloomFilter_def new_tcp_server_def
      new_dictionary_def Let_def)
  have "\<not> bloom_enabled d" by (simp add: d new_dictionary_def)
  with started_net [OF assms] show ?thesis by (simp add: d new_dictionary_ok new_dictionary_abs)
qed

lemma started_filtered:
  assumes "server_start F srand True (new_tcp_server n ip p True) new_dictionary = Inr (tcp, d)"
    and "compute_optimal_parameters F (dict_bloom_parameters F) = Inr (c, bp)"
    and "byte_sized (opt_table_size (optimal_parameters bp))"
  shows "bloom_enabled d" and "dict_abs d = Map.empty" and "dict_ok d"
proof -
  have "enableBloomFilter F srand new_dictionary True = Inr d"
    using assms(1) by (auto simp: server_start_def initWorkerManager_def new_tcp_server_def Let_def)
  from enable_replaces_filter [OF this] obtain f where
      f: "bloom_enabled d" "entries d = fmempty" "new_bloom_filter srand bp = Inr f" "bloom d = Some f"
    using assms(2) by (auto simp: new_dictionary_def)
  show "bloom_enabled d" by (rule f(1))
  show abs: "dict_abs d = Map.empty"
    using f(2) by (simp add: dict_abs_def fun_eq_iff)
  from new_bloom_filter_wf [OF assms(3) f(3)] f(4) show "dict_ok d"
    by (simp add: dict_ok_def dict_size_abs filter_covers_def bf.covers_def abs)
qed

lemma started_filtered_ok:
  assumes "server_start F srand True (new_tcp_server n ip p True) new_dictionary = Inr (tcp, d)"
    and "compute_optimal_parameters F (dict_bloom_parameters F) = Inr (c, bp)"
    and "byte_sized (opt_table_size (optimal_parameters bp))" and "n \<noteq> 0"
  shows "net_ok ser par alloc_ok True (Map.empty, new_stats) \<lparr> net_sys = started tcp d, net_conns = Map.empty, net_log = [] \<rparr>"
  using started_net [OF assms(1,4)] started_filtered [OF assms(1-3)] by simp

text \<open>A connection whose request can arrive is registered after at most one wake-up, and then answered.\<close>

lemma registered_soon:
  assumes "net_ok ser par alloc_ok on st0 N" and "net_conns N fd = Some (q, Receiving k)" and "flow_allocator np"
  shows "\<exists>N1 i a. (N1 = N \<or> net_step ser par alloc_ok N N1) \<and> net_conns N1 = net_conns N \<and> net_log N1 = net_log N \<and>
    sys_srv (net_sys N1) = sys_srv (net_sys N) \<and> enabled (net_sys N1) (Data i (fd, a) ev rs w)"
proof -
  have ok: "sys_ok (net_sys N)" "conns_ok ser alloc_ok (net_conns N) (pool_of (net_sys N))"
    using assms(1) by (simp_all add: net_ok_def)
  from conns_in_use [OF ok(2), of fd] assms(2) obtain i where i: "i < length (pool_of (net_sys N))"
      "fd \<in> set (live_fds (pool_of (net_sys N) ! i))"
    by (auto simp: in_use_live) (metis in_set_conv_nth)
  let ?t = "pool_of (net_sys N) ! i"
  have t: "thread_ok ?t" using ok(1) i(1) by (simp add: sys_ok_def list_all_length)
  have w: "\<exists>a. (fd, a) \<in> set (watched (derived u))" if "fd \<in> set (live_fds u)" "fd \<notin> set (fd_queue u)" for u
    using that by (auto simp: live_fds_def)
  show ?thesis
  proof (cases "fd \<in> set (fd_queue ?t)")
    case False
    with w [OF i(2)] obtain a where "(fd, a) \<in> set (watched (derived ?t))" by blast
    with i(1) show ?thesis by auto
  next
    case True
    let ?u = "onEvent (worker_processEvent np) worker_cleanState ?t"
    have en: "enabled (net_sys N) (Wake i np)" using i(1) assms(3) by simp
    obtain s1 where s1: "perform ser par alloc_ok (Wake i np) (net_sys N) = Inr (s1, [])"
        "sys_srv s1 = sys_srv (net_sys N)" "pool_of s1 = (pool_of (net_sys N))[i := ?u]"
      using wake_result [OF ok en, of par] by blast
    from t True obtain b p where "pipe_bytes ?t = b # p" by (cases "pipe_bytes ?t") (auto simp: thread_ok_def)
    from wake_drains [OF t this] have "fd_queue ?u = []" by simp
    moreover have "fd \<in> set (live_fds ?u)"
      using i(2) wake_thread(3) [OF t assms(3)] by (metis set_mset_mset)
    ultimately obtain a where "(fd, a) \<in> set (watched (derived ?u))" using w [of ?u] by auto
    moreover have "i < length (pool_of s1)" "pool_of s1 ! i = ?u" using i(1) s1(3) by simp_all
    ultimately have "enabled s1 (Data i (fd, a) ev rs w)" by (simp only: enabled.simps simp_thms)
    define N1 where "N1 = N\<lparr>net_sys := s1\<rparr>"
    have "net_step ser par alloc_ok N N1"
      unfolding N1_def by (rule net_wake [OF en s1(1)])
    moreover have "net_conns N1 = net_conns N" "net_log N1 = net_log N" "net_sys N1 = s1"
      by (simp_all add: N1_def)
    ultimately show ?thesis using s1(2) \<open>enabled s1 _\<close> by metis
  qed
qed

lemma served_soon:
  assumes "message_codec ser par" and "net_ok ser par alloc_ok on st0 N" and "net_conns N fd = Some (q, Receiving k)"
    and "good_piece (ser q) k cs []" and "writable w" and "flow_allocator np"
  shows "\<exists>N1 N2 p. (N1 = N \<or> net_step ser par alloc_ok N N1) \<and> net_step ser par alloc_ok N1 N2 \<and>
    net_conns N1 = net_conns N \<and> net_log N1 = net_log N \<and> net_conns N2 = (net_conns N)(fd \<mapsto> (q, Answered)) \<and>
    net_log N2 = net_log N @ [(fd, q, response_bytes ser p)] \<and>
    spec_answer on (the (pb_requesttype q)) q (srv_abs (sys_srv (net_sys N))) (srv_abs (sys_srv (net_sys N2)), p) \<and>
    snd (par (response_bytes ser p)) = p"
proof -
  obtain N1 i a where N1: "N1 = N \<or> net_step ser par alloc_ok N N1" "net_conns N1 = net_conns N"
      "net_log N1 = net_log N" "sys_srv (net_sys N1) = sys_srv (net_sys N)"
      "enabled (net_sys N1) (Data i (fd, a) EV_READ (map Read_data cs) w)"
    using registered_soon [where par = par and ev = EV_READ and rs = "map Read_data cs" and w = w, OF assms(2,3,6)] by (elim exE conjE) (rule that)
  have ok: "net_ok ser par alloc_ok on st0 N1" using N1(1) net_step_ok [OF assms(1,2)] assms(2) by blast
  have c: "net_conns N1 fd = Some (q, Receiving k)" using N1(2) assms(3) by simp
  obtain s' p where s': "perform ser par alloc_ok (Data i (fd, a) EV_READ (map Read_data cs) w) (net_sys N1) =
      Inr (s', response_bytes ser p)" "snd (par (response_bytes ser p)) = p"
      "spec_answer on (the (pb_requesttype q)) q (srv_abs (sys_srv (net_sys N1))) (srv_abs (sys_srv s'), p)"
    using last_result [OF assms(1) ok N1(5) c assms(4,5)] by blast
  define N2 where "N2 = N1\<lparr>net_sys := s', net_conns := (net_conns N1)(fd \<mapsto> (q, Answered)),
    net_log := net_log N1 @ [(fd, q, response_bytes ser p)]\<rparr>"
  have "net_step ser par alloc_ok N1 N2"
    unfolding N2_def by (rule net_last [OF N1(5) c assms(4,5) s'(1)])
  moreover have "net_conns N2 = (net_conns N)(fd \<mapsto> (q, Answered))"
      "net_log N2 = net_log N @ [(fd, q, response_bytes ser p)]" "sys_srv (net_sys N2) = sys_srv s'"
    by (simp_all add: N2_def N1(2,3))
  ultimately show ?thesis using N1 s'(2,3) by (metis (no_types))
qed

section \<open>Properties\<close>


text \<open>A run of a server with two workers: one client connects and sends a GET.\<close>

lemma sample_started:
  "\<exists>tcp. server_start const_fpu (\<lambda>_ _. 7) True (new_tcp_server 2 ''h'' 1 False) (new_dictionary :: real option dictionary) =
    Inr (tcp, new_dictionary)"
  by (simp add: server_start_def initWorkerManager_def enableBloomFilter_def new_tcp_server_def new_dictionary_def
      Let_def)

lemma sample_started_filtered:
  "\<exists>tcp d bp. server_start const_fpu (\<lambda>_ _. 7) True (new_tcp_server 2 ''h'' 1 True) (new_dictionary :: real option dictionary) =
      Inr (tcp, d) \<and> compute_optimal_parameters const_fpu (dict_bloom_parameters const_fpu) = Inr (True, bp) \<and>
    byte_sized (opt_table_size (optimal_parameters bp))"
proof -
  obtain bp where p: "compute_optimal_parameters const_fpu (dict_bloom_parameters const_fpu) = Inr (True, bp)"
      "optimal_parameters bp = \<lparr>number_of_hashes = 1, opt_table_size = 800\<rparr>"
    using const_fpu_parameters by blast
  obtain f where "new_bloom_filter (\<lambda>_ _. 7) bp = Inr f"
    using constructed_filter_exists [of bp "\<lambda>_ _. 7"] p(2) by auto
  then have "enableBloomFilter const_fpu (\<lambda>_ _. 7) new_dictionary True =
      Inr (new_dictionary\<lparr>bloom_enabled := True, bloom := Some f\<rparr>)"
    by (simp add: enableBloomFilter_def initBloomFilters_def p(1) del: rbind_Inr_iff)
  then have "\<exists>tcp d. server_start const_fpu (\<lambda>_ _. 7) True (new_tcp_server 2 ''h'' 1 True) new_dictionary = Inr (tcp, d)"
    by (simp add: server_start_def initWorkerManager_def new_tcp_server_def Let_def)
  with p show ?thesis by (auto simp: byte_sized_def)
qed

lemma connected_step:
  assumes "sys_ok (net_sys N)" and "net_conns N 10 = None" and "servable ser alloc_ok q"
  shows "\<exists>M. net_step ser par alloc_ok N M \<and> net_conns M = (net_conns N)(10 \<mapsto> (q, Receiving 0)) \<and>
    net_log M = net_log N \<and> sys_srv (net_sys M) = sys_srv (net_sys N)"
proof -
  have a: "accepted [sample_accept 10] = [10]" by (simp add: accepted_def sample_accept_def O_NONBLOCK_def)
  obtain s' where s': "perform ser par alloc_ok (Accept True (sample_accept 10)) (net_sys N) = Inr (s', [])"
      "sys_srv s' = sys_srv (net_sys N)"
    using accept_result(2) [OF assms(1), of "sample_accept 10" ser par alloc_ok True] a by auto
  from net_accept [OF a assms(2,3) s'(1)] s'(2) show ?thesis by fastforce
qed

lemma sample_connected:
  assumes "sys_ok s" and "servable ser alloc_ok q"
  shows "\<exists>N. net_run ser par alloc_ok s N \<and> net_conns N = [10 \<mapsto> (q, Receiving 0)] \<and> net_log N = [] \<and>
    sys_srv (net_sys N) = sys_srv s"
proof -
  let ?N = "\<lparr> net_sys = s, net_conns = Map.empty, net_log = [] \<rparr>"
  obtain M where "net_step ser par alloc_ok ?N M" "net_conns M = [10 \<mapsto> (q, Receiving 0)]" "net_log M = []"
      "sys_srv (net_sys M) = sys_srv s"
    using connected_step [where N = ?N and par = par, OF _ _ assms(2)] assms(1) by auto
  with net_next [OF net_start] show ?thesis by blast
qed

lemma sample_get_servable: "servable wire_ser (\<lambda>_. True) sample_get"
  and sample_get_piece: "good_piece (wire_ser sample_get) 0 [frame (wire_ser sample_get)] []"
  by (simp_all add: servable_def sample_get_bytes fits_def good_piece_def starts_well_def num_read_try_def)
    (simp add: sample_get_def)




end
