(* ===== verification/Client.thy ===== *)
theory Client
  imports TcpFlow
begin

text \<open>
  The class \<open>Client\<close> (\<open>client/src/Client.cpp\<close>): one connection, one request and one response per
  message. What the system calls and the clocks give is the record \<open>conn_env\<close>; \<open>ser\<close> and \<open>par\<close> are the
  generated serialisation, as in \<open>TcpFlow\<close>.
\<close>

section \<open>State\<close>

text \<open>\<open>msg_type = None\<close> is a message whose \<open>type\<close>, which the constructor does not set, has no value.\<close>

record message =
  msg_type :: "request_type option"
  msg_key :: string
  msg_value :: string

definition new_message :: message where
  "new_message = \<lparr> msg_type = None, msg_key = [], msg_value = [] \<rparr>"

record result_data =
  res_payload :: payload
  timestamp :: u64

text \<open>\<open>m_averageLatency\<close> is not set by the constructor: \<open>junk\<close> is what the memory holds.\<close>

record client =
  sock_fd :: fd
  server_ip :: string
  server_port :: u32
  average_latency :: u32
  input_data :: "message list"
  results :: "result_data list"

definition new_client :: "u32 \<Rightarrow> fd \<Rightarrow> string \<Rightarrow> u32 \<Rightarrow> client" where
  "new_client junk junk_fd ip port =
     \<lparr> sock_fd = junk_fd, server_ip = ip, server_port = port, average_latency = junk, input_data = [], results = [] \<rparr>"

definition setInputData :: "message list \<Rightarrow> client \<Rightarrow> client" where
  "setInputData ms c = c\<lparr>input_data := ms\<rparr>"

definition getResults :: "client \<Rightarrow> result_data list" where
  "getResults c = results c"

definition getAverageLatency :: "client \<Rightarrow> u32" where
  "getAverageLatency c = average_latency c"

lemma client_getters [simp]: "getResults = results" "getAverageLatency = average_latency"
  by (simp_all add: fun_eq_iff getResults_def getAverageLatency_def)

text \<open>
  The environment of one request: the results of \<open>socket\<close> and \<open>connect\<close>, the number of bytes that
  \<open>write\<close> takes (negative on failure), what is there to be read, the measured time, the time stamp.
\<close>

record conn_env =
  env_socket :: fd
  env_connect :: int
  env_write :: int
  env_read :: read_result
  env_duration :: u32
  env_stamp :: u64

definition MAX_READ :: nat where
  "MAX_READ = 80"

section \<open>Operations\<close>

definition startClient :: "conn_env \<Rightarrow> client \<Rightarrow> bool \<times> client" where
  "startClient env c =
     (let c1 = c\<lparr>sock_fd := env_socket env\<rparr> in
      if env_socket env = -1 then (False, c1)
      else if env_connect env \<noteq> 0 then (False, c1)
      else (True, c1))"

text \<open>The payload of a message; \<open>None\<close> stands for a SET without a value.\<close>

definition request_payload :: "request_type \<Rightarrow> message \<Rightarrow> payload option" where
  "request_payload t msg =
     (let p = empty_payload\<lparr>pb_requesttype := Some t\<rparr>;
          p1 = (if t \<noteq> STAT then p\<lparr>pb_key := Some (msg_key msg)\<rparr> else p)
      in if t = SET then
           (if msg_value msg = [] then None else Some (p1\<lparr>pb_value := Some (msg_value msg)\<rparr>))
         else Some p1)"

text \<open>\<open>send_buffer\<close>: four bytes of length, then the message.\<close>

definition send_buffer :: "(payload \<Rightarrow> byte list) \<Rightarrow> payload \<Rightarrow> byte list" where
  "send_buffer ser p = to_le32 (word_of_nat (length (ser p))) @ ser p"

definition update_latency :: "u32 \<Rightarrow> u32 \<Rightarrow> u32" where
  "update_latency avg duration = (if avg = 0 then duration else (avg + duration) div 2)"

text \<open>
  \<open>sendData\<close>: the returned number, the client, and the bytes that were written to the socket. The
  response is what one \<open>read\<close> of at most \<open>MAX\<close> bytes gives.
\<close>

definition sendData ::
  "(payload \<Rightarrow> byte list) \<Rightarrow> (byte list \<Rightarrow> bool \<times> payload) \<Rightarrow> conn_env \<Rightarrow> message \<Rightarrow> client \<Rightarrow>
   (int \<times> client \<times> byte list) res" where
  "sendData ser par env msg c =
     (case msg_type msg of
        None \<Rightarrow> Inl Uninitialised
      | Some t \<Rightarrow>
          (case request_payload t msg of
             None \<Rightarrow> Inr (-1, c, [])
           | Some p \<Rightarrow>
               if env_write env < 0 then Inr (-1, c, [])
               else
                 (let out = take (nat (env_write env)) (send_buffer ser p);
                      write_len = env_write env;
                      receive = (\<lambda>bs. Inr (write_len,
                        c\<lparr>results := results c @ [\<lparr>res_payload = snd (par (take MAX_READ bs)), timestamp = env_stamp env\<rparr>],
                          average_latency := update_latency (average_latency c) (env_duration env)\<rparr>, out))
                  in case env_read env of
                       Read_err e \<Rightarrow> Inr (write_len, c, out)
                     | Read_eof \<Rightarrow> receive []
                     | Read_data bs \<Rightarrow> receive bs)))"

text \<open>\<open>run\<close>: one connection per message; the bytes written for each are collected.\<close>

fun run_loop ::
  "(payload \<Rightarrow> byte list) \<Rightarrow> (byte list \<Rightarrow> bool \<times> payload) \<Rightarrow> (conn_env \<times> message) list \<Rightarrow> client \<Rightarrow>
   (client \<times> byte list list) res" where
  "run_loop ser par [] c = Inr (c, [])"
| "run_loop ser par ((env, msg) # rest) c =
     (let (ok, c1) = startClient env c in
      if \<not> ok then rbind (run_loop ser par rest c1) (\<lambda>(c2, outs). Inr (c2, [] # outs))
      else rbind (sendData ser par env msg c1) (\<lambda>(_, c2, out).
        rbind (run_loop ser par rest c2) (\<lambda>(c3, outs). Inr (c3, out # outs))))"

definition client_run where
  "client_run ser par envs c = run_loop ser par (zip envs (input_data c)) c"

section \<open>Lemmas\<close>

lemma send_buffer_frame: "send_buffer ser p = frame (ser p)"
  by (simp add: send_buffer_def frame_def)

lemma request_payload_type: "request_payload t msg = Some p \<Longrightarrow> pb_requesttype p = Some t"
  by (auto simp: request_payload_def empty_payload_def Let_def split: if_splits)

lemma request_payload_fields:
  assumes "request_payload t msg = Some p"
  shows "get_str (pb_key p) = (if t = STAT then [] else msg_key msg)"
    and "get_str (pb_value p) = (if t = SET then msg_value msg else [])"
    and "pb_reason p = None" and "pb_stats p = None"
  using assms by (auto simp: request_payload_def empty_payload_def get_str_def Let_def split: if_splits)

lemma startClient_simps [simp]:
  "results (snd (startClient env c)) = results c"
  "average_latency (snd (startClient env c)) = average_latency c"
  by (simp_all add: startClient_def Let_def)

lemma sendData_success:
  assumes "msg_type msg = Some t" and "request_payload t msg = Some p"
    and "env_write env = int (length (send_buffer ser p))" and "env_read env = Read_data bs"
  shows "sendData ser par env msg c = Inr (env_write env,
    c\<lparr>results := results c @ [\<lparr>res_payload = snd (par (take MAX_READ bs)), timestamp = env_stamp env\<rparr>],
      average_latency := update_latency (average_latency c) (env_duration env)\<rparr>, frame (ser p))"
  using assms by (simp add: sendData_def Let_def send_buffer_frame del: length_frame)

text \<open>What a request writes is a beginning of its frame, and at most one result is recorded for it.\<close>

lemma sendData_cases:
  assumes "sendData ser par env msg c = Inr (r, c', out)"
  shows "(out = [] \<or> (\<exists>t p k. msg_type msg = Some t \<and> request_payload t msg = Some p \<and> out = take k (frame (ser p)))) \<and>
    (results c' = results c \<or> (\<exists>x. results c' = results c @ [x])) \<and> (r = -1 \<longrightarrow> c' = c)"
  using assms
  by (auto simp: sendData_def Let_def send_buffer_frame split: option.splits if_splits read_result.splits)

lemma run_loop_results:
  assumes "run_loop ser par ems c = Inr (c', outs)"
  shows "length outs = length ems \<and> length (results c') \<le> length (results c) + length ems"
  using assms
proof (induction ser par ems c arbitrary: c' outs rule: run_loop.induct)
  case (1 ser par c)
  then show ?case by simp
next
  case (2 ser par env msg rest c)
  obtain ok c1 where s: "startClient env c = (ok, c1)" by (cases "startClient env c")
  have r1: "results c1 = results c" using startClient_simps(1) [of env c] s by simp
  show ?case
  proof (cases ok)
    case False
    with "2.prems" s obtain outs' where "run_loop ser par rest c1 = Inr (c', outs')" "outs = [] # outs'"
      by auto
    with "2.IH"(1) [OF refl s [symmetric] _ this(1)] False r1 show ?thesis by auto
  next
    case True
    with "2.prems" s obtain n c2 out outs' where
        d: "sendData ser par env msg c1 = Inr (n, c2, out)" "run_loop ser par rest c2 = Inr (c', outs')" "outs = out # outs'"
      by auto
    from sendData_cases [OF d(1)] r1 have "length (results c2) \<le> Suc (length (results c))"
      by (elim conjE disjE exE) simp_all
    with "2.IH"(2) [OF refl s [symmetric] _ d(2)] True d(3) show ?thesis by simp
  qed
qed

text \<open>
  A run makes one attempt per message: it records at most one result per message, and it stops in an
  undefined way only at a message whose type was never set.
\<close>

lemma client_run_bounded:
  "case client_run ser par envs c of
     Inr (c', outs) \<Rightarrow> length outs = min (length envs) (length (input_data c)) \<and>
       length (results c') \<le> length (results c) + length outs
   | Inl e \<Rightarrow> e = Uninitialised \<and> (\<exists>msg \<in> set (input_data c). msg_type msg = None)"
proof -
  have err: "e = Uninitialised \<and> (\<exists>(env, msg) \<in> set ems. msg_type msg = None)"
    if "run_loop ser par ems c = Inl e" for ems c e
    using that
  proof (induction ser par ems c rule: run_loop.induct)
    case (1 ser par c)
    then show ?case by simp
  next
    case (2 ser par env msg rest c)
    have "sendData ser par env msg c1 = Inl e \<Longrightarrow> e = Uninitialised \<and> msg_type msg = None" for c1
      by (auto simp: sendData_def Let_def split: option.splits if_splits read_result.splits)
    with 2 show ?case by (fastforce split: prod.splits if_splits)
  qed
  show ?thesis
    using run_loop_results [of ser par "zip envs (input_data c)" c] err [of "zip envs (input_data c)" c]
    by (auto simp: client_run_def split: sum.splits dest!: set_zip_rightD)
qed

section \<open>Properties\<close>

text \<open>A request that is written completely sends the frame of its payload and records what the first
  80 bytes of the response parse to; a longer response is cut there.\<close>

theorem client_reads_80_bytes:
  assumes "msg_type msg = Some t" and "request_payload t msg = Some p"
    and "env_write env = int (length (ser p) + 4)" and "env_read env = Read_data bs"
  shows "\<exists>c'. sendData ser par env msg c = Inr (int (length (ser p) + 4), c', frame (ser p)) \<and>
    map res_payload (results c') = map res_payload (results c) @ [snd (par (if 80 < length bs then take 80 bs else bs))]"
proof -
  have "env_write env = int (length (send_buffer ser p))" by (simp add: assms(3) send_buffer_frame)
  from sendData_success [OF assms(1,2) this assms(4), of par c] assms(3) show ?thesis
    by (simp add: MAX_READ_def)
qed

definition sample_env :: conn_env where
  "sample_env = \<lparr> env_socket = 3, env_connect = 0, env_write = 4, env_read = Read_data (replicate 100 1),
     env_duration = 10, env_stamp = 1 \<rparr>"

theorem client_reads_80_bytes_witness:
  "\<exists>c'. sendData no_codec (\<lambda>bs. (True, empty_payload\<lparr>pb_key := Some (replicate (length bs) CHR ''x'')\<rparr>)) sample_env
      (new_message\<lparr>msg_type := Some STAT\<rparr>) (new_client 0 0 ''h'' 1) = Inr (4, c', frame []) \<and>
    map res_payload (results c') = [empty_payload\<lparr>pb_key := Some (replicate 80 CHR ''x'')\<rparr>]"
  using client_reads_80_bytes [of "new_message\<lparr>msg_type := Some STAT\<rparr>" STAT
      "empty_payload\<lparr>pb_requesttype := Some STAT\<rparr>" sample_env no_codec "replicate 100 1"
      "\<lambda>bs. (True, empty_payload\<lparr>pb_key := Some (replicate (length bs) CHR ''x'')\<rparr>)" "new_client 0 0 ''h'' 1"]
  by (simp add: request_payload_def sample_env_def no_codec_def new_client_def)

end
