(* ===== verification/TestClient.thy ===== *)
theory TestClient
  imports Client Options "HOL-Library.Multiset"
begin

text \<open>
  The class \<open>TestClient\<close> (\<open>client/src/TestClient.cpp\<close>): it reads the requests from a file, splits them
  among client threads, and writes the collected results. The file is an argument (\<open>None\<close> when it cannot be
  opened); the text written is a result.
\<close>

section \<open>Parsing a line\<close>

definition comma :: char where
  "comma = CHR '',''"

definition newline :: char where
  "newline = CHR 0x0A"

text \<open>The tokens that repeated calls of \<open>strtok_r\<close> give: delimiters in front of a token are skipped.\<close>

function strtok_all :: "string \<Rightarrow> string list" where
  "strtok_all s =
     (let s' = dropWhile (\<lambda>c. c = comma) s in
      if s' = [] then []
      else let tok = takeWhile (\<lambda>c. c \<noteq> comma) s'
           in tok # strtok_all (drop (Suc (length tok)) s'))"
  by pat_completeness auto

termination
proof (relation "measure length")
  fix s s' tok :: string
  assume s': "s' = dropWhile (\<lambda>c. c = comma) s" and "s' \<noteq> []"
  then have "length s' - Suc (length tok) < length s'" by (cases s') auto
  also have "\<dots> \<le> length s" unfolding s' by (rule length_dropWhile_le)
  finally show "(drop (Suc (length tok)) s', s) \<in> measure length" by simp
qed simp

declare strtok_all.simps [simp del]

text \<open>\<open>line.c_str()\<close> ends at the first null character.\<close>

definition c_str :: "string \<Rightarrow> string" where
  "c_str s = takeWhile (\<lambda>c. c \<noteq> CHR 0x00) s"

definition toupper :: "char \<Rightarrow> char" where
  "toupper c = (if 97 \<le> (of_char c :: nat) \<and> (of_char c :: nat) \<le> 122 then char_of ((of_char c :: nat) - 32) else c)"

definition caseInSensStringCompare :: "string \<Rightarrow> string \<Rightarrow> bool" where
  "caseInSensStringCompare str1 str2 \<longleftrightarrow> length str1 = length str2 \<and>
     list_all2 (\<lambda>c1 c2. c1 = c2 \<or> toupper c1 = toupper c2) str1 str2"

definition line_fields :: "string \<Rightarrow> string list" where
  "line_fields line = map trim (strtok_all (c_str line))"

definition fields_message :: "string list \<Rightarrow> message" where
  "fields_message fs =
     (if fs = [] then new_message
      else if caseInSensStringCompare (fs ! 0) ''GET'' \<and> 2 \<le> length fs then
        new_message\<lparr>msg_type := Some GET, msg_key := fs ! 1\<rparr>
      else if caseInSensStringCompare (fs ! 0) ''SET'' \<and> 3 \<le> length fs then
        new_message\<lparr>msg_type := Some SET, msg_key := fs ! 1, msg_value := fs ! 2\<rparr>
      else if caseInSensStringCompare (fs ! 0) ''STAT'' then new_message\<lparr>msg_type := Some STAT\<rparr>
      else new_message)"

definition parse_line :: "string \<Rightarrow> message" where
  "parse_line line = fields_message (line_fields line)"

section \<open>Reading the file\<close>

record instream =
  is_rest :: string
  eofbit :: bool
  failbit :: bool

definition open_stream :: "string option \<Rightarrow> instream" where
  "open_stream file = (case file of
     None \<Rightarrow> \<lparr>is_rest = [], eofbit = False, failbit = True\<rparr>
   | Some text \<Rightarrow> \<lparr>is_rest = text, eofbit = False, failbit = False\<rparr>)"

text \<open>\<open>std::getline\<close>: on a stream that is not good it only fails, and leaves the line as it was.\<close>

definition getline :: "instream \<Rightarrow> string \<Rightarrow> instream \<times> string" where
  "getline st line =
     (if eofbit st \<or> failbit st then (st\<lparr>failbit := True\<rparr>, line)
      else let l = takeWhile (\<lambda>c. c \<noteq> newline) (is_rest st) in
        if length l = length (is_rest st) then (st\<lparr>is_rest := [], eofbit := True, failbit := (l = [])\<rparr>, l)
        else (st\<lparr>is_rest := drop (Suc (length l)) (is_rest st)\<rparr>, l))"

partial_function (option) read_lines :: "instream \<Rightarrow> string \<Rightarrow> message list \<Rightarrow> message list option" where
  "read_lines st line acc =
     (if eofbit st then Some acc
      else case getline st line of (st', line') \<Rightarrow> read_lines st' line' (acc @ [parse_line line']))"

definition readAndParseInputFile :: "string option \<Rightarrow> message list res" where
  "readAndParseInputFile file = returning (read_lines (open_stream file) [] [])"

section \<open>Splitting the work\<close>

fun chunk_loop :: "message list \<Rightarrow> nat \<Rightarrow> nat \<Rightarrow> nat \<Rightarrow> message list list" where
  "chunk_loop xs chunk_size start_size 0 = []"
| "chunk_loop xs chunk_size start_size (Suc k) =
     (if k = 0 then drop start_size xs else take chunk_size (drop start_size xs)) #
     chunk_loop xs chunk_size (start_size + chunk_size) k"

text \<open>The number of threads is an \<open>int\<close>, converted to \<open>size_t\<close> for the division.\<close>

definition start_chunks :: "int \<Rightarrow> message list \<Rightarrow> message list list res" where
  "start_chunks num_thread xs =
     (if num_thread = 0 then Inl Div_by_zero
      else Inr (chunk_loop xs (length xs div nat (num_thread mod 2 ^ 64)) 0 (nat num_thread)))"

text \<open>The clients run in threads of their own and share nothing; each has its environment.\<close>

fun run_clients ::
  "(payload \<Rightarrow> byte list) \<Rightarrow> (byte list \<Rightarrow> bool \<times> payload) \<Rightarrow> (message list \<Rightarrow> client) \<Rightarrow>
   (conn_env list \<times> message list) list \<Rightarrow> client list res" where
  "run_clients ser par mk [] = Inr []"
| "run_clients ser par mk ((envs, chunk) # rest) =
     rbind (client_run ser par envs (mk chunk)) (\<lambda>(c, _).
     rbind (run_clients ser par mk rest) (\<lambda>cs. Inr (c # cs)))"

section \<open>Saving the results\<close>

fun dec_string :: "nat \<Rightarrow> string" where
  "dec_string n = (if n < 10 then [char_of (48 + n)] else dec_string (n div 10) @ [char_of (48 + n mod 10)])"

declare dec_string.simps [simp del]

definition to_string :: "int \<Rightarrow> string" where
  "to_string i = (if i < 0 then CHR ''-'' # dec_string (nat (- i)) else dec_string (nat i))"

fun getReqType :: "request_type \<Rightarrow> string" where
  "getReqType GET = ''GET''"
| "getReqType SET = ''SET''"
| "getReqType STAT = ''STAT''"

definition compareByTimestamp :: "result_data \<Rightarrow> result_data \<Rightarrow> bool" where
  "compareByTimestamp a b \<longleftrightarrow> timestamp a < timestamp b"

definition opt_field :: "string option \<Rightarrow> string" where
  "opt_field x = (case x of None \<Rightarrow> [] | Some s \<Rightarrow> comma # s)"

definition stat_fields :: "stat_msg \<Rightarrow> string" where
  "stat_fields s = concat (map (\<lambda>x. opt_field (map_option (\<lambda>v. to_string (sint v)) x))
     [numgetreq s, numsuccgetreq s, numfailgetreq s])"

text \<open>The line of a result; a payload without a request type has none.\<close>

definition result_line :: "result_data \<Rightarrow> string option" where
  "result_line r =
     (let p = res_payload r in
      case pb_requesttype p of
        None \<Rightarrow> None
      | Some t \<Rightarrow> Some
          (to_string (uint (timestamp r)) @ comma # getReqType t @ opt_field (pb_key p) @
           (if pb_value p \<noteq> None then opt_field (pb_value p)
            else if t = GET then opt_field (pb_reason p) else []) @
           (case pb_stats p of None \<Rightarrow> [] | Some s \<Rightarrow> stat_fields s) @ [newline]))"

definition MAX_LINE_WRITE :: u64 where
  "MAX_LINE_WRITE = 1024"

text \<open>The loop collects lines and writes them to the file \<open>out\<close> in batches.\<close>

fun save_loop :: "result_data list \<Rightarrow> string \<Rightarrow> u64 \<Rightarrow> string \<Rightarrow> string \<times> string" where
  "save_loop [] dat cnt out = (dat, out)"
| "save_loop (r # rs) dat cnt out =
     (case result_line r of
        None \<Rightarrow> save_loop rs dat cnt out
      | Some line \<Rightarrow>
          if cnt + 1 = MAX_LINE_WRITE then save_loop rs [] 0 (out @ dat @ line)
          else save_loop rs (dat @ line) (cnt + 1) out)"

fun latency_loop :: "u32 \<Rightarrow> client list \<Rightarrow> u32" where
  "latency_loop avg [] = avg"
| "latency_loop avg (c # cs) =
     latency_loop (if avg = 0 then getAverageLatency c else (avg + getAverageLatency c) div 2) cs"

definition latency_text :: "u32 \<Rightarrow> string" where
  "latency_text avg = [newline, newline] @ ''    Avergage Latency: '' @ to_string (uint avg) @ '' microseconds''"

text \<open>The name of the file and what is appended to it; nothing is done without results.\<close>

definition saveResults :: "nat \<Rightarrow> client list \<Rightarrow> (string \<times> string) option" where
  "saveResults seconds pool =
     (let rs = concat (map getResults pool) in
      if rs = [] then None
      else (case save_loop (sort_key (\<lambda>r. unat (timestamp r)) rs) [] 0 [] of (dat, out) \<Rightarrow>
        Some (''./results/results_'' @ dec_string seconds @ ''.csv'',
          (if dat \<noteq> [] then out @ dat else out) @ latency_text (latency_loop 0 pool))))"

section \<open>The test client\<close>

record test_client =
  m_inputFile :: string
  m_numThread :: int
  m_host :: string
  m_clientPort :: int

definition new_test_client :: "string \<Rightarrow> int \<Rightarrow> string \<Rightarrow> int \<Rightarrow> test_client" where
  "new_test_client input_file num_thread host port =
     \<lparr> m_inputFile = input_file, m_numThread = num_thread, m_host = host, m_clientPort = port \<rparr>"

text \<open>
  \<open>start\<close>: read, split, run, save. \<open>files\<close> gives the content of a file that can be opened, \<open>junk\<close> what the unset
  fields of a client hold.
\<close>

definition test_client_start ::
  "(payload \<Rightarrow> byte list) \<Rightarrow> (byte list \<Rightarrow> bool \<times> payload) \<Rightarrow> (message list \<Rightarrow> u32 \<times> fd) \<Rightarrow>
   conn_env list list \<Rightarrow> nat \<Rightarrow> (string \<Rightarrow> string option) \<Rightarrow> test_client \<Rightarrow> (string \<times> string) option res" where
  "test_client_start ser par junk envs seconds files tc =
     rbind (readAndParseInputFile (files (m_inputFile tc))) (\<lambda>input.
     rbind (start_chunks (m_numThread tc) input) (\<lambda>chunks.
     rbind (run_clients ser par
         (\<lambda>chunk. setInputData chunk (case junk chunk of (avg, d) \<Rightarrow> new_client avg d (m_host tc) (word_of_int (m_clientPort tc))))
         (zip envs chunks)) (\<lambda>pool.
     Inr (saveResults seconds pool))))"

section \<open>The main function\<close>

record client_config =
  ccfg_host :: string
  ccfg_port :: int
  ccfg_num_thread :: int
  ccfg_input_file :: string

definition empty_client_config :: client_config where
  "empty_client_config = \<lparr> ccfg_host = [], ccfg_port = 0, ccfg_num_thread = 0, ccfg_input_file = [] \<rparr>"

text \<open>The loop over the options; \<open>None\<close> is the early return after an unknown one.\<close>

fun client_option_loop :: "option_result list \<Rightarrow> client_config \<Rightarrow> client_config option res" where
  "client_option_loop [] cfg = Inr (Some cfg)"
| "client_option_loop (Opt c arg # os) cfg =
     (if c = CHR ''h'' then client_option_loop os cfg
      else if c = CHR ''t'' then rbind (atoi arg) (\<lambda>n. client_option_loop os (cfg\<lparr>ccfg_num_thread := n\<rparr>))
      else if c = CHR ''i'' then client_option_loop os (cfg\<lparr>ccfg_host := arg\<rparr>)
      else if c = CHR ''p'' then rbind (atoi arg) (\<lambda>n. client_option_loop os (cfg\<lparr>ccfg_port := n\<rparr>))
      else if c = CHR ''f'' then client_option_loop os (cfg\<lparr>ccfg_input_file := arg\<rparr>)
      else Inr None)"

text \<open>The exit status and what is saved.\<close>

definition main_client ::
  "(payload \<Rightarrow> byte list) \<Rightarrow> (byte list \<Rightarrow> bool \<times> payload) \<Rightarrow> (message list \<Rightarrow> u32 \<times> fd) \<Rightarrow> conn_env list list \<Rightarrow>
   nat \<Rightarrow> (string \<Rightarrow> string option) \<Rightarrow> nat \<Rightarrow> option_result list \<Rightarrow> (int \<times> (string \<times> string) option) res" where
  "main_client ser par junk envs seconds files argc opts =
     rbind (client_option_loop opts empty_client_config) (\<lambda>r.
       case r of
         None \<Rightarrow> Inr (1, None)
       | Some cfg \<Rightarrow>
           if argc < 9 then Inr (1, None)
           else rbind (test_client_start ser par junk envs seconds files
               (new_test_client (ccfg_input_file cfg) (ccfg_num_thread cfg) (ccfg_host cfg) (ccfg_port cfg)))
             (\<lambda>saved. Inr (0, saved)))"

section \<open>Lines and tokens\<close>

lemma strtok_all_single:
  assumes "p \<noteq> []" and "comma \<notin> set p"
  shows "strtok_all p = [p]"
proof -
  have "dropWhile (\<lambda>c. c = comma) p = p" using assms by (cases p) auto
  moreover have "takeWhile (\<lambda>c. c \<noteq> comma) p = p" using assms(2) by (auto simp: takeWhile_eq_all_conv)
  ultimately show ?thesis using assms(1)
    by (subst strtok_all.simps) (simp add: strtok_all.simps [of "[]"] Let_def del: takeWhile_eq_all_conv)
qed

lemma strtok_all_Cons:
  assumes "p \<noteq> []" and "comma \<notin> set p"
  shows "strtok_all (p @ comma # s) = p # strtok_all s"
proof -
  have "dropWhile (\<lambda>c. c = comma) (p @ comma # s) = p @ comma # s" using assms by (cases p) auto
  moreover have "takeWhile (\<lambda>c. c \<noteq> comma) (p @ comma # s) = p"
    using assms(2) by (auto simp: takeWhile_append takeWhile_eq_all_conv)
  ultimately show ?thesis by (subst strtok_all.simps) simp
qed

definition plain_field :: "string \<Rightarrow> bool" where
  "plain_field p \<longleftrightarrow> p \<noteq> [] \<and> comma \<notin> set p \<and> CHR 0x00 \<notin> set p"

lemma c_str_id: "CHR 0x00 \<notin> set s \<Longrightarrow> c_str s = s"
  by (auto simp: c_str_def takeWhile_eq_all_conv)

lemma line_fields_plain:
  assumes "plain_field a"
  shows "line_fields a = [trim a]"
    and "plain_field k \<Longrightarrow> line_fields (a @ comma # k) = [trim a, trim k]"
    and "plain_field k \<Longrightarrow> plain_field v \<Longrightarrow> line_fields (a @ comma # k @ comma # v) = [trim a, trim k, trim v]"
proof -
  have z: "CHR 0x00 \<noteq> comma" by (simp add: comma_def)
  show "line_fields a = [trim a]"
    using assms by (simp add: line_fields_def c_str_id plain_field_def strtok_all_single)
  show "line_fields (a @ comma # k) = [trim a, trim k]" if "plain_field k"
    using assms that z
    by (simp add: line_fields_def c_str_id plain_field_def strtok_all_Cons strtok_all_single)
  show "line_fields (a @ comma # k @ comma # v) = [trim a, trim k, trim v]" if "plain_field k" "plain_field v"
    using assms that z
    by (simp add: line_fields_def c_str_id plain_field_def strtok_all_Cons strtok_all_single)
qed

lemma case_compare_length: "caseInSensStringCompare a b \<Longrightarrow> length a = length b"
  by (simp add: caseInSensStringCompare_def)

lemma case_compare_exclusive:
  assumes "caseInSensStringCompare a ''SET''"
  shows "\<not> caseInSensStringCompare a ''GET''"
proof
  assume "caseInSensStringCompare a ''GET''"
  with assms have "toupper (a ! 0) = CHR ''S''" "toupper (a ! 0) = CHR ''G''"
    unfolding caseInSensStringCompare_def list_all2_conv_all_nth
    by (auto simp: toupper_def dest!: spec [of _ 0])
  then show False by simp
qed

text \<open>The lines of a text: one more than it has newlines.\<close>

function split_lines :: "string \<Rightarrow> string list" where
  "split_lines s =
     (let l = takeWhile (\<lambda>c. c \<noteq> newline) s in
      if length l = length s then [l] else l # split_lines (drop (Suc (length l)) s))"
  by pat_completeness auto
termination
  by (relation "measure length") (auto simp: Let_def intro: diff_less)

declare split_lines.simps [simp del]

section \<open>The reading loop\<close>

abbreviation good_stream :: "string \<Rightarrow> instream" where
  "good_stream s \<equiv> \<lparr>is_rest = s, eofbit = False, failbit = False\<rparr>"

lemma first_line:
  assumes "newline \<notin> set l"
  shows "takeWhile (\<lambda>c. c \<noteq> newline) l = l" and "takeWhile (\<lambda>c. c \<noteq> newline) (l @ newline # t) = l"
  using assms by (induction l) auto

lemma split_lines_last:
  assumes "newline \<notin> set l"
  shows "split_lines l = [l]"
  by (subst split_lines.simps) (simp only: first_line(1) [OF assms] Let_def if_True refl)

lemma split_lines_Cons: "newline \<notin> set l \<Longrightarrow> split_lines (l @ newline # t) = l # split_lines t"
  by (subst split_lines.simps) (simp add: first_line(2) Let_def)

lemma lines_induct [case_names last more]:
  assumes "\<And>l. newline \<notin> set l \<Longrightarrow> P l"
    and "\<And>l t. newline \<notin> set l \<Longrightarrow> P t \<Longrightarrow> P (l @ newline # t)"
  shows "P s"
proof (induction s rule: length_induct)
  case (1 s)
  show ?case
  proof (cases "newline \<in> set s")
    case False
    then show ?thesis by (rule assms(1))
  next
    case True
    then obtain l t where s: "s = l @ newline # t" "newline \<notin> set l" by (metis split_list_first)
    with 1 have "P t" by simp
    with s(2) show ?thesis unfolding s(1) by (rule assms(2))
  qed
qed

lemma read_lines_good:
  "read_lines (good_stream s) line acc = Some (acc @ map parse_line (split_lines s))"
proof (induction s arbitrary: line acc rule: lines_induct)
  case (last l)
  have "getline (good_stream l) line = (\<lparr>is_rest = [], eofbit = True, failbit = (l = [])\<rparr>, l)"
    by (simp only: getline_def instream.simps first_line(1) [OF last] Let_def simp_thms if_True if_False)
  then show ?case
    by (subst read_lines.simps) (simp add: split_lines_last [OF last] read_lines.simps)
next
  case (more l t)
  have "getline (good_stream (l @ newline # t)) line = (good_stream t, l)"
    by (simp add: getline_def first_line(2) [OF more(1)] Let_def)
  then show ?case
    by (subst read_lines.simps) (simp add: split_lines_Cons [OF more(1)] more(2))
qed

lemma length_split_lines: "length (split_lines s) = Suc (count_list s newline)"
proof (induction s rule: lines_induct)
  case (last l)
  then have "count_list l newline = 0" by (simp add: count_list_0_iff)
  then show ?case by (simp add: split_lines_last [OF last])
next
  case (more l t)
  then have "count_list l newline = 0" by (simp add: count_list_0_iff)
  with more show ?case by (simp add: split_lines_Cons [OF more(1)])
qed

lemma split_lines_snoc: "split_lines (s @ [newline]) = split_lines s @ [[]]"
proof (induction s rule: lines_induct)
  case (last l)
  then show ?case using split_lines_Cons [OF last, of "[]"] by (simp add: split_lines_last)
next
  case (more l t)
  then show ?case using split_lines_Cons [OF more(1)] by simp
qed

lemma read_lines_failed:
  assumes "failbit st" and "\<not> eofbit st"
  shows "read_lines st line acc = None"
proof (rule ccontr)
  assume "read_lines st line acc \<noteq> None"
  then obtain res where ret: "read_lines st line acc = Some res" by blast
  have "failbit st \<longrightarrow> eofbit st"
  proof (rule read_lines.raw_induct [where P = "\<lambda>st line acc res. failbit st \<longrightarrow> eofbit st", OF _ ret], rule impI)
    fix f :: "instream \<Rightarrow> string \<Rightarrow> message list \<Rightarrow> message list option" and st line acc res
    assume IH: "\<And>st line acc res. f st line acc = Some res \<Longrightarrow> failbit st \<longrightarrow> eofbit st"
      and eq: "(if eofbit st then Some acc
        else case getline st line of (st', line') \<Rightarrow> f st' line' (acc @ [parse_line line'])) = Some res"
      and fl: "failbit st"
    show "eofbit st"
    proof (rule ccontr)
      assume ne: "\<not> eofbit st"
      with eq fl have "f (st\<lparr>failbit := True\<rparr>) line (acc @ [parse_line line]) = Some res"
        by (simp add: getline_def)
      from IH [OF this] ne show False by simp
    qed
  qed
  with assms show False by blast
qed

section \<open>Chunks\<close>

lemma chunk_loop_partition:
  "0 < k \<Longrightarrow> concat (chunk_loop xs c j k) = drop j xs \<and> length (chunk_loop xs c j k) = k \<and>
    (\<forall>i. i + 1 < k \<longrightarrow> chunk_loop xs c j k ! i = take c (drop (j + i * c) xs))"
proof (induction xs c j k rule: chunk_loop.induct)
  case (1 xs c j)
  then show ?case by simp
next
  case (2 xs c j k)
  show ?case
  proof (cases "k = 0")
    case True
    then show ?thesis by simp
  next
    case False
    have "take c (drop j xs) @ drop (j + c) xs = drop j xs"
      by (metis append_take_drop_id drop_drop add.commute)
    with False "2.IH" show ?thesis
      by (auto simp: nth_Cons algebra_simps split: nat.split)
  qed
qed

section \<open>The batches\<close>

definition line_of :: "result_data \<Rightarrow> string" where
  "line_of r = (case result_line r of None \<Rightarrow> [] | Some l \<Rightarrow> l)"

lemma save_loop_lines:
  "(case save_loop rs dat cnt out of (dat', out') \<Rightarrow> out' @ dat') = out @ dat @ concat (map line_of rs)"
  by (induction rs dat cnt out rule: save_loop.induct)
    (auto simp: line_of_def split: option.splits prod.splits)

lemma saveResults_text:
  assumes "concat (map results pool) \<noteq> []"
  shows "saveResults seconds pool =
    Some (''./results/results_'' @ dec_string seconds @ ''.csv'',
      concat (map line_of (sort_key (\<lambda>r. unat (timestamp r)) (concat (map results pool)))) @
        latency_text (latency_loop 0 pool))"
proof -
  let ?rs = "sort_key (\<lambda>r. unat (timestamp r)) (concat (map results pool))"
  obtain dat out where d: "save_loop ?rs [] 0 [] = (dat, out)" by (cases "save_loop ?rs [] 0 []")
  then have "out @ dat = concat (map line_of ?rs)" using save_loop_lines [of ?rs "[]" 0 "[]"] by simp
  moreover have "(if dat \<noteq> [] then out @ dat else out) = out @ dat" by simp
  ultimately show ?thesis unfolding saveResults_def client_getters Let_def d using assms by simp
qed

lemma compare_sorted:
  "sorted_wrt (\<lambda>a b. \<not> compareByTimestamp b a) (sort_key (\<lambda>r. unat (timestamp r)) rs)"
proof -
  have "sorted (map (\<lambda>r. unat (timestamp r)) (sort_key (\<lambda>r. unat (timestamp r)) rs))" by simp
  then show ?thesis
    by (simp add: sorted_map compareByTimestamp_def not_less word_le_nat_alt)
qed

section \<open>Options\<close>

text \<open>Without a number of threads, or with one of zero, reading succeeds and the split divides by zero; without
  a file that can be opened, the program never ends.\<close>

lemma main_client_faults:
  assumes "client_option_loop opts empty_client_config = Inr (Some cfg)" and "\<not> argc < 9"
  shows "files (ccfg_input_file cfg) = None \<Longrightarrow> main_client ser par junk envs seconds files argc opts = Inl Diverges"
    and "files (ccfg_input_file cfg) = Some s \<Longrightarrow> ccfg_num_thread cfg = 0 \<Longrightarrow>
      main_client ser par junk envs seconds files argc opts = Inl Div_by_zero"
  using assms
  by (simp_all add: main_client_def new_test_client_def test_client_start_def readAndParseInputFile_def open_stream_def
      read_lines_failed read_lines_good start_chunks_def del: rbind_Inl_iff)

section \<open>Properties\<close>

text \<open>C39: a well-formed line is read as the request it means, in any case and with any white space
  around its fields; a line of another form leaves the type of the message without a value.\<close>

theorem parse_line_requests:
  assumes "plain_field a" and "plain_field k" and "plain_field v"
  shows "(caseInSensStringCompare (trim a) ''GET'' \<longrightarrow>
      parse_line (a @ comma # k) = \<lparr>msg_type = Some GET, msg_key = trim k, msg_value = []\<rparr>) \<and>
    (caseInSensStringCompare (trim a) ''SET'' \<longrightarrow>
      parse_line (a @ comma # k @ comma # v) = \<lparr>msg_type = Some SET, msg_key = trim k, msg_value = trim v\<rparr> \<and>
      msg_type (parse_line (a @ comma # k)) = None) \<and>
    (caseInSensStringCompare (trim a) ''STAT'' \<longrightarrow> msg_type (parse_line a) = Some STAT) \<and>
    msg_type (parse_line []) = None"
proof -
  have "line_fields [] = []" by (simp add: line_fields_def c_str_def strtok_all.simps [of "[]"])
  then show ?thesis
    using line_fields_plain [OF assms(1)] assms(2,3)
      case_compare_exclusive [of "trim a"] case_compare_length [of "trim a" "''GET''"]
      case_compare_length [of "trim a" "''SET''"] case_compare_length [of "trim a" "''STAT''"]
    by (auto simp: parse_line_def fields_message_def new_message_def)
qed

theorem parse_line_requests_witness:
  "parse_line (''get'' @ comma # '' key'') = \<lparr>msg_type = Some GET, msg_key = ''key'', msg_value = []\<rparr>"
proof -
  have "trim ''get'' = ''get''" "trim '' key'' = ''key''"
    by (simp_all add: trim_dropWhile WHITESPACE_def)
  moreover have "caseInSensStringCompare ''get'' ''GET''"
    by code_simp
  ultimately show ?thesis
    using parse_line_requests [of "''get''" "'' key''" "''v''"] by (simp add: plain_field_def comma_def)
qed

text \<open>C38: an opened file gives one message per line, and one more than it has newlines, so that a final
  newline yields a message without a type; when the file cannot be opened, reading never ends.\<close>

theorem input_file_messages:
  "readAndParseInputFile (Some s) = Inr (map parse_line (split_lines s)) \<and>
   length (split_lines s) = Suc (count_list s newline) \<and>
   split_lines (s @ [newline]) = split_lines s @ [[]] \<and>
   readAndParseInputFile None = Inl Diverges"
proof -
  have "readAndParseInputFile None = Inl Diverges"
    by (simp add: readAndParseInputFile_def open_stream_def read_lines_failed)
  then show ?thesis
    by (simp add: readAndParseInputFile_def open_stream_def read_lines_good length_split_lines split_lines_snoc)
qed

text \<open>C40: the chunks given to the client threads are a partition of the messages in order, all but the
  last of the same length; with no threads the division faults.\<close>

theorem chunks_partition:
  "(0 < n \<and> n < 2 ^ 31 \<longrightarrow> (\<exists>cs. start_chunks n xs = Inr cs \<and> concat cs = xs \<and> length cs = nat n \<and>
      (\<forall>i. i + 1 < nat n \<longrightarrow> length (cs ! i) = length xs div nat n))) \<and>
   start_chunks 0 xs = Inl Div_by_zero"
proof -
  have "\<exists>cs. start_chunks n xs = Inr cs \<and> concat cs = xs \<and> length cs = nat n \<and>
      (\<forall>i. i + 1 < nat n \<longrightarrow> length (cs ! i) = length xs div nat n)" if n: "0 < n" "n < 2 ^ 31"
  proof -
    let ?c = "length xs div nat n"
    have "n mod 2 ^ 64 = n" using n by simp
    then have eq: "start_chunks n xs = Inr (chunk_loop xs ?c 0 (nat n))"
      using n by (simp add: start_chunks_def)
    have fit: "i * ?c + ?c \<le> length xs" if "i + 1 < nat n" for i
    proof -
      have "i * ?c + ?c = (i + 1) * ?c" by simp
      also have "\<dots> \<le> nat n * ?c" using that by (intro mult_le_mono1) simp
      also have "\<dots> \<le> length xs" by simp
      finally show ?thesis .
    qed
    have "length (chunk_loop xs ?c 0 (nat n) ! i) = ?c" if "i + 1 < nat n" for i
      using chunk_loop_partition [of "nat n" xs ?c 0] n fit [OF that] that by auto
    then show ?thesis using chunk_loop_partition [of "nat n" xs ?c 0] n eq by auto
  qed
  then show ?thesis by (auto simp: start_chunks_def)
qed

theorem chunks_partition_witness:
  "\<exists>cs. start_chunks 3 (replicate 10 new_message) = Inr cs \<and> concat cs = replicate 10 new_message \<and> length cs = 3"
  using chunks_partition [of 3 "replicate 10 new_message"] by auto

text \<open>The batches lose and reorder nothing: what is written are the lines of all results that have a
  request type, in the order of their time stamps, followed by the latency; nothing is written without results.\<close>

theorem saved_file_complete:
  "\<exists>rs. mset rs = mset (concat (map results pool)) \<and>
    sorted_wrt (\<lambda>a b. \<not> compareByTimestamp b a) rs \<and>
    (if rs = [] then saveResults seconds pool = None
     else saveResults seconds pool = Some (''./results/results_'' @ dec_string seconds @ ''.csv'',
       concat (map (\<lambda>r. case result_line r of None \<Rightarrow> [] | Some l \<Rightarrow> l) rs) @ latency_text (latency_loop 0 pool)))"
proof (cases "concat (map results pool) = []")
  case True
  then show ?thesis unfolding saveResults_def client_getters Let_def True by (intro exI [of _ "[]"]) simp
next
  case False
  have ne: "sort_key (\<lambda>r. unat (timestamp r)) (concat (map results pool)) \<noteq> []"
    using False by (metis length_0_conv length_sort)
  show ?thesis
    using saveResults_text [OF False, of seconds] compare_sorted ne
    by (intro exI [of _ "sort_key (\<lambda>r. unat (timestamp r)) (concat (map results pool))"]) (simp add: line_of_def [abs_def])
qed

end
