(* ===== verification/ClientServer.thy ===== *)
theory ClientServer
  imports Network TestClient
begin

text \<open>
  The two programs together: the server of \<open>Network\<close> and the threads of a \<open>TestClient\<close>, each in the loop of
  \<open>Client::run\<close>: connect, send, wait, read the answer, go on with the next message. Their steps and those of
  the server's threads interleave in any order, and strangers may use the server at the same time. The threads
  are shown to be linearizable, and their results to be those of the sequential functions \<open>client_run\<close> and
  \<open>main_client\<close> in the environments that the server has made. Connects and writes of the clients succeed, and an
  answer is read in one piece, up to its first 80 bytes.
\<close>

section \<open>Steps\<close>

text \<open>
  A client thread in \<open>Client::run\<close>: its object, the messages it has still to send, and the connection on which it
  waits, with the server's descriptor and, once the server has written it, the answer. \<open>ct_envs\<close> records the
  environments of the finished iterations.
\<close>

record client_thread =
  ct_obj :: client
  ct_todo :: "message list"
  ct_open :: "(conn_env \<times> message \<times> fd \<times> byte list option) option"
  ct_envs :: "conn_env list"

definition start_thread :: "client \<Rightarrow> client_thread" where
  "start_thread c = \<lparr> ct_obj = c, ct_todo = input_data c, ct_open = None, ct_envs = [] \<rparr>"

text \<open>The log of the answered requests says which of the clients has sent each; \<open>None\<close> stands for a stranger.\<close>

record 'd world =
  w_net :: "'d net"
  w_clients :: "client_thread list"
  w_log :: "(nat option \<times> payload \<times> byte list) list"

definition msg_request :: "message \<Rightarrow> payload option" where
  "msg_request m = Option.bind (msg_type m) (\<lambda>t. request_payload t m)"

definition open_fd :: "client_thread \<Rightarrow> fd option" where
  "open_fd t = map_option (\<lambda>(env, m, fd, a). fd) (ct_open t)"

text \<open>
  A step of the server or of strangers leaves the connections of the waiting clients as they are, except that
  more of a request may arrive.
\<close>

definition undisturbed :: "client_thread list \<Rightarrow> 'd net \<Rightarrow> 'd net \<Rightarrow> bool" where
  "undisturbed ts N M \<longleftrightarrow> (\<forall>t \<in> set ts. \<forall>fd. open_fd t = Some fd \<longrightarrow> net_conns M fd = net_conns N fd \<or>
     (\<exists>q k k'. net_conns N fd = Some (q, Receiving k) \<and> net_conns M fd = Some (q, Receiving k')))"

inductive world_step ::
  "(payload \<Rightarrow> byte list) \<Rightarrow> (byte list \<Rightarrow> bool \<times> payload) \<Rightarrow> (u32 \<Rightarrow> bool) \<Rightarrow> 'd world \<Rightarrow> 'd world \<Rightarrow> bool"
  for ser par alloc_ok where
  w_connect: "i < length (w_clients W) \<Longrightarrow> t = w_clients W ! i \<Longrightarrow> ct_open t = None \<Longrightarrow> ct_todo t = m # ms \<Longrightarrow>
    startClient env (ct_obj t) = (True, c) \<Longrightarrow> msg_request m = Some q \<Longrightarrow>
    sendData ser par env m c = Inr (int (length (frame (ser q))), c', frame (ser q)) \<Longrightarrow>
    net_step ser par alloc_ok (w_net W) N \<Longrightarrow> net_conns (w_net W) fd = None \<Longrightarrow>
    net_conns N = (net_conns (w_net W))(fd \<mapsto> (q, Receiving 0)) \<Longrightarrow> net_log N = net_log (w_net W) \<Longrightarrow>
    world_step ser par alloc_ok W (W\<lparr>w_net := N, w_clients := (w_clients W)[i := t
      \<lparr>ct_obj := c, ct_todo := ms, ct_open := Some (env, m, fd, None)\<rparr>]\<rparr>)"
| w_server: "net_step ser par alloc_ok (w_net W) N \<Longrightarrow> undisturbed (w_clients W) (w_net W) N \<Longrightarrow>
    net_log N = net_log (w_net W) @ lg \<Longrightarrow>
    world_step ser par alloc_ok W (W\<lparr>w_net := N, w_log := w_log W @ map (\<lambda>(fd, x). (None, x)) lg\<rparr>)"
| w_answer: "i < length (w_clients W) \<Longrightarrow> t = w_clients W ! i \<Longrightarrow> ct_open t = Some (env, m, fd, None) \<Longrightarrow>
    net_step ser par alloc_ok (w_net W) N \<Longrightarrow> net_log N = net_log (w_net W) @ [(fd, q, out)] \<Longrightarrow>
    net_conns N = (net_conns (w_net W))(fd \<mapsto> (q, Answered)) \<Longrightarrow>
    world_step ser par alloc_ok W (W\<lparr>w_net := N, w_log := w_log W @ [(Some i, q, out)],
      w_clients := (w_clients W)[i := t\<lparr>ct_open := Some (env, m, fd, Some out)\<rparr>]\<rparr>)"
| w_read: "i < length (w_clients W) \<Longrightarrow> t = w_clients W ! i \<Longrightarrow> ct_open t = Some (env, m, fd, Some out) \<Longrightarrow>
    sendData ser par (env\<lparr>env_read := Read_data out\<rparr>) m (ct_obj t) = Inr (r, c, sent) \<Longrightarrow>
    world_step ser par alloc_ok W (W\<lparr>w_clients := (w_clients W)[i := t
      \<lparr>ct_obj := c, ct_open := None, ct_envs := ct_envs t @ [env\<lparr>env_read := Read_data out\<rparr>]\<rparr>]\<rparr>)"

inductive world_run ::
  "(payload \<Rightarrow> byte list) \<Rightarrow> (byte list \<Rightarrow> bool \<times> payload) \<Rightarrow> (u32 \<Rightarrow> bool) \<Rightarrow> 'd system \<Rightarrow> client list \<Rightarrow> 'd world \<Rightarrow> bool"
  for ser par alloc_ok s0 cs where
  world_start: "world_run ser par alloc_ok s0 cs
    \<lparr> w_net = \<lparr> net_sys = s0, net_conns = Map.empty, net_log = [] \<rparr>, w_clients = map start_thread cs, w_log = [] \<rparr>"
| world_next: "world_run ser par alloc_ok s0 cs W \<Longrightarrow> world_step ser par alloc_ok W V \<Longrightarrow>
    world_run ser par alloc_ok s0 cs V"

text \<open>What the log has of one client, and the answers that the specification gives it.\<close>

definition mine :: "nat \<Rightarrow> (nat option \<times> 'a) list \<Rightarrow> 'a list" where
  "mine i lg = map snd (filter (\<lambda>(tag, _). tag = Some i) lg)"

definition finished :: "client_thread \<Rightarrow> bool" where
  "finished t \<longleftrightarrow> ct_todo t = [] \<and> ct_open t = None"

lemma mine_simps [simp]:
  "mine i [] = []" "mine i (lg @ lg') = mine i lg @ mine i lg'"
  "mine i [(tag, x)] = (if tag = Some i then [x] else [])" "mine i (map (\<lambda>(fd, x). (None, x)) xs) = []"
  by (auto simp: mine_def filter_empty_conv)

section \<open>The runs of the clients\<close>

lemma startClient_read [simp]: "startClient (env\<lparr>env_read := r\<rparr>) c = startClient env c"
  by (simp add: startClient_def Let_def)

lemma run_loop_snoc:
  assumes "startClient env c1 = (True, c2)" and "sendData ser par env m c2 = Inr (r, c3, sent)"
  shows "run_loop ser par xs c = Inr (c1, outs) \<Longrightarrow> run_loop ser par (xs @ [(env, m)]) c = Inr (c3, outs @ [sent])"
proof (induction xs arbitrary: c outs)
  case Nil
  then show ?case using assms by simp
next
  case (Cons x xs)
  obtain e msg where x: "x = (e, msg)" by (cases x)
  obtain ok c' where s: "startClient e c = (ok, c')" by (cases "startClient e c")
  show ?case
  proof (cases ok)
    case False
    with Cons.prems x s obtain outs' where "run_loop ser par xs c' = Inr (c1, outs')" "outs = [] # outs'" by auto
    with Cons.IH x s False show ?thesis by simp
  next
    case True
    with Cons.prems x s obtain n c'' o1 outs' where "sendData ser par e msg c' = Inr (n, c'', o1)"
        "run_loop ser par xs c'' = Inr (c1, outs')" "outs = o1 # outs'"
      by auto
    with Cons.IH x s True show ?thesis by simp
  qed
qed

section \<open>The invariant\<close>

text \<open>
  A thread has run the loop over the messages \<open>dn\<close>; the requests of these messages, and of the one it waits for
  if that is answered, are what the log has of the client, and its results are what it reads of the answers.
\<close>

definition answered :: "client_thread \<Rightarrow> bool" where
  "answered t \<longleftrightarrow> (\<exists>env m fd out. ct_open t = Some (env, m, fd, Some out))"

definition open_messages :: "client_thread \<Rightarrow> message list" where
  "open_messages t = (case ct_open t of None \<Rightarrow> [] | Some (env, m, fd, a) \<Rightarrow> [m])"

definition thread_run ::
  "(payload \<Rightarrow> byte list) \<Rightarrow> (byte list \<Rightarrow> bool \<times> payload) \<Rightarrow> client \<Rightarrow> client_thread \<Rightarrow> message list \<Rightarrow>
   (payload \<times> byte list) list \<Rightarrow> bool" where
  "thread_run ser par c0 t dn lg \<longleftrightarrow> input_data c0 = dn @ open_messages t @ ct_todo t \<and> length (ct_envs t) = length dn \<and>
     map (Some \<circ> fst) lg = map msg_request (dn @ (if answered t then open_messages t else [])) \<and>
     (\<exists>c1 outs. run_loop ser par (zip (ct_envs t) dn) c0 = Inr (c1, outs) \<and>
       map res_payload (results c1) = map res_payload (results c0) @
         map (\<lambda>x. snd (par (take MAX_READ (snd x)))) (take (length dn) lg) \<and>
       (case ct_open t of None \<Rightarrow> ct_obj t = c1
        | Some (env, m, fd, a) \<Rightarrow> startClient env c1 = (True, ct_obj t) \<and>
            (\<exists>q. msg_request m = Some q \<and> env_write env = int (length (frame (ser q)))) \<and>
            (\<forall>out. a = Some out \<longrightarrow> snd (last lg) = out)))"

definition waiting_ok :: "'d net \<Rightarrow> client_thread \<Rightarrow> bool" where
  "waiting_ok N t \<longleftrightarrow> (\<forall>env m fd a. ct_open t = Some (env, m, fd, a) \<longrightarrow>
     (\<exists>q ph. msg_request m = Some q \<and> net_conns N fd = Some (q, ph) \<and> (a = None \<longrightarrow> ph \<noteq> Answered)))"

definition distinct_open :: "client_thread list \<Rightarrow> bool" where
  "distinct_open ts \<longleftrightarrow> (\<forall>i < length ts. \<forall>j < length ts. \<forall>fd. i \<noteq> j \<longrightarrow> open_fd (ts ! i) = Some fd \<longrightarrow>
     open_fd (ts ! j) \<noteq> Some fd)"

definition world_ok ::
  "(payload \<Rightarrow> byte list) \<Rightarrow> (byte list \<Rightarrow> bool \<times> payload) \<Rightarrow> client list \<Rightarrow> 'd world \<Rightarrow> bool" where
  "world_ok ser par cs W \<longleftrightarrow> length (w_clients W) = length cs \<and> distinct_open (w_clients W) \<and>
     list_all (waiting_ok (w_net W)) (w_clients W) \<and>
     map snd (w_log W) = map snd (net_log (w_net W)) \<and>
     (\<forall>i < length cs. \<exists>dn. thread_run ser par (cs ! i) (w_clients W ! i) dn (mine i (w_log W)))"

lemma sendData_frame:
  assumes "msg_request m = Some q" and "sendData ser par env m c = Inr (int n, c', out)"
  shows "env_write env = int n"
  using assms by (auto simp: msg_request_def bind_eq_Some_conv sendData_def Let_def split: if_splits read_result.splits)

lemma sendData_answer:
  assumes "msg_request m = Some q" and "env_write env = int (length (frame (ser q)))"
    and "sendData ser par (env\<lparr>env_read := Read_data out\<rparr>) m c = Inr (r, c', sent)"
  shows "map res_payload (results c') = map res_payload (results c) @ [snd (par (take MAX_READ out))]"
proof -
  obtain t where t: "msg_type m = Some t" "request_payload t m = Some q"
    using assms(1) by (auto simp: msg_request_def bind_eq_Some_conv)
  from sendData_success [OF t, of "env\<lparr>env_read := Read_data out\<rparr>" ser out par c] assms(2,3)
  show ?thesis by (simp add: send_buffer_frame)
qed

text \<open>The four ways in which a thread changes.\<close>

lemma thread_run_start: "results c = [] \<Longrightarrow> thread_run ser par c (start_thread c) [] []"
  by (simp add: thread_run_def start_thread_def open_messages_def)

lemma thread_run_connect:
  assumes "thread_run ser par c0 t dn lg" and "ct_open t = None" and "ct_todo t = m # ms"
    and "startClient env (ct_obj t) = (True, c)" and "msg_request m = Some q"
    and "env_write env = int (length (frame (ser q)))"
  shows "thread_run ser par c0 (t\<lparr>ct_obj := c, ct_todo := ms, ct_open := Some (env, m, fd, None)\<rparr>) dn lg"
  using assms by (auto simp: thread_run_def open_messages_def answered_def)

lemma thread_run_answer:
  assumes "thread_run ser par c0 t dn lg" and "ct_open t = Some (env, m, fd, None)" and "msg_request m = Some q"
  shows "thread_run ser par c0 (t\<lparr>ct_open := Some (env, m, fd, Some out)\<rparr>) dn (lg @ [(q, out)])"
proof -
  have "map (Some \<circ> fst) lg = map msg_request dn"
    using assms(1,2) by (simp add: thread_run_def answered_def)
  then have "length lg = length dn" by (metis length_map)
  with assms show ?thesis by (auto simp: thread_run_def open_messages_def answered_def)
qed

lemma thread_run_read:
  assumes "thread_run ser par c0 t dn lg" and "ct_open t = Some (env, m, fd, Some out)"
    and "sendData ser par (env\<lparr>env_read := Read_data out\<rparr>) m (ct_obj t) = Inr (r, c, sent)"
  shows "thread_run ser par c0 (t\<lparr>ct_obj := c, ct_open := None,
    ct_envs := ct_envs t @ [env\<lparr>env_read := Read_data out\<rparr>]\<rparr>) (dn @ [m]) lg"
proof -
  from assms(1,2) obtain c1 outs where t: "input_data c0 = dn @ [m] @ ct_todo t" "length (ct_envs t) = length dn"
      "map (Some \<circ> fst) lg = map msg_request (dn @ [m])"
      "run_loop ser par (zip (ct_envs t) dn) c0 = Inr (c1, outs)"
      "map res_payload (results c1) = map res_payload (results c0) @
         map (\<lambda>x. snd (par (take MAX_READ (snd x)))) (take (length dn) lg)"
      "startClient env c1 = (True, ct_obj t)" "snd (last lg) = out"
      and q: "\<exists>q. msg_request m = Some q \<and> env_write env = int (length (frame (ser q)))"
    by (auto simp: thread_run_def open_messages_def answered_def)
  have r: "map res_payload (results c) = map res_payload (results (ct_obj t)) @ [snd (par (take MAX_READ out))]"
    using sendData_answer [OF _ _ assms(3)] q by blast
  have "results (ct_obj t) = results c1" using startClient_simps(1) [of env c1] t(6) by simp
  moreover have "length lg = Suc (length dn)" using arg_cong [OF t(3), of length] by simp
  then have "lg = take (length dn) lg @ [last lg]"
    by (metis append_butlast_last_id butlast_conv_take diff_Suc_1 list.size(3) nat.distinct(1))
  then have "map (\<lambda>x. snd (par (take MAX_READ (snd x)))) lg =
      map (\<lambda>x. snd (par (take MAX_READ (snd x)))) (take (length dn) lg) @ [snd (par (take MAX_READ out))]"
    using t(7) by (metis (no_types, lifting) list.simps(8) list.simps(9) map_append)
  moreover have "take (Suc (length dn)) lg = lg" using \<open>length lg = _\<close> by simp
  moreover have "run_loop ser par (zip (ct_envs t) dn @ [(env\<lparr>env_read := Read_data out\<rparr>, m)]) c0 = Inr (c, outs @ [sent])"
    by (rule run_loop_snoc [OF _ assms(3) t(4)]) (simp add: t(6))
  ultimately show ?thesis using t r by (auto simp: thread_run_def open_messages_def answered_def)
qed

section \<open>The invariant is kept\<close>

lemma world_run_net:
  "world_run ser par alloc_ok s0 cs W \<Longrightarrow> net_run ser par alloc_ok s0 (w_net W)"
proof (induction rule: world_run.induct)
  case world_start
  show ?case by (simp add: net_start)
next
  case (world_next W V)
  from world_next(2) have "net_step ser par alloc_ok (w_net W) (w_net V) \<or> w_net V = w_net W" by cases auto
  with world_next(3) show ?case by (auto intro: net_next)
qed

text \<open>What a step of another thread or of the server does to a waiting thread.\<close>

lemma waiting_cong:
  "open_fd t = None \<or> (\<exists>fd. open_fd t = Some fd \<and> net_conns M fd = net_conns N fd) \<Longrightarrow> waiting_ok N t \<Longrightarrow> waiting_ok M t"
  by (auto simp: waiting_ok_def open_fd_def)

lemma undisturbed_waiting:
  assumes "undisturbed ts N M" and "t \<in> set ts" and "waiting_ok N t"
  shows "waiting_ok M t"
  unfolding waiting_ok_def
proof (intro allI impI)
  fix env m fd a
  assume o: "ct_open t = Some (env, m, fd, a)"
  with assms(3) obtain q ph where q: "msg_request m = Some q" "net_conns N fd = Some (q, ph)" "a = None \<longrightarrow> ph \<noteq> Answered"
    by (auto simp: waiting_ok_def)
  from assms(1,2) o have "net_conns M fd = net_conns N fd \<or>
      (\<exists>q k k'. net_conns N fd = Some (q, Receiving k) \<and> net_conns M fd = Some (q, Receiving k'))"
    by (auto simp: undisturbed_def open_fd_def)
  with q show "\<exists>q ph. msg_request m = Some q \<and> net_conns M fd = Some (q, ph) \<and> (a = None \<longrightarrow> ph \<noteq> Answered)" by auto
qed

lemma distinct_open_update:
  assumes "distinct_open ts" and "i < length ts"
    and "\<And>fd j. open_fd t = Some fd \<Longrightarrow> j < length ts \<Longrightarrow> j \<noteq> i \<Longrightarrow> open_fd (ts ! j) \<noteq> Some fd"
  shows "distinct_open (ts[i := t])"
  unfolding distinct_open_def
proof (intro allI impI)
  fix j k fd
  assume *: "j < length (ts[i := t])" "k < length (ts[i := t])" "j \<noteq> k" "open_fd (ts[i := t] ! j) = Some fd"
  show "open_fd (ts[i := t] ! k) \<noteq> Some fd"
  proof (cases "j = i")
    case True
    with * assms(2) have "open_fd t = Some fd" by simp
    with assms(3) * True show ?thesis by simp
  next
    case False
    with * have j: "open_fd (ts ! j) = Some fd" "j < length ts" by simp_all
    show ?thesis
    proof (cases "k = i")
      case True
      then show ?thesis using assms(2) assms(3) [of fd j] j False by auto
    next
      case False
      have "k < length ts" using *(2) by simp
      with assms(1) j *(3) have "open_fd (ts ! k) \<noteq> Some fd" unfolding distinct_open_def by blast
      with False show ?thesis by simp
    qed
  qed
qed

lemma open_in_net: "waiting_ok N t \<Longrightarrow> open_fd t = Some fd \<Longrightarrow> net_conns N fd \<noteq> None"
  by (auto simp: waiting_ok_def open_fd_def)

lemma list_all_put:
  "i < length xs \<Longrightarrow> P x \<Longrightarrow> (\<And>j. j < length xs \<Longrightarrow> j \<noteq> i \<Longrightarrow> P (xs ! j)) \<Longrightarrow> list_all P (xs[i := x])"
  by (auto simp: list_all_length nth_list_update)

lemma answer_request:
  assumes "net_step ser par alloc_ok N M" and "net_log M = net_log N @ [(fd, q, out)]"
  shows "\<exists>k. net_conns N fd = Some (q, Receiving k)"
  using assms(1) by cases (use assms(2) in auto)

text \<open>One thread changes, and the log gets nothing new of the others.\<close>

lemma world_ok_put:
  assumes "world_ok ser par cs W" and "i < length cs" and "w_clients V = (w_clients W)[i := t]"
    and "distinct_open (w_clients V)" and "list_all (waiting_ok (w_net V)) (w_clients V)"
    and "map snd (w_log V) = map snd (net_log (w_net V))"
    and "thread_run ser par (cs ! i) t dn (mine i (w_log V))"
    and "\<And>j. j \<noteq> i \<Longrightarrow> mine j (w_log V) = mine j (w_log W)"
  shows "world_ok ser par cs V"
proof -
  have "\<exists>dn. thread_run ser par (cs ! j) (w_clients V ! j) dn (mine j (w_log V))" if j: "j < length cs" for j
  proof (cases "j = i")
    case True
    have "w_clients V ! i = t" using assms(1-3) by (simp add: world_ok_def)
    with assms(7) True show ?thesis by auto
  next
    case False
    then have "w_clients V ! j = w_clients W ! j" by (simp add: assms(3))
    moreover obtain dn where "thread_run ser par (cs ! j) (w_clients W ! j) dn (mine j (w_log W))"
      using assms(1) j by (auto simp: world_ok_def)
    ultimately show ?thesis using assms(8) [OF False] by auto
  qed
  with assms(1,3-6) show ?thesis by (simp add: world_ok_def)
qed

lemma world_step_ok:
  assumes "world_step ser par alloc_ok W V" and "world_ok ser par cs W"
  shows "world_ok ser par cs V"
proof -
  have len: "length (w_clients W) = length cs" and dist: "distinct_open (w_clients W)"
      and wait: "\<And>j. j < length (w_clients W) \<Longrightarrow> waiting_ok (w_net W) (w_clients W ! j)"
      and log: "map snd (w_log W) = map snd (net_log (w_net W))"
      and runs: "\<And>j. j < length cs \<Longrightarrow> \<exists>dn. thread_run ser par (cs ! j) (w_clients W ! j) dn (mine j (w_log W))"
    using assms(2) by (auto simp: world_ok_def list_all_length)
  show ?thesis
    using assms(1)
  proof cases
    case (w_connect i t m ms env c q c' N fd)
    let ?t = "t\<lparr>ct_obj := c, ct_todo := ms, ct_open := Some (env, m, fd, None)\<rparr>"
    have new: "open_fd (w_clients W ! j) \<noteq> Some fd" if "j < length (w_clients W)" for j
      using open_in_net [OF wait [OF that]] w_connect(10) by auto
    have "distinct_open ((w_clients W)[i := ?t])"
      by (rule distinct_open_update [OF dist w_connect(2)]) (use new in \<open>auto simp: open_fd_def\<close>)
    moreover have "list_all (waiting_ok N) ((w_clients W)[i := ?t])"
    proof (rule list_all_put [OF w_connect(2)])
      show "waiting_ok N ?t" using w_connect(7,11) by (simp add: waiting_ok_def)
      show "waiting_ok N (w_clients W ! j)" if "j < length (w_clients W)" "j \<noteq> i" for j
        using waiting_cong [OF _ wait [OF that(1)]] new [OF that(1)] w_connect(11)
        by (cases "open_fd (w_clients W ! j)") auto
    qed
    moreover obtain dn where "thread_run ser par (cs ! i) t dn (mine i (w_log W))"
      using runs w_connect(2,3) len by auto
    from thread_run_connect [OF this w_connect(4-7) sendData_frame [OF w_connect(7,8)]]
    have "thread_run ser par (cs ! i) ?t dn (mine i (w_log W))" .
    ultimately show ?thesis
      using w_connect(1,2,12) len log
      by (intro world_ok_put [OF assms(2), where i = i and t = ?t and dn = dn]) simp_all
  next
    case (w_server N lg)
    have "list_all (waiting_ok N) (w_clients W)"
      using undisturbed_waiting [OF w_server(3)] wait by (simp add: list_all_length)
    then show ?thesis
      using w_server(1,4) len dist log runs by (auto simp: world_ok_def)
  next
    case (w_answer i t env m fd N q out)
    let ?t = "t\<lparr>ct_open := Some (env, m, fd, Some out)\<rparr>"
    have fd: "open_fd t = Some fd" "open_fd ?t = Some fd" using w_answer(4) by (simp_all add: open_fd_def)
    have other: "open_fd (w_clients W ! j) \<noteq> Some fd" if "j < length (w_clients W)" "j \<noteq> i" for j
      using dist that w_answer(2,3) fd(1) by (auto simp: distinct_open_def)
    have "distinct_open ((w_clients W)[i := ?t])"
      by (rule distinct_open_update [OF dist w_answer(2)]) (use other fd(2) in auto)
    moreover have q: "msg_request m = Some q"
      using wait [OF w_answer(2)] answer_request [OF w_answer(5,6)] w_answer(3,4) by (auto simp: waiting_ok_def)
    moreover have "list_all (waiting_ok N) ((w_clients W)[i := ?t])"
    proof (rule list_all_put [OF w_answer(2)])
      show "waiting_ok N ?t" using q w_answer(7) by (simp add: waiting_ok_def)
      show "waiting_ok N (w_clients W ! j)" if "j < length (w_clients W)" "j \<noteq> i" for j
        using waiting_cong [OF _ wait [OF that(1)]] other [OF that] w_answer(7)
        by (cases "open_fd (w_clients W ! j)") auto
    qed
    moreover obtain dn where "thread_run ser par (cs ! i) t dn (mine i (w_log W))"
      using runs w_answer(2,3) len by auto
    from thread_run_answer [OF this w_answer(4) q]
    have "thread_run ser par (cs ! i) ?t dn (mine i (w_log W) @ [(q, out)])" .
    ultimately show ?thesis
      using w_answer(1,2,6) len log
      by (intro world_ok_put [OF assms(2), where i = i and t = ?t and dn = dn]) simp_all
  next
    case (w_read i t env m fd out r c sent)
    let ?t = "t\<lparr>ct_obj := c, ct_open := None, ct_envs := ct_envs t @ [env\<lparr>env_read := Read_data out\<rparr>]\<rparr>"
    have "open_fd ?t = None" by (simp add: open_fd_def)
    then have "distinct_open ((w_clients W)[i := ?t])"
      by (intro distinct_open_update [OF dist w_read(2)]) simp
    moreover have "list_all (waiting_ok (w_net W)) ((w_clients W)[i := ?t])"
      by (rule list_all_put [OF w_read(2)]) (use wait in \<open>auto simp: waiting_ok_def\<close>)
    moreover obtain dn where dn: "thread_run ser par (cs ! i) t dn (mine i (w_log W))"
      using runs w_read(2,3) len by auto
    moreover note thread_run_read [OF dn w_read(4,5)]
    ultimately show ?thesis
      using w_read(1,2) len log
      by (intro world_ok_put [OF assms(2), where i = i and t = ?t and dn = "dn @ [m]"]) simp_all
  qed
qed

lemma world_run_ok:
  assumes "world_run ser par alloc_ok s0 cs W" and "list_all (\<lambda>c. results c = []) cs"
  shows "world_ok ser par cs W"
  using assms
proof (induction rule: world_run.induct)
  case world_start
  have "thread_run ser par (cs ! i) (start_thread (cs ! i)) [] []" if "i < length cs" for i
    using thread_run_start [of "cs ! i" ser par] world_start that by (simp add: list_all_length)
  then show ?case
    by (auto simp: world_ok_def distinct_open_def open_fd_def start_thread_def waiting_ok_def list_all_iff)
next
  case (world_next W V)
  then show ?case using world_step_ok by blast
qed

section \<open>The answers of a client\<close>

text \<open>\<open>client_reads\<close> is what a client makes of an answer: the first 80 bytes are parsed.\<close>

definition client_reads :: "(payload \<Rightarrow> byte list) \<Rightarrow> (byte list \<Rightarrow> bool \<times> payload) \<Rightarrow> payload \<Rightarrow> payload" where
  "client_reads ser par p = snd (par (take 80 (response_bytes ser p)))"

definition tagged :: "(nat option \<times> 'a) list \<Rightarrow> 'b list \<Rightarrow> (nat option \<times> 'b) list" where
  "tagged lg ps = zip (map fst lg) ps"

lemma map_mine: "map f (mine i lg) = mine i (map (apsnd f) lg)"
  by (induction lg) (auto simp: mine_def)

lemma mine_answers:
  assumes "map (snd \<circ> snd) lg = map f ps"
  shows "map (\<lambda>x. g (snd x)) (mine i lg) = map (g \<circ> f) (mine i (tagged lg ps))"
proof -
  have "map (apsnd (\<lambda>x. g (snd x))) lg = zip (map fst lg) (map (g \<circ> (snd \<circ> snd)) lg)"
    by (simp add: zip_map_map zip_same_conv_map apsnd_def map_prod_def split_def)
  also have "map (g \<circ> (snd \<circ> snd)) lg = map (g \<circ> f) ps"
    using assms by (metis map_map)
  also have "zip (map fst lg) (map (g \<circ> f) ps) = map (apsnd (g \<circ> f)) (tagged lg ps)"
    by (simp add: tagged_def zip_map2 apsnd_def map_prod_def split_def)
  finally show ?thesis by (simp add: map_mine)
qed

lemma length_mine: "length ps = length lg \<Longrightarrow> length (mine i (tagged lg ps)) = length (mine i lg)"
proof (induction lg arbitrary: ps)
  case Nil
  then show ?case by (simp add: tagged_def)
next
  case (Cons x lg)
  then obtain p ps' where "ps = p # ps'" "length ps' = length lg" by (cases ps) auto
  with Cons.IH show ?case by (cases x) (simp add: tagged_def mine_def)
qed

text \<open>What the state of a thread says about its answers.\<close>

lemma thread_run_results:
  assumes "thread_run ser par c0 t dn lg"
  shows "map res_payload (results (ct_obj t)) = map res_payload (results c0) @
    map (\<lambda>x. snd (par (take MAX_READ (snd x)))) (take (length dn) lg)"
proof (cases "ct_open t")
  case None
  with assms show ?thesis by (auto simp: thread_run_def)
next
  case (Some x)
  obtain env m fd a where x: "x = (env, m, fd, a)" by (metis prod_cases4)
  with Some assms obtain c1 where "map res_payload (results c1) = map res_payload (results c0) @
      map (\<lambda>x. snd (par (take MAX_READ (snd x)))) (take (length dn) lg)" "startClient env c1 = (True, ct_obj t)"
    by (auto simp: thread_run_def)
  with startClient_simps(1) [of env c1] show ?thesis by simp
qed

lemma thread_answers:
  assumes "thread_run ser par c0 t dn (mine i lg)" and "results c0 = []"
    and "map (snd \<circ> snd) lg = map (response_bytes ser) ps"
  shows "map (Some \<circ> fst) (mine i lg) = map msg_request (take (length (mine i (tagged lg ps))) (input_data c0))"
    and "map res_payload (results (ct_obj t)) = map (client_reads ser par) (take (length dn) (mine i (tagged lg ps)))"
    and "length (mine i (tagged lg ps)) = length dn + (if answered t then 1 else 0)"
proof -
  have len: "length (mine i (tagged lg ps)) = length (mine i lg)"
    by (rule length_mine) (metis assms(3) length_map)
  have d: "input_data c0 = dn @ open_messages t @ ct_todo t"
      "map (Some \<circ> fst) (mine i lg) = map msg_request (dn @ (if answered t then open_messages t else []))"
    using assms(1) by (simp_all add: thread_run_def)
  have o: "answered t \<Longrightarrow> length (open_messages t) = 1"
    by (auto simp: answered_def open_messages_def)
  from arg_cong [OF d(2), of length] o show l: "length (mine i (tagged lg ps)) = length dn + (if answered t then 1 else 0)"
    by (simp add: len)
  show "map (Some \<circ> fst) (mine i lg) = map msg_request (take (length (mine i (tagged lg ps))) (input_data c0))"
    unfolding d l using o by auto
  have "map res_payload (results (ct_obj t)) =
      map (\<lambda>x. snd (par (take MAX_READ (snd x)))) (take (length dn) (mine i lg))"
    using thread_run_results [OF assms(1)] assms(2) by simp
  moreover have "map (\<lambda>x. snd (par (take MAX_READ (snd x)))) (mine i lg) = map (client_reads ser par) (mine i (tagged lg ps))"
    using mine_answers [OF assms(3), of "\<lambda>bs. snd (par (take MAX_READ bs))"]
    by (simp add: client_reads_def MAX_READ_def comp_def)
  ultimately show "map res_payload (results (ct_obj t)) = map (client_reads ser par) (take (length dn) (mine i (tagged lg ps)))"
    by (metis take_map)
qed

section \<open>The program of the clients\<close>

text \<open>A finished thread has run \<open>client_run\<close> in the environments it met; so the pool is what \<open>start\<close> collects.\<close>

lemma finished_run:
  assumes "thread_run ser par c0 t dn lg" and "finished t"
  shows "dn = input_data c0" and "\<exists>outs. client_run ser par (ct_envs t) c0 = Inr (ct_obj t, outs)"
proof -
  show "dn = input_data c0" using assms by (simp add: thread_run_def finished_def open_messages_def)
  then show "\<exists>outs. client_run ser par (ct_envs t) c0 = Inr (ct_obj t, outs)"
    using assms by (auto simp: thread_run_def finished_def client_run_def)
qed

lemma run_clients_pool:
  assumes "length ts = length chunks"
    and "\<And>i. i < length chunks \<Longrightarrow> \<exists>outs. client_run ser par (ct_envs (ts ! i)) (mk (chunks ! i)) = Inr (ct_obj (ts ! i), outs)"
  shows "run_clients ser par mk (zip (map ct_envs ts) chunks) = Inr (map ct_obj ts)"
  using assms
proof (induction ts chunks rule: list_induct2)
  case Nil
  then show ?case by simp
next
  case (Cons t ts chunk chunks)
  obtain outs where "client_run ser par (ct_envs t) (mk chunk) = Inr (ct_obj t, outs)"
    using Cons.prems [of 0] by auto
  moreover have "run_clients ser par mk (zip (map ct_envs ts) chunks) = Inr (map ct_obj ts)"
    by (rule Cons.IH) (use Cons.prems [of "Suc _"] in auto)
  ultimately show ?case by simp
qed

text \<open>The clients as \<open>main\<close> makes them.\<close>

definition main_mk :: "(message list \<Rightarrow> u32 \<times> fd) \<Rightarrow> client_config \<Rightarrow> message list \<Rightarrow> client" where
  "main_mk junk cfg chunk = setInputData chunk (case junk chunk of (avg, d) \<Rightarrow>
     new_client avg d (ccfg_host cfg) (word_of_int (ccfg_port cfg)))"

lemma main_mk_simps [simp]: "input_data (main_mk junk cfg chunk) = chunk" "results (main_mk junk cfg chunk) = []"
  by (simp_all add: main_mk_def setInputData_def new_client_def split: prod.splits)

lemma main_client_saves:
  assumes "client_option_loop opts empty_client_config = Inr (Some cfg)" and "9 \<le> argc"
    and "files (ccfg_input_file cfg) = Some text"
    and "start_chunks (ccfg_num_thread cfg) (map parse_line (split_lines text)) = Inr chunks"
    and "run_clients ser par (main_mk junk cfg) (zip envs chunks) = Inr pool"
  shows "main_client ser par junk envs seconds files argc opts = Inr (0, saveResults seconds pool)"
  using assms
  by (simp add: main_client_def new_test_client_def test_client_start_def readAndParseInputFile_def open_stream_def read_lines_good
      main_mk_def [abs_def] del: rbind_Inr_iff)

text \<open>The log of a run that starts with the server, and what its threads have sent and read.\<close>

lemma world_answers:
  assumes "message_codec ser par" and "net_ok ser par alloc_ok on st0 \<lparr> net_sys = s, net_conns = Map.empty, net_log = [] \<rparr>"
    and "list_all (\<lambda>c. results c = []) cs" and "world_run ser par alloc_ok s cs W"
  obtains ps where "world_ok ser par cs W"
    and "spec_answers on st0 (map (fst \<circ> snd) (w_log W)) (srv_abs (sys_srv (net_sys (w_net W)))) ps"
    and "map (snd \<circ> snd) (w_log W) = map (response_bytes ser) ps"
    and "list_all (\<lambda>r. snd (par (response_bytes ser r)) = r) ps" and "sys_ok (net_sys (w_net W))"
proof -
  have w: "world_ok ser par cs W" by (rule world_run_ok [OF assms(4,3)])
  have n: "net_ok ser par alloc_ok on st0 (w_net W)"
    by (rule net_run_ok [OF assms(1) world_run_net [OF assms(4)] assms(2)])
  have "map snd (w_log W) = map snd (net_log (w_net W))" using w by (simp add: world_ok_def)
  then have "map (fst \<circ> snd) (net_log (w_net W)) = map (fst \<circ> snd) (w_log W)"
      "map (snd \<circ> snd) (net_log (w_net W)) = map (snd \<circ> snd) (w_log W)"
    by (metis map_map)+
  with n that w show thesis by (auto simp: net_ok_def log_ok_def)
qed

lemma world_log:
  assumes "message_codec ser par" and "server_start F srand True (new_tcp_server n ip p False) new_dictionary = Inr (tcp, d)"
    and "n \<noteq> 0" and "list_all (\<lambda>c. results c = []) cs" and "world_run ser par alloc_ok (started tcp d) cs W"
  obtains ps where "world_ok ser par cs W"
    and "spec_requests (map (fst \<circ> snd) (w_log W)) (Map.empty, new_stats) = (srv_abs (sys_srv (net_sys (w_net W))), ps)"
    and "map (snd \<circ> snd) (w_log W) = map (response_bytes ser) ps"
    and "list_all (\<lambda>r. snd (par (response_bytes ser r)) = r) ps"
  by (rule world_answers [OF assms(1) started_net_ok [OF assms(2,3)] assms(4,5)]) (rule that [OF _ answers_off])

lemma world_threads:
  assumes "world_ok ser par cs W" and "list_all (\<lambda>c. results c = []) cs"
    and "map (snd \<circ> snd) (w_log W) = map (response_bytes ser) ps" and "i < length cs"
  shows "\<exists>k. let answers = mine i (tagged (w_log W) ps) in
      map (Some \<circ> fst) (mine i (w_log W)) = map msg_request (take (length answers) (input_data (cs ! i))) \<and>
      map res_payload (results (ct_obj (w_clients W ! i))) = map (client_reads ser par) (take k answers) \<and>
      length answers \<in> {k, Suc k}"
proof -
  obtain dn where dn: "thread_run ser par (cs ! i) (w_clients W ! i) dn (mine i (w_log W))"
    using assms(1,4) by (auto simp: world_ok_def)
  have "results (cs ! i) = []" using assms(2,4) by (simp add: list_all_length)
  from thread_answers [OF dn this assms(3)] show ?thesis by (intro exI [of _ "length dn"]) (simp add: Let_def)
qed

section \<open>A run of one client\<close>

text \<open>It connects, sends its only message, waits and reads the answer.\<close>

definition sample_message :: message where
  "sample_message = \<lparr>msg_type = Some GET, msg_key = ''k'', msg_value = []\<rparr>"

definition sample_conn :: conn_env where
  "sample_conn = \<lparr> env_socket = 3, env_connect = 0, env_write = 9, env_read = Read_data [], env_duration = 10,
     env_stamp = 1 \<rparr>"

lemma sample_request: "msg_request sample_message = Some sample_get"
  by (simp add: msg_request_def sample_message_def request_payload_def sample_get_def empty_payload_def)

lemma sample_send:
  "sendData wire_ser wire_par (sample_conn\<lparr>env_read := Read_data bs\<rparr>) sample_message c = Inr (9,
    c\<lparr>results := results c @ [\<lparr>res_payload = snd (wire_par (take MAX_READ bs)), timestamp = 1\<rparr>],
      average_latency := update_latency (average_latency c) 10\<rparr>, frame (wire_ser sample_get))"
proof -
  have "msg_type sample_message = Some GET" "request_payload GET sample_message = Some sample_get"
    using sample_request by (simp_all add: msg_request_def sample_message_def)
  from sendData_success [OF this, of "sample_conn\<lparr>env_read := Read_data bs\<rparr>" wire_ser bs wire_par c] show ?thesis
    by (simp add: sample_conn_def send_buffer_frame sample_get_bytes)
qed

lemma sample_world:
  assumes "net_ok wire_ser wire_par (\<lambda>_. True) on st0 \<lparr> net_sys = s, net_conns = Map.empty, net_log = [] \<rparr>"
    and "input_data c0 = [sample_message]"
  shows "\<exists>W r. world_run wire_ser wire_par (\<lambda>_. True) s [c0] W \<and> list_all finished (w_clients W) \<and>
    w_log W = [(Some 0, sample_get, response_bytes wire_ser r)] \<and>
    spec_answer on GET sample_get (srv_abs (sys_srv s)) (srv_abs (sys_srv (net_sys (w_net W))), r)"
proof -
  let ?N = "\<lparr> net_sys = s, net_conns = Map.empty, net_log = [] \<rparr>" and ?t = "start_thread c0"
  let ?W = "\<lparr> w_net = ?N, w_clients = map start_thread [c0], w_log = [] \<rparr>"
  have start: "startClient sample_conn c0 = (True, c0\<lparr>sock_fd := 3\<rparr>)"
    by (simp add: startClient_def sample_conn_def)
  have ok: "sys_ok (net_sys ?N)" using assms(1) by (simp add: net_ok_def)
  obtain M where M: "net_step wire_ser wire_par (\<lambda>_. True) ?N M" "net_conns M = (net_conns ?N)(10 \<mapsto> (sample_get, Receiving 0))"
      "net_log M = net_log ?N" "sys_srv (net_sys M) = sys_srv s"
    using connected_step [where par = wire_par, OF ok _ sample_get_servable] by auto
  define t1 where "t1 = ?t\<lparr>ct_obj := c0\<lparr>sock_fd := 3\<rparr>, ct_todo := [], ct_open := Some (sample_conn, sample_message, 10, None)\<rparr>"
  define W1 where "W1 = ?W\<lparr>w_net := M, w_clients := (w_clients ?W)[0 := t1]\<rparr>"
  have todo: "ct_open ?t = None" "ct_todo ?t = sample_message # []" "startClient sample_conn (ct_obj ?t) = (True, c0\<lparr>sock_fd := 3\<rparr>)"
    using assms(2) start by (simp_all add: start_thread_def)
  have "sample_conn\<lparr>env_read := Read_data []\<rparr> = sample_conn" by (simp add: sample_conn_def)
  then obtain c1 where send: "sendData wire_ser wire_par sample_conn sample_message (c0\<lparr>sock_fd := 3\<rparr>) =
      Inr (int (length (frame (wire_ser sample_get))), c1, frame (wire_ser sample_get))"
    using sample_send [of "[]" "c0\<lparr>sock_fd := 3\<rparr>"] by (simp add: sample_get_bytes)
  have 1: "world_step wire_ser wire_par (\<lambda>_. True) ?W W1"
    unfolding W1_def t1_def
    by (rule w_connect [OF _ _ todo sample_request send]) (simp_all add: M)
  have net: "net_ok wire_ser wire_par (\<lambda>_. True) on st0 M"
    by (rule net_step_ok [OF wire.message_codec_axioms assms(1) M(1)])
  have conn: "net_conns M 10 = Some (sample_get, Receiving 0)" by (simp add: M(2))
  have wr: "writable (\<lambda>_. Write_ok 1)" by (auto simp: writable_def)
  from served_soon [OF wire.message_codec_axioms net conn sample_get_piece wr bump.flow_allocator_axioms] obtain N1 N2 r where N: "N1 = M \<or> net_step wire_ser wire_par (\<lambda>_. True) M N1"
      "net_step wire_ser wire_par (\<lambda>_. True) N1 N2" "net_conns N1 = net_conns M" "net_log N1 = net_log M"
      "net_conns N2 = (net_conns M)(10 \<mapsto> (sample_get, Answered))"
      "net_log N2 = net_log M @ [(10, sample_get, response_bytes wire_ser r)]"
      "spec_answer on (the (pb_requesttype sample_get)) sample_get (srv_abs (sys_srv (net_sys M)))
        (srv_abs (sys_srv (net_sys N2)), r)"
    by (elim exE conjE) (rule that)
  define W2 where "W2 = W1\<lparr>w_net := N1, w_log := []\<rparr>"
  have W1: "w_net W1 = M" "w_clients W1 = [t1]" "w_log W1 = []" by (simp_all add: W1_def)
  have "undisturbed (w_clients W1) M N1" by (simp add: undisturbed_def N(3))
  then have "world_step wire_ser wire_par (\<lambda>_. True) W1 W2" if "net_step wire_ser wire_par (\<lambda>_. True) M N1"
    using w_server [of wire_ser wire_par "\<lambda>_. True" W1 N1 "[]"] that N(4) W1 by (simp add: W2_def)
  moreover have "N1 = M \<Longrightarrow> W2 = W1" by (simp add: W2_def W1_def)
  ultimately have 2: "W2 = W1 \<or> world_step wire_ser wire_par (\<lambda>_. True) W1 W2" using N(1) by blast
  let ?out = "response_bytes wire_ser r"
  define t3 where "t3 = t1\<lparr>ct_open := Some (sample_conn, sample_message, 10, Some ?out)\<rparr>"
  define W3 where "W3 = W2\<lparr>w_net := N2, w_log := w_log W2 @ [(Some 0, sample_get, ?out)], w_clients := (w_clients W2)[0 := t3]\<rparr>"
  have W2: "w_net W2 = N1" "w_clients W2 = [t1]" "w_log W2 = []" by (simp_all add: W2_def W1)
  have t1: "ct_open t1 = Some (sample_conn, sample_message, 10, None)" by (simp add: t1_def)
  have 3: "world_step wire_ser wire_par (\<lambda>_. True) W2 W3"
    unfolding W3_def t3_def
    by (rule w_answer [OF _ _ t1]) (simp_all add: W2 N(2-6))
  have W3: "w_net W3 = N2" "w_clients W3 = [t3]" "w_log W3 = [(Some 0, sample_get, ?out)]"
    by (simp_all add: W3_def W2)
  have t3: "ct_open t3 = Some (sample_conn, sample_message, 10, Some ?out)" "ct_todo t3 = []"
    by (simp_all add: t3_def t1_def)
  obtain c' where c': "sendData wire_ser wire_par (sample_conn\<lparr>env_read := Read_data ?out\<rparr>) sample_message (ct_obj t3) =
      Inr (9, c', frame (wire_ser sample_get))"
    using sample_send by blast
  define t4 where "t4 = t3\<lparr>ct_obj := c', ct_open := None, ct_envs := ct_envs t3 @ [sample_conn\<lparr>env_read := Read_data ?out\<rparr>]\<rparr>"
  define W4 where "W4 = W3\<lparr>w_clients := (w_clients W3)[0 := t4]\<rparr>"
  have 4: "world_step wire_ser wire_par (\<lambda>_. True) W3 W4"
    unfolding W4_def t4_def by (rule w_read [OF _ _ t3(1) c']) (simp_all add: W3)
  have "world_run wire_ser wire_par (\<lambda>_. True) s [c0] W1"
    by (rule world_next [OF world_start 1])
  then have "world_run wire_ser wire_par (\<lambda>_. True) s [c0] W4" using 2 3 4 world_next by metis
  moreover have "list_all finished (w_clients W4)" by (simp add: W4_def W3 t4_def t3(2) finished_def)
  moreover have "w_log W4 = [(Some 0, sample_get, ?out)]" "w_net W4 = N2" by (simp_all add: W4_def W3)
  moreover have "spec_answer on GET sample_get (srv_abs (sys_srv s)) (srv_abs (sys_srv (net_sys N2)), r)"
    using N(7) M(4) by (simp add: sample_get_def)
  ultimately show ?thesis by metis
qed

section \<open>Properties\<close>



lemma started_new: "srv_abs (sys_srv (started tcp new_dictionary)) = (Map.empty, new_stats)"
  using new_server_abs by (simp add: started_def new_server_def srv_abs_def)





definition sample_client_options :: "option_result list" where
  "sample_client_options = [Opt CHR ''t'' ''1'', Opt CHR ''i'' ''127.0.0.1'', Opt CHR ''p'' ''6000'', Opt CHR ''f'' ''in'']"

lemma sample_client_config:
  "client_option_loop sample_client_options empty_client_config = Inr (Some
    \<lparr>ccfg_host = ''127.0.0.1'', ccfg_port = 6000, ccfg_num_thread = 1, ccfg_input_file = ''in''\<rparr>)"
proof -
  have "atoi ''1'' = Inr 1" "atoi ''6000'' = Inr 6000"
    by (simp_all add: atoi_def digits_value_def is_digit_def fits_int_def WHITESPACE_def of_char_def)
  then show ?thesis by (simp add: sample_client_options_def empty_client_config_def del: rbind_Inr_iff)
qed

lemma sample_chunks: "start_chunks 1 (map parse_line (split_lines ''GET,k'')) = Inr [[sample_message]]"
proof -
  have "trim ''GET'' = ''GET''" "trim ''k'' = ''k''" by (simp_all add: trim_dropWhile WHITESPACE_def)
  moreover have "line_fields (''GET'' @ comma # ''k'') = [trim ''GET'', trim ''k'']"
    by (rule line_fields_plain(2)) (simp_all add: plain_field_def comma_def)
  moreover have "caseInSensStringCompare ''GET'' ''GET''" by code_simp
  ultimately have "parse_line ''GET,k'' = sample_message"
    by (simp add: parse_line_def fields_message_def new_message_def sample_message_def comma_def)
  moreover have "split_lines ''GET,k'' = [''GET,k'']" by (rule split_lines_last) (simp add: newline_def)
  ultimately show ?thesis by (simp add: start_chunks_def)
qed


end
