(* ===== verification/Spec2Isabelle.thy ===== *)
theory Spec2Isabelle
  imports Prelude BloomParams BloomFilter CompressibleBloom Dictionary Stats Payload Wire TcpFlow
    ServiceThread ServiceWorker Startup WorkerManager Requests EventImpl WorkerEvents Helper Options Listener TcpServer
    ServerSystem ServerStartup Network Client TestClient ClientServer
begin

text \<open>
  A model of \<open>remote_dict\<close>, a key-value server over TCP with its command line client, in C++.

  \<^bold>\<open>The program.\<close> The server's \<open>main\<close> reads its options and starts a \<open>TcpServer\<close>: a \<open>Listener\<close> thread
  that accepts connections, and a \<open>WorkerManager\<close> that deals the descriptors to a pool of \<open>ServiceWorker\<close>
  threads in turn. Both kinds of threads are \<open>ServiceThread\<close>s: an event loop (\<open>EventImpl\<close>, over libevent), a
  locked queue of descriptors, and a socket pair that wakes the loop or ends it. A worker makes a \<open>TcpFlow\<close> for
  each descriptor; it collects the bytes of one request, a protobuf message after four bytes of length, runs it
  on the singletons \<open>Dictionary\<close> (an unordered map with an optional Bloom filter) and \<open>Stats\<close> (three counters),
  and writes the answer. The client's \<open>main\<close> runs a \<open>TestClient\<close>, which reads requests from a file, splits them
  among threads that each have a \<open>Client\<close>, and writes the collected answers to another file.

  \<^bold>\<open>Theories and code.\<close> Definitions have the names of the functions they model, with a prefix where a name
  is used twice or is one of the library's.
  \<^item> \<open>Prelude\<close>: machine words, faults (\<open>fault\<close>, \<open>res\<close>, \<open>rbind\<close>), checked array access, little-endian words.
  \<^item> \<open>BloomParams\<close>, \<open>BloomFilter\<close>, \<open>CompressibleBloom\<close>: the three classes of \<open>util/include/bloom_filter.hpp\<close>.
    A filter is the record of its members; every access to the bit table is checked.
  \<^item> \<open>Dictionary\<close>, \<open>Stats\<close>: the classes of \<open>server/src\<close>; the singletons are values passed along.
  \<^item> \<open>Payload\<close>, \<open>Wire\<close>: the messages of \<open>protobuf/src/messagebody.proto\<close>, the interface of their serialisation
    (locale \<open>message_codec\<close>), and the documented wire format as an instance of it.
  \<^item> \<open>TcpFlow\<close>: reassembly (\<open>data\<close>), request handling (\<open>parse\<close>, \<open>handleGetRequest\<close>, ...), answers. \<open>flow_run\<close>
    runs \<open>data\<close> on the results of successive read events.
  \<^item> \<open>Requests\<close>: the handlers again, cut at their locks and unlocked reads, for any number of threads.
  \<^item> \<open>ServiceThread\<close>: each operation as a function, and the dispatching, the service and the stopping thread as
    one step relation with both mutexes and the condition variable. \<open>Startup\<close>: calls that come while a thread starts.
  \<^item> \<open>ServiceWorker\<close>, \<open>WorkerManager\<close>, \<open>Listener\<close>, \<open>TcpServer\<close>: the classes of the same names in
    \<open>server/src\<close>; \<open>TcpServer\<close> also has \<open>server/src/main.cpp\<close>.
  \<^item> \<open>ServerSystem\<close>, \<open>Network\<close>: the running server as one system, composed of the handlers above: \<open>onAccept\<close> with
    \<open>ServerCallback\<close>, \<open>onEvent\<close> of a worker, and \<open>data\<close> of a registered flow take turns in any order; and the same
    system with clients that send one request each.
  \<^item> \<open>ServerStartup\<close>: the server while the threads of its workers are starting.
  \<^item> \<open>ClientServer\<close>: that server and the threads of a \<open>TestClient\<close>, interleaved in any order.
  \<^item> \<open>WorkerEvents\<close>: what a worker tells libevent, and that its registered events are what libevent watches.
  \<^item> \<open>EventImpl\<close>, \<open>Helper\<close>: \<open>util/src/EventImpl.cpp\<close> and \<open>util/include/Helper.h\<close>; \<open>Options\<close>: \<open>getopt_long\<close> results
    and \<open>atoi\<close>.
  \<^item> \<open>Client\<close>, \<open>TestClient\<close>: \<open>client/src\<close>, with the \<open>main\<close> function of the client.
  \<^item> This theory: whole requests through a connection, and whole sessions of a client with the server.

  \<^bold>\<open>What the lemmas show.\<close> The specification of the store is a partial map that accepts new values only while it
  has less than a million keys (\<open>spec_set\<close>, \<open>spec_get\<close>), and of a request a function on that map and the counters
  (\<open>spec_request\<close>). Each layer is proved against the one below: the filter never loses a key, so the dictionary
  refines the map; the handlers refine \<open>spec_request\<close>; a message that arrives in pieces is executed once; a session
  of a client gives the specified answers (\<open>sessions_refine_specification\<close>). The whole server, started by \<open>server_start\<close>,
  keeps every accepted descriptor in exactly one place (\<open>no_descriptor_lost\<close>, also \<open>no_descriptor_lost_at_start\<close>), behaves towards any number of clients as
  if each request were executed at once when its last byte arrives (\<open>server_serves_all\<close>), and can always serve a
  waiting connection (\<open>connection_served\<close>). Client threads are linearizable (\<open>clients_linearize\<close>), up to what the
  client's \<open>main\<close> saves (\<open>whole_program\<close>). A server with the filter on is specified by \<open>spec_answer True\<close>, and refines
  it in the same way (\<open>filtered_server_never_succeeds\<close>). For the threads: the interleaved
  requests are linearizable and never fault, the counters balance, descriptors are processed in order and none is
  lost, \<open>stop\<close> returns, and the shares of the workers differ by at most one. The other properties say where the code
  departs from these promises: with the filter switched on no GET succeeds, the bound of the store can be exceeded by
  concurrent SETs, an incomplete message can be parsed, surplus bytes overflow the buffer, and others.

  \<^bold>\<open>Interfaces.\<close> \<open>bit_indexing\<close> (how a hash selects a bit; the plain and the compressible filter interpret it) is
  a \<open>membership_filter\<close>, on which the dictionary relies; \<open>message_codec\<close> is what the flows and the client need of the
  serialisation; \<open>service_hooks\<close> what a service thread needs of its virtual functions, which a worker with a
  \<open>flow_allocator\<close> provides; \<open>fd_sink\<close> what the manager needs of a worker.

  \<^bold>\<open>Parameters.\<close> Code that is not in the repository is an argument: floating point (\<open>fpu\<close>), the
  serialisation (\<open>ser\<close>, \<open>par\<close>), the results of system calls (records and functions such as \<open>conn_env\<close>, \<open>read_result\<close>,
  \<open>write_result\<close>, \<open>listen_env\<close>), of \<open>calloc\<close> (\<open>alloc_ok\<close>), of \<open>new\<close> (\<open>new_ptr\<close>), of the random generator (\<open>srand\<close>), of
  \<open>getopt_long\<close>, of clocks and files.

  \<^bold>\<open>Termination.\<close> No fuel is used. Loops that can run for ever (\<open>opt_loop\<close>, \<open>draw_salts\<close>, \<open>write_loop\<close>, \<open>read_lines\<close>)
  are partial functions; divergence is the fault \<open>Diverges\<close>, and returning is proved where it is claimed
  (the parameter search, the salts when the generator keeps yielding new ones, writing to a socket that stays usable).
  \<open>run_request\<close> counts steps; four are enough for each request, which is proved.

  \<^bold>\<open>Not modelled.\<close> Text printed for the user and the flow completion time, which nothing reads. The event
  loop of libevent: delivery of an event is an argument of the model, only which events are registered is kept.
  \<open>ServerSystem\<close> and what is built on it take the workers to be in their loops when the first connection comes, which
  \<open>startup_is_running_server\<close> justifies for a start in which no wake-up byte goes astray; what a stray one does is in \<open>Startup\<close>.
  The listener is not started in the model: its first event comes after its start.
  Data races as such: accesses without a lock are single steps, although C++ gives them no meaning. The order in which
  \<open>std::sort\<close> leaves results with equal time stamps: the proved statement does not depend on it. The destructor
  of \<open>TcpFlow\<close> calls \<open>removeFromEv\<close> on a null pointer; it is modelled as what the function does, which does not use the object.
\<close>

section \<open>A request through a connection\<close>

lemma flow_serves:
  assumes "message_codec ser par" and "pb_requesttype q = Some t" and "fits (ser q)"
    and "alloc_ok (word_of_nat (length (ser q)))" and "writable w"
    and "server_ok srv" and "\<not> bloom_enabled (srv_dict srv)"
    and "concat (concat evs) = frame (ser q)" and "safe_events (length (ser q)) 0 evs" and "evs \<noteq> []"
  shows "\<exists>srv' p' f'. flow_run ser par alloc_ok w fd (map (map Read_data) evs) srv new_tcp_flow =
      Inr (srv', Some f', response_bytes ser p') \<and> server_ok srv' \<and> \<not> bloom_enabled (srv_dict srv') \<and>
    (srv_abs srv', p') = spec_request t q (srv_abs srv) \<and> snd (par (response_bytes ser p')) = p'"
proof -
  have init: "initialized q" using assms(2) by (simp add: initialized_def)
  obtain srv' p' where 1: "handle_request srv t q = Inr (srv', p')" "server_ok srv'"
      "\<not> bloom_enabled (srv_dict srv')" "(srv_abs srv', p') = spec_request t q (srv_abs srv)"
      "pb_requesttype p' = pb_requesttype q"
    using handle_request_both [OF assms(6,7), of t q] by blast
  have par: "snd (par (ser q)) = q"
    using message_codec.par_ser [OF assms(1) init] by simp
  have "conn (ser q) 0 new_tcp_flow" by (simp add: conn_def fresh_def new_tcp_flow_def)
  with flow_run_message [where alloc_ok = alloc_ok and par = par, OF assms(3,4) par assms(2) 1(1) assms(5), of 0 new_tcp_flow evs ser fd] assms(8-10)
  obtain f' where "flow_run ser par alloc_ok w fd (map (map Read_data) evs) srv new_tcp_flow =
      Inr (srv', Some f', response_bytes ser p')" by auto
  moreover have "snd (par (response_bytes ser p')) = p'"
    using message_codec.par_ser_zero [OF assms(1), of p'] 1(5) assms(2)
    by (simp add: response_bytes_def initialized_def)
  ultimately show ?thesis using 1(2-4) by blast
qed

text \<open>C6: a request that arrives in any pieces the handler can deal with is executed exactly once, with
  the meaning that the specification gives it, and one response is sent, from which a parser reads the
  answered message although a zero byte follows it.\<close>

theorem fragmented_request_served:
  assumes "message_codec ser par" and "pb_requesttype q = Some t" and "fits (ser q)"
    and "alloc_ok (word_of_nat (length (ser q)))" and "writable w"
    and "server_ok srv" and "\<not> bloom_enabled (srv_dict srv)"
    and "concat (concat evs) = frame (ser q)" and "safe_events (length (ser q)) 0 evs" and "evs \<noteq> []"
  shows "\<exists>srv' p' f'. flow_run ser par alloc_ok w fd (map (map Read_data) evs) srv new_tcp_flow =
      Inr (srv', Some f', response_bytes ser p') \<and> server_ok srv' \<and>
    (srv_abs srv', p') = spec_request t q (srv_abs srv) \<and> snd (par (response_bytes ser p')) = p'"
  using flow_serves [where alloc_ok = alloc_ok and fd = fd, OF assms] by blast

theorem fragmented_request_served_witness:
  "\<exists>srv' p' f'. flow_run wire_ser wire_par (\<lambda>_. True) (\<lambda>_. Write_ok 1) 5
      [[Read_data (frame (wire_ser sample_get))]] (new_server :: unit server) new_tcp_flow =
      Inr (srv', Some f', response_bytes wire_ser p') \<and> pb_reason p' = Some ''NOT_FOUND''"
proof -
  have w: "writable (\<lambda>_. Write_ok 1)" by (auto simp: writable_def)
  have t: "pb_requesttype sample_get = Some GET" by (simp add: sample_get_def)
  have f: "fits (wire_ser sample_get)" by (simp add: sample_get_bytes fits_def)
  have e: "concat (concat [[frame (wire_ser sample_get)]]) = frame (wire_ser sample_get)" by simp
  have s: "safe_events (length (wire_ser sample_get)) 0 [[frame (wire_ser sample_get)]]"
    by (simp add: sample_get_bytes starts_well_def num_read_try_def)
  obtain srv' p' f' where r: "flow_run wire_ser wire_par (\<lambda>_. True) (\<lambda>_. Write_ok 1) 5
      (map (map Read_data) [[frame (wire_ser sample_get)]]) (new_server :: unit server) new_tcp_flow =
      Inr (srv', Some f', response_bytes wire_ser p')"
      "(srv_abs srv', p') = spec_request GET sample_get (srv_abs (new_server :: unit server))"
    using fragmented_request_served [where alloc_ok = "\<lambda>_. True" and fd = 5,
        OF wire.message_codec_axioms t f TrueI w new_server_ok e s] by blast
  from r(2) have "pb_reason p' = Some ''NOT_FOUND''" by (simp add: new_server_abs sample_get_def)
  with r(1) show ?thesis by (metis list.map)
qed

section \<open>Sessions of a client\<close>

text \<open>
  One message: the client connects and sends it, the server's flow of the new connection is fed the
  bytes as \<open>pieces\<close> delivers them, and the client reads what the flow has written.
\<close>

definition exchange ::
  "(payload \<Rightarrow> byte list) \<Rightarrow> (byte list \<Rightarrow> bool \<times> payload) \<Rightarrow> (u32 \<Rightarrow> bool) \<Rightarrow> (nat \<Rightarrow> write_result) \<Rightarrow>
   (byte list \<Rightarrow> byte list list list) \<Rightarrow> conn_env \<times> message \<Rightarrow> 'd server \<times> client \<Rightarrow> ('d server \<times> client) res" where
  "exchange ser par alloc_ok w pieces = (\<lambda>(env, msg) (srv, c).
     (let (ok, c1) = startClient env c in
      if \<not> ok then Inr (srv, c1)
      else rbind (sendData ser par env msg c1) (\<lambda>(_, _, out).
        rbind (flow_run ser par alloc_ok w (env_socket env) (map (map Read_data) (pieces out)) srv new_tcp_flow)
          (\<lambda>(srv', _, resp).
        rbind (sendData ser par (env\<lparr>env_read := Read_data resp\<rparr>) msg c1) (\<lambda>(_, c2, _).
        Inr (srv', c2))))))"

fun session ::
  "(payload \<Rightarrow> byte list) \<Rightarrow> (byte list \<Rightarrow> bool \<times> payload) \<Rightarrow> (u32 \<Rightarrow> bool) \<Rightarrow> (nat \<Rightarrow> write_result) \<Rightarrow>
   (byte list \<Rightarrow> byte list list list) \<Rightarrow> (conn_env \<times> message) list \<Rightarrow> 'd server \<times> client \<Rightarrow>
   ('d server \<times> client) res" where
  "session ser par alloc_ok w pieces [] sc = Inr sc"
| "session ser par alloc_ok w pieces (x # xs) sc =
     rbind (exchange ser par alloc_ok w pieces x sc) (session ser par alloc_ok w pieces xs)"

text \<open>What the messages mean on the abstract map and the counters, and the answers.\<close>

definition spec_message :: "message \<Rightarrow> store \<times> stats \<Rightarrow> ((store \<times> stats) \<times> payload) option" where
  "spec_message msg st =
     Option.bind (msg_type msg) (\<lambda>t. map_option (\<lambda>q. spec_request t q st) (request_payload t msg))"

fun spec_session :: "message list \<Rightarrow> store \<times> stats \<Rightarrow> ((store \<times> stats) \<times> payload list) option" where
  "spec_session [] st = Some (st, [])"
| "spec_session (m # ms) st =
     Option.bind (spec_message m st) (\<lambda>(st1, p).
       map_option (\<lambda>(st2, ps). (st2, p # ps)) (spec_session ms st1))"

text \<open>
  A delivery that works: connection and sending succeed, the server can allocate the buffer, and the
  bytes arrive in pieces that the flow can deal with.
\<close>

definition delivered ::
  "(payload \<Rightarrow> byte list) \<Rightarrow> (u32 \<Rightarrow> bool) \<Rightarrow> (byte list \<Rightarrow> byte list list list) \<Rightarrow> conn_env \<times> message \<Rightarrow> bool" where
  "delivered ser alloc_ok pieces = (\<lambda>(env, msg).
     env_socket env \<noteq> -1 \<and> env_connect env = 0 \<and>
     (\<forall>t q. msg_type msg = Some t \<longrightarrow> request_payload t msg = Some q \<longrightarrow>
        fits (ser q) \<and> alloc_ok (word_of_nat (length (ser q))) \<and>
        env_write env = int (length (frame (ser q))) \<and> (\<exists>bs. env_read env = Read_data bs) \<and>
        concat (concat (pieces (frame (ser q)))) = frame (ser q) \<and> pieces (frame (ser q)) \<noteq> [] \<and>
        safe_events (length (ser q)) 0 (pieces (frame (ser q)))))"

lemma sendData_records:
  assumes "msg_type msg = Some t" and "request_payload t msg = Some q"
    and "env_write env = int (length (send_buffer ser q))" and "env_read env = Read_data bs"
    and "snd (par (take MAX_READ bs)) = p"
  shows "\<exists>c'. sendData ser par env msg c = Inr (env_write env, c', frame (ser q)) \<and>
    map res_payload (results c') = map res_payload (results c) @ [p]"
proof (intro exI conjI)
  show "sendData ser par env msg c = Inr (env_write env, c\<lparr>results := results c @
      [\<lparr>res_payload = snd (par (take MAX_READ bs)), timestamp = env_stamp env\<rparr>],
      average_latency := update_latency (average_latency c) (env_duration env)\<rparr>, frame (ser q))"
    by (rule sendData_success [OF assms(1-4)])
qed (simp add: assms(5))

lemma exchange_refines:
  assumes "message_codec ser par" and "writable w" and "server_ok srv" and "\<not> bloom_enabled (srv_dict srv)"
    and "delivered ser alloc_ok pieces (env, msg)" and "spec_message msg (srv_abs srv) = Some (st, p)"
    and "length (response_bytes ser p) \<le> MAX_READ"
  shows "\<exists>srv' c'. exchange ser par alloc_ok w pieces (env, msg) (srv, c) = Inr (srv', c') \<and> server_ok srv' \<and>
    \<not> bloom_enabled (srv_dict srv') \<and> srv_abs srv' = st \<and>
    map res_payload (results c') = map res_payload (results c) @ [p]"
proof -
  from assms(6) obtain t q where q: "msg_type msg = Some t" "request_payload t msg = Some q"
      and st: "spec_request t q (srv_abs srv) = (st, p)"
    by (auto simp: spec_message_def bind_eq_Some_conv)
  with assms(5) obtain bs where d: "env_socket env \<noteq> -1" "env_connect env = 0" "fits (ser q)"
      "alloc_ok (word_of_nat (length (ser q)))" "env_write env = int (length (send_buffer ser q))"
      "env_read env = Read_data bs" "concat (concat (pieces (frame (ser q)))) = frame (ser q)"
      "pieces (frame (ser q)) \<noteq> []" "safe_events (length (ser q)) 0 (pieces (frame (ser q)))"
    by (auto simp: delivered_def send_buffer_frame)
  obtain srv' f' where srv': "flow_run ser par alloc_ok w (env_socket env)
      (map (map Read_data) (pieces (frame (ser q)))) srv new_tcp_flow = Inr (srv', Some f', response_bytes ser p)"
      "server_ok srv'" "\<not> bloom_enabled (srv_dict srv')" "srv_abs srv' = st" "snd (par (response_bytes ser p)) = p"
    using flow_serves [where alloc_ok = alloc_ok and fd = "env_socket env",
        OF assms(1) request_payload_type [OF q(2)] d(3,4) assms(2-4) d(7,9,8)] st by auto
  let ?env = "env\<lparr>env_read := Read_data (response_bytes ser p)\<rparr>"
  obtain c1 where start: "startClient env c = (True, c1)" and c1: "results c1 = results c"
    using d(1,2) by (simp add: startClient_def)
  have "take MAX_READ (response_bytes ser p) = response_bytes ser p" using assms(7) by simp
  then obtain c' where c': "sendData ser par ?env msg c1 = Inr (env_write env, c', frame (ser q))"
      "map res_payload (results c') = map res_payload (results c) @ [p]"
    using sendData_records [OF q, of ?env ser "response_bytes ser p" par p c1] d(5) srv'(5) c1 by auto
  obtain c0 where "sendData ser par env msg c1 = Inr (env_write env, c0, frame (ser q))"
    using sendData_records [OF q d(5,6) refl, of par c1] by blast
  with c'(1) srv'(1) have "exchange ser par alloc_ok w pieces (env, msg) (srv, c) = Inr (srv', c')"
    unfolding exchange_def by (simp only: prod.case start Let_def rbind.simps simp_thms if_False)
  with srv'(2-4) c'(2) show ?thesis by blast
qed

lemma session_refines:
  assumes "message_codec ser par" and "writable w"
  shows "server_ok srv \<Longrightarrow> \<not> bloom_enabled (srv_dict srv) \<Longrightarrow> list_all (delivered ser alloc_ok pieces) xs \<Longrightarrow>
    spec_session (map snd xs) (srv_abs srv) = Some (st, ps) \<Longrightarrow>
    list_all (\<lambda>p. length (response_bytes ser p) \<le> MAX_READ) ps \<Longrightarrow>
    \<exists>srv' c'. session ser par alloc_ok w pieces xs (srv, c) = Inr (srv', c') \<and> server_ok srv' \<and>
      srv_abs srv' = st \<and> map res_payload (results c') = map res_payload (results c) @ ps"
proof (induction xs arbitrary: srv c ps)
  case Nil
  then show ?case by simp
next
  case (Cons x xs)
  obtain env msg where x: "x = (env, msg)" by (cases x)
  from Cons.prems(4) obtain st1 p qs where p: "spec_message msg (srv_abs srv) = Some (st1, p)"
      "spec_session (map snd xs) st1 = Some (st, qs)" "ps = p # qs"
    by (auto simp: x bind_eq_Some_conv)
  obtain srv1 c1 where 1: "exchange ser par alloc_ok w pieces x (srv, c) = Inr (srv1, c1)" "server_ok srv1"
      "\<not> bloom_enabled (srv_dict srv1)" "srv_abs srv1 = st1"
      "map res_payload (results c1) = map res_payload (results c) @ [p]"
    using exchange_refines [OF assms Cons.prems(1,2) _ p(1), of alloc_ok pieces env c] Cons.prems(3,5) p(3)
    by (auto simp: x)
  with Cons.IH [OF 1(2,3), of qs c1] Cons.prems(3,5) p(2,3) show ?case by auto
qed

text \<open>C4: a client that sends any list of requests, each over a connection of its own and delivered in any
  pieces that the server can deal with, gets the answers that the specification gives for that list of
  requests, one result for each and in order, and leaves the server in the specified state.\<close>

theorem sessions_refine_specification:
  assumes "message_codec ser par" and "writable w" and "server_ok srv" and "\<not> bloom_enabled (srv_dict srv)"
    and "list_all (delivered ser alloc_ok pieces) xs"
    and "spec_session (map snd xs) (srv_abs srv) = Some (st, ps)"
    and "list_all (\<lambda>p. length (response_bytes ser p) \<le> 80) ps"
  shows "\<exists>srv' c'. session ser par alloc_ok w pieces xs (srv, c) = Inr (srv', c') \<and> server_ok srv' \<and>
    srv_abs srv' = st \<and> map res_payload (results c') = map res_payload (results c) @ ps"
  using session_refines [OF assms(1-6), of c] assms(7) by (simp add: MAX_READ_def)

text \<open>A SET of a key followed by a GET of it: the second answer carries the stored value.\<close>

definition sample_messages :: "message list" where
  "sample_messages = [\<lparr>msg_type = Some SET, msg_key = ''k'', msg_value = ''v''\<rparr>,
     \<lparr>msg_type = Some GET, msg_key = ''k'', msg_value = []\<rparr>]"

definition working_env :: "int \<Rightarrow> conn_env" where
  "working_env n = \<lparr> env_socket = 3, env_connect = 0, env_write = n, env_read = Read_data [], env_duration = 10,
     env_stamp = 1 \<rparr>"

definition set_answer :: payload where
  "set_answer = empty_payload\<lparr>pb_requesttype := Some SET, pb_key := Some ''k'', pb_value := Some ''v''\<rparr>"

definition get_answer :: payload where
  "get_answer = empty_payload\<lparr>pb_requesttype := Some GET, pb_key := Some ''k'', pb_value := Some ''v''\<rparr>"

lemma set_answer_bytes: "wire_ser set_answer = [8, 2, 18, 1, 107, 26, 1, 118]"
  by (simp add: wire_ser_def set_answer_def empty_payload_def wire_string_def wire_delimited_def varint.simps
      bytes_of_def of_char_def)

lemma get_answer_bytes: "wire_ser get_answer = [8, 1, 18, 1, 107, 26, 1, 118]"
  by (simp add: wire_ser_def get_answer_def empty_payload_def wire_string_def wire_delimited_def varint.simps
      bytes_of_def of_char_def)

theorem sessions_refine_specification_witness:
  "\<exists>srv' c'. session wire_ser wire_par (\<lambda>_. True) (\<lambda>_. Write_ok 1) (\<lambda>bs. [[bs]])
      (zip [working_env 12, working_env 9] sample_messages) (new_server :: unit server, new_client 0 0 ''h'' 1) =
      Inr (srv', c') \<and> map (get_str \<circ> pb_value \<circ> res_payload) (results c') = [''v'', ''v'']"
proof -
  let ?xs = "zip [working_env 12, working_env 9] sample_messages"
  have w: "writable (\<lambda>_. Write_ok 1)" by (auto simp: writable_def)
  have d: "list_all (delivered wire_ser (\<lambda>_. True) (\<lambda>bs. [[bs]])) ?xs"
    using set_answer_bytes sample_get_bytes unfolding set_answer_def sample_get_def
    by (simp add: sample_messages_def delivered_def working_env_def request_payload_def fits_def frame_def
        starts_well_def num_read_try_def)
  have s: "spec_session (map snd ?xs) (srv_abs (new_server :: unit server)) =
      Some ((Map.empty(''k'' \<mapsto> ''v''), incrGetReqSucc (incrGetReq new_stats)), [set_answer, get_answer])"
    by (simp add: sample_messages_def spec_message_def request_payload_def new_server_abs spec_set_def
        max_dict_size_def set_answer_def get_answer_def empty_payload_def get_str_def)
  have l: "list_all (\<lambda>p. length (response_bytes wire_ser p) \<le> 80) [set_answer, get_answer]"
    by (simp add: response_bytes_def set_answer_bytes get_answer_bytes)
  obtain srv' c' where "session wire_ser wire_par (\<lambda>_. True) (\<lambda>_. Write_ok 1) (\<lambda>bs. [[bs]]) ?xs
      (new_server :: unit server, new_client 0 0 ''h'' 1) = Inr (srv', c')"
      "map res_payload (results c') = [set_answer, get_answer]"
    using sessions_refine_specification [OF wire.message_codec_axioms w new_server_ok d s l,
        of "new_client 0 0 ''h'' 1"] by (auto simp: new_client_def)
  moreover from this(2) have "map (get_str \<circ> pb_value) (map res_payload (results c')) = [''v'', ''v'']"
    by (simp only: list.map) (simp add: set_answer_def get_answer_def get_str_def)
  ultimately show ?thesis unfolding list.map_comp by (intro exI conjI)
qed

end
